(* ===== verification/Prelude.thy ===== *)
theory Prelude
  imports Complex_Main "HOL-Library.AList" "HOL-Library.Word"
begin

text \<open>
  Shared material of the development: the JavaScript values and containers the TypeScript
  sources use, the generic lemmas about them, and the contracts several components share.

  \<^item> A JavaScript \<^verbatim>\<open>Map\<close> iterates in insertion order and \<^verbatim>\<open>set\<close> on a present key keeps the key's
    place, so it is an association list updated with \<^const>\<open>AList.update\<close> and
    \<^const>\<open>AList.delete\<close>; \<open>jm_wf\<close> says that no key occurs twice.
  \<^item> A JavaScript \<^verbatim>\<open>Set\<close> is a list without repetitions (\<open>js_add\<close>, \<open>js_del\<close>).
  \<^item> A JavaScript number is a \<open>jsnum\<close> where NaN and the infinities matter (values that arrive
    from outside), a \<open>real\<close> for ratios and weights, and an \<open>int\<close> or \<open>nat\<close> for counters,
    sizes and millisecond clocks. \<open>js_incr\<close> is \<^verbatim>\<open>n + 1\<close> on doubles that hold a non-negative
    integer, with the rounding beyond \<open>2 ^ 53\<close>.
  \<^item> A JavaScript string that may hold any text is a list of 16-bit code units (\<open>utf16\<close>); ids, labels
    and messages written by the code are \<open>string\<close>s.
  \<^item> Values that come off the wire untyped are \<open>json\<close> trees.
  \<^item> The locale \<open>safety\<close> turns "true at the start and kept by every step" into a fact on every
    reachable state; \<open>lifecycle\<close> is the contract of the guarded state fields
    (\<^verbatim>\<open>_transitionTo\<close>, \<^verbatim>\<open>transitionTo\<close>) of rooms and transfers.
\<close>

section \<open>JavaScript maps and sets\<close>

type_synonym ('k, 'v) jsmap = "('k \<times> 'v) list"

abbreviation jm_get :: "('k, 'v) jsmap \<Rightarrow> 'k \<Rightarrow> 'v option" where
  "jm_get m k \<equiv> map_of m k"

abbreviation jm_set :: "'k \<Rightarrow> 'v \<Rightarrow> ('k, 'v) jsmap \<Rightarrow> ('k, 'v) jsmap" where
  "jm_set k v m \<equiv> AList.update k v m"

abbreviation jm_delete :: "'k \<Rightarrow> ('k, 'v) jsmap \<Rightarrow> ('k, 'v) jsmap" where
  "jm_delete k m \<equiv> AList.delete k m"

abbreviation jm_keys :: "('k, 'v) jsmap \<Rightarrow> 'k list" where
  "jm_keys m \<equiv> map fst m"

abbreviation jm_values :: "('k, 'v) jsmap \<Rightarrow> 'v list" where
  "jm_values m \<equiv> map snd m"

definition jm_has :: "('k, 'v) jsmap \<Rightarrow> 'k \<Rightarrow> bool" where
  "jm_has m k \<longleftrightarrow> jm_get m k \<noteq> None"

definition jm_wf :: "('k, 'v) jsmap \<Rightarrow> bool" where
  "jm_wf m \<longleftrightarrow> distinct (jm_keys m)"

definition js_add :: "'a \<Rightarrow> 'a list \<Rightarrow> 'a list" where
  "js_add x s = (if x \<in> set s then s else s @ [x])"

definition js_del :: "'a \<Rightarrow> 'a list \<Rightarrow> 'a list" where
  "js_del x s = filter (\<lambda>y. y \<noteq> x) s"

named_theorems jm_simps \<open>reading maps and sets after an update\<close>

lemma jm_get_set [jm_simps, simp]:
  "jm_get (jm_set k v m) k' = (if k' = k then Some v else jm_get m k')"
  by (simp add: update_conv')

lemma jm_get_delete [jm_simps, simp]:
  "jm_get (jm_delete k m) k' = (if k' = k then None else jm_get m k')"
  by (simp add: delete_conv')

lemma jm_has_iff [jm_simps]: "jm_has m k \<longleftrightarrow> k \<in> set (jm_keys m)"
  by (simp add: jm_has_def map_of_eq_None_iff)

lemma jm_has_set [jm_simps, simp]: "jm_has (jm_set k v m) k' \<longleftrightarrow> k' = k \<or> jm_has m k'"
  by (simp add: jm_has_def)

lemma jm_has_delete [jm_simps, simp]: "jm_has (jm_delete k m) k' \<longleftrightarrow> k' \<noteq> k \<and> jm_has m k'"
  by (simp add: jm_has_def)

lemma jm_wf_Nil [simp, intro]: "jm_wf []"
  by (simp add: jm_wf_def)

lemma jm_wf_set [simp, intro]: "jm_wf m \<Longrightarrow> jm_wf (jm_set k v m)"
  by (simp add: jm_wf_def distinct_update)

lemma jm_wf_delete [simp, intro]: "jm_wf m \<Longrightarrow> jm_wf (jm_delete k m)"
  by (simp add: jm_wf_def delete_keys distinct_removeAll)

lemma jm_wf_filter [simp, intro]: "jm_wf m \<Longrightarrow> jm_wf (filter P m)"
  by (simp add: jm_wf_def distinct_map_filter)

lemma jm_keys_set: "set (jm_keys (jm_set k v m)) = insert k (set (jm_keys m))"
  by (auto simp: update_keys)

lemma jm_keys_delete: "set (jm_keys (jm_delete k m)) = set (jm_keys m) - {k}"
  by (simp add: delete_keys)

lemma jm_fst_set [simp]: "fst ` set (jm_set k v m) = insert k (fst ` set m)"
  using jm_keys_set [of k v m] by simp

lemma jm_fst_delete [simp]: "fst ` set (jm_delete k m) = fst ` set m - {k}"
  using jm_keys_delete [of k m] by simp

lemma jm_delete_set [simp]: "jm_delete k (jm_set k v m) = jm_delete k m"
  by (induction m) auto

lemma jm_delete_subset_empty: "jm_delete k m = [] \<Longrightarrow> fst ` set m' \<subseteq> fst ` set m \<Longrightarrow> jm_delete k m' = []"
  by (metis Diff_eq_empty_iff image_is_empty jm_fst_delete order.trans set_empty)

lemma jm_get_SomeD: "jm_get m k = Some v \<Longrightarrow> (k, v) \<in> set m"
  by (rule map_of_SomeD)

lemma jm_mem_iff: "jm_wf m \<Longrightarrow> (k, v) \<in> set m \<longleftrightarrow> jm_get m k = Some v"
  by (simp add: jm_wf_def)

lemma jm_set_absent: "k \<notin> set (jm_keys m) \<Longrightarrow> jm_set k v m = m @ [(k, v)]"
  by (induction m) auto

lemma jm_size_set: "length (jm_set k v m) = (if jm_has m k then length m else Suc (length m))"
  by (induction m) (auto simp: jm_has_iff)

lemma jm_size_delete:
  "jm_wf m \<Longrightarrow> length (jm_delete k m) = (if jm_has m k then length m - 1 else length m)"
proof (induction m)
  case Nil
  then show ?case by (simp add: jm_has_def)
next
  case (Cons p m)
  show ?case
  proof (cases "fst p = k")
    case True
    with Cons.prems have "k \<notin> fst ` set m" by (auto simp: jm_wf_def)
    with True show ?thesis by (simp add: jm_has_iff)
  next
    case False
    with Cons show ?thesis by (cases m) (auto simp: jm_wf_def jm_has_iff)
  qed
qed

lemma jm_size_delete_le: "length (jm_delete k m) \<le> length m"
  by (simp add: length_delete_le)

lemma set_jm_delete: "set (jm_delete k m) = {p \<in> set m. fst p \<noteq> k}"
  by (auto simp: AList.delete_eq)

lemma set_jm_set_subset: "set (jm_set k v m) \<subseteq> insert (k, v) (set m)"
  by (induction m) auto

lemma set_jm_set: "jm_wf m \<Longrightarrow> set (jm_set k v m) = insert (k, v) {p \<in> set m. fst p \<noteq> k}"
  by (induction m) (force simp: jm_wf_def)+

lemma js_add_set [jm_simps, simp]: "set (js_add x s) = insert x (set s)"
  by (auto simp: js_add_def)

lemma js_add_distinct [intro, simp]: "distinct s \<Longrightarrow> distinct (js_add x s)"
  by (simp add: js_add_def)

lemma js_del_set [jm_simps, simp]: "set (js_del x s) = set s - {x}"
  by (auto simp: js_del_def)

lemma js_del_distinct [intro, simp]: "distinct s \<Longrightarrow> distinct (js_del x s)"
  by (simp add: js_del_def)

lemma split_two_cases:
  "pre @ x # post = pre' @ y # post' \<Longrightarrow> x = y \<and> pre = pre' \<or> x \<in> set pre' \<or> y \<in> set pre"
  by (auto simp: append_eq_append_conv2 Cons_eq_append_conv append_eq_Cons_conv)

section \<open>Numbers and values off the wire\<close>

type_synonym utf16 = "16 word list"

definition u16 :: "string \<Rightarrow> utf16" where
  "u16 s = map (\<lambda>c. of_nat (of_char c)) s"

datatype jsnum = JFin real | JInf | JNegInf | JNaN

text \<open>\<^verbatim>\<open>Number.isFinite\<close> and \<^verbatim>\<open>Number.isInteger\<close>.\<close>

fun jsnum_finite :: "jsnum \<Rightarrow> bool" where
  "jsnum_finite (JFin _) = True"
| "jsnum_finite _ = False"

fun jsnum_integer :: "jsnum \<Rightarrow> bool" where
  "jsnum_integer (JFin r) \<longleftrightarrow> r = of_int \<lfloor>r\<rfloor>"
| "jsnum_integer _ \<longleftrightarrow> False"

text \<open>
  \<^verbatim>\<open>n + 1\<close> on a double that holds the non-negative integer \<open>n\<close>: exact below \<open>2 ^ 53\<close>; from there
  to \<open>2 ^ 54\<close> the doubles are the even integers and the sum is a tie that rounds to the one whose
  significand is even; beyond, the gap is at least 4 and the sum rounds back to \<open>n\<close>.
\<close>

definition js_incr :: "nat \<Rightarrow> nat" where
  "js_incr n = (if n < 2 ^ 53 then n + 1
                else if n < 2 ^ 54 \<and> odd (n div 2) then n + 2 else n)"

lemma js_incr_safe: "n < 2 ^ 53 \<Longrightarrow> js_incr n = Suc n"
  by (simp add: js_incr_def)

lemma js_incr_ge: "n \<le> js_incr n"
  by (simp add: js_incr_def)

lemma js_incr_mono_safe: "n < 2 ^ 53 \<Longrightarrow> n < js_incr n"
  by (simp add: js_incr_def)

datatype json =
    JNull
  | JBool bool
  | JNumber jsnum
  | JString string
  | JArray "json list"
  | JObject "(string \<times> json) list"

text \<open>A property read \<^verbatim>\<open>obj.key\<close>; \<open>None\<close> is \<^verbatim>\<open>undefined\<close>.\<close>

fun json_field :: "json \<Rightarrow> string \<Rightarrow> json option" where
  "json_field (JObject fs) k = map_of fs k"
| "json_field _ k = None"

text \<open>A number in a template string: the decimal digits of a non-negative integer.\<close>

fun js_nat_str :: "nat \<Rightarrow> string" where
  "js_nat_str n = (if n < 10 then [char_of (48 + n)] else js_nat_str (n div 10) @ [char_of (48 + n mod 10)])"

declare js_nat_str.simps [simp del]

text \<open>Reading decimal digits back.\<close>

definition js_digits_val :: "string \<Rightarrow> nat" where
  "js_digits_val s = fold (\<lambda>c a. 10 * a + (of_char c - 48)) s 0"

lemma js_digits_val_str [simp]: "js_digits_val (js_nat_str n) = n"
proof (induction n rule: js_nat_str.induct)
  case (1 n)
  then show ?case
    by (subst js_nat_str.simps) (simp add: js_digits_val_def)
qed

lemma js_nat_str_inj [simp]: "js_nat_str m = js_nat_str n \<longleftrightarrow> m = n"
  by (metis js_digits_val_str)

lemma js_nat_str_digits: "c \<in> set (js_nat_str n) \<Longrightarrow> of_char c \<in> {48..57 :: nat}"
proof (induction n rule: js_nat_str.induct)
  case (1 n)
  show ?case
    using 1 by (subst (asm) (2) js_nat_str.simps) (auto split: if_splits)
qed

lemma js_nat_str_ne [simp]: "js_nat_str n \<noteq> []"
  by (subst js_nat_str.simps) simp

section \<open>Contracts shared by several components\<close>

subsection \<open>Invariants of transition systems\<close>

locale safety =
  fixes init :: "'s \<Rightarrow> bool"
    and step :: "'s \<Rightarrow> 's \<Rightarrow> bool"
    and good :: "'s \<Rightarrow> bool"
  assumes init_good: "init s \<Longrightarrow> good s"
    and step_good: "good s \<Longrightarrow> step s t \<Longrightarrow> good t"
begin

lemma steps_good: "step\<^sup>*\<^sup>* s t \<Longrightarrow> good s \<Longrightarrow> good t"
  by (induction rule: rtranclp_induct) (auto intro: step_good)

lemma reachable_good: "init s \<Longrightarrow> step\<^sup>*\<^sup>* s t \<Longrightarrow> good t"
  by (blast intro: steps_good init_good)

end

subsection \<open>Guarded life cycles\<close>

text \<open>
  A life-cycle field is written through one guarded operation: \<open>move s n\<close> is the state after
  asking for \<open>n\<close> in state \<open>s\<close>, with the operation's Boolean answer. \<open>run_moves\<close> asks for the
  states of a list one after the other.
\<close>

definition run_moves :: "('s \<Rightarrow> 's \<Rightarrow> 's \<times> bool) \<Rightarrow> 's \<Rightarrow> 's list \<Rightarrow> 's" where
  "run_moves move s ns = fold (\<lambda>n st. fst (move st n)) ns s"

locale lifecycle =
  fixes move :: "'s \<Rightarrow> 's \<Rightarrow> 's \<times> bool"
    and edge :: "'s \<Rightarrow> 's \<Rightarrow> bool"
    and terminal :: "'s \<Rightarrow> bool"
  assumes move_edge: "fst (move s n) = s \<or> fst (move s n) = n \<and> edge s n"
    and terminal_stuck: "terminal s \<Longrightarrow> \<not> edge s n"
begin

lemma run_moves_path: "edge\<^sup>*\<^sup>* s (run_moves move s ns)"
proof (induction ns arbitrary: s)
  case Nil
  then show ?case by (simp add: run_moves_def)
next
  case (Cons n ns)
  have "edge\<^sup>*\<^sup>* s (fst (move s n))"
    using move_edge [of s n] by auto
  with Cons [of "fst (move s n)"] show ?case
    by (simp add: run_moves_def)
qed

lemma terminal_move: "terminal s \<Longrightarrow> fst (move s n) = s"
  using move_edge terminal_stuck by blast

lemma terminal_absorbing: "terminal s \<Longrightarrow> run_moves move s ns = s"
  by (induction ns arbitrary: s) (simp_all add: run_moves_def terminal_move)

end

text \<open>A life cycle without cycles: a rank that grows along every edge.\<close>

locale ranked_lifecycle = lifecycle move edge terminal
  for move :: "'s \<Rightarrow> 's \<Rightarrow> 's \<times> bool" and edge terminal +
  fixes rank :: "'s \<Rightarrow> nat"
  assumes edge_rank: "edge s n \<Longrightarrow> rank s < rank n"
begin

lemma path_rank: "edge\<^sup>*\<^sup>* s t \<Longrightarrow> s = t \<or> rank s < rank t"
  by (induction rule: rtranclp_induct) (auto dest: edge_rank)

lemma run_moves_rank: "rank s \<le> rank (run_moves move s ns)"
  using path_rank [OF run_moves_path] by (metis order.refl order.strict_implies_order)

lemma never_back: "run_moves move s ns \<noteq> s \<Longrightarrow> run_moves move (run_moves move s ns) ms \<noteq> s"
  using path_rank [OF run_moves_path, of s ns]
    run_moves_rank [of "run_moves move s ns" ms]
  by (metis linorder_not_less)

end

end
