(* ===== verification/EventEmitter.thy ===== *)
theory EventEmitter
  imports Prelude
begin

text \<open>
  \<^verbatim>\<open>packages/core/src/EventEmitter.ts\<close>. A listener function is known by its reference (\<open>lid\<close>); a
  registration records the reference and whether \<^verbatim>\<open>invoke\<close> is the \<^verbatim>\<open>once\<close> wrapper. What a listener
  does is a parameter \<open>body\<close>: it may change the emitter (register, remove, emit) and may throw.
\<close>

type_synonym lid = nat

record registration =
  reg_listener :: lid
  reg_once :: bool

type_synonym emitter = "(string, registration list) jsmap"

text \<open>A listener's effect on the emitter, and whether it threw.\<close>

type_synonym 'a listener_body = "lid \<Rightarrow> 'a \<Rightarrow> emitter \<Rightarrow> emitter \<times> bool"

definition ee_regs :: "emitter \<Rightarrow> string \<Rightarrow> registration list" where
  "ee_regs em ev = (case jm_get em ev of None \<Rightarrow> [] | Some arr \<Rightarrow> arr)"

definition ee_add :: "string \<Rightarrow> registration \<Rightarrow> emitter \<Rightarrow> emitter" where
  "ee_add key reg em =
     (case jm_get em key of
        None \<Rightarrow> jm_set key [reg] em
      | Some arr \<Rightarrow> jm_set key (arr @ [reg]) em)"

definition ee_on :: "string \<Rightarrow> lid \<Rightarrow> emitter \<Rightarrow> emitter" where
  "ee_on ev l em = ee_add ev \<lparr>reg_listener = l, reg_once = False\<rparr> em"

definition ee_once :: "string \<Rightarrow> lid \<Rightarrow> emitter \<Rightarrow> emitter" where
  "ee_once ev l em = ee_add ev \<lparr>reg_listener = l, reg_once = True\<rparr> em"

text \<open>\<^verbatim>\<open>findIndex\<close> and \<^verbatim>\<open>splice\<close>: the first registration of the listener goes.\<close>

fun ee_splice :: "lid \<Rightarrow> registration list \<Rightarrow> registration list" where
  "ee_splice l [] = []"
| "ee_splice l (r # rs) = (if reg_listener r = l then rs else r # ee_splice l rs)"

definition ee_off :: "string \<Rightarrow> lid \<Rightarrow> emitter \<Rightarrow> emitter" where
  "ee_off ev l em =
     (case jm_get em ev of
        None \<Rightarrow> em
      | Some arr \<Rightarrow>
          if \<exists>r \<in> set arr. reg_listener r = l
          then (let arr' = ee_splice l arr in if arr' = [] then jm_delete ev em else jm_set ev arr' em)
          else em)"

text \<open>\<^verbatim>\<open>reg.invoke(...args)\<close>: the \<^verbatim>\<open>once\<close> wrapper removes the listener, then calls it.\<close>

definition ee_invoke ::
  "'a listener_body \<Rightarrow> string \<Rightarrow> 'a \<Rightarrow> registration \<Rightarrow> emitter \<Rightarrow> emitter \<times> bool" where
  "ee_invoke body ev args reg em =
     body (reg_listener reg) args (if reg_once reg then ee_off ev (reg_listener reg) em else em)"

fun ee_dispatch ::
  "'a listener_body \<Rightarrow> string \<Rightarrow> 'a \<Rightarrow> registration list \<Rightarrow> emitter \<Rightarrow> (lid \<times> bool) list \<times> emitter" where
  "ee_dispatch body ev args [] em = ([], em)"
| "ee_dispatch body ev args (reg # regs) em =
     (let (em', threw) = ee_invoke body ev args reg em;
          (calls, em'') = ee_dispatch body ev args regs em'
      in ((reg_listener reg, threw) # calls, em''))"

text \<open>\<^verbatim>\<open>emit\<close>: the answer, the calls made (with whether each threw) and the emitter afterwards.\<close>

definition ee_emit ::
  "'a listener_body \<Rightarrow> string \<Rightarrow> 'a \<Rightarrow> emitter \<Rightarrow> bool \<times> (lid \<times> bool) list \<times> emitter" where
  "ee_emit body ev args em =
     (case jm_get em ev of
        None \<Rightarrow> (False, [], em)
      | Some arr \<Rightarrow>
          if length arr = 0 then (False, [], em)
          else (let (calls, em') = ee_dispatch body ev args arr em in (True, calls, em')))"

definition ee_removeAllListeners :: "string option \<Rightarrow> emitter \<Rightarrow> emitter" where
  "ee_removeAllListeners ev em = (case ev of Some e \<Rightarrow> jm_delete e em | None \<Rightarrow> [])"

definition ee_listenerCount :: "string \<Rightarrow> emitter \<Rightarrow> nat" where
  "ee_listenerCount ev em = (case jm_get em ev of None \<Rightarrow> 0 | Some arr \<Rightarrow> length arr)"

section \<open>The table of listeners\<close>

definition ee_wf :: "emitter \<Rightarrow> bool" where
  "ee_wf em \<longleftrightarrow> jm_wf em \<and> (\<forall>p \<in> set em. snd p \<noteq> [])"

lemma ee_regs_simps [simp]:
  "ee_regs (jm_set k arr em) ev = (if ev = k then arr else ee_regs em ev)"
  "ee_regs (jm_delete k em) ev = (if ev = k then [] else ee_regs em ev)"
  by (auto simp: ee_regs_def)

lemma ee_regs_add [simp]:
  "ee_regs (ee_add k reg em) ev = (if ev = k then ee_regs em k @ [reg] else ee_regs em ev)"
  by (auto simp: ee_add_def ee_regs_def split: option.splits)

lemma ee_splice_absent: "\<forall>r \<in> set arr. reg_listener r \<noteq> l \<Longrightarrow> ee_splice l arr = arr"
  by (induction arr) auto

lemma ee_regs_off [simp]:
  "ee_regs (ee_off k l em) ev = (if ev = k then ee_splice l (ee_regs em k) else ee_regs em ev)"
  by (auto simp: ee_off_def ee_regs_def Let_def ee_splice_absent split: option.splits)

lemma ee_splice_listeners: "map reg_listener (ee_splice l arr) = remove1 l (map reg_listener arr)"
  by (induction arr) auto

lemma ee_listenerCount_regs: "ee_listenerCount ev em = length (ee_regs em ev)"
  by (simp add: ee_listenerCount_def ee_regs_def split: option.splits)

lemma ee_wf_add: "ee_wf em \<Longrightarrow> ee_wf (ee_add k reg em)"
  by (auto simp: ee_wf_def ee_add_def set_jm_set split: option.splits)

lemma ee_wf_off: "ee_wf em \<Longrightarrow> ee_wf (ee_off k l em)"
  by (auto simp: ee_wf_def ee_off_def Let_def set_jm_delete set_jm_set split: option.splits)

lemma ee_wf_regs: "ee_wf em \<Longrightarrow> ee_regs em ev = [] \<longleftrightarrow> jm_get em ev = None"
  by (force simp: ee_wf_def ee_regs_def split: option.splits dest: jm_get_SomeD)

section \<open>Dispatch\<close>

lemma ee_dispatch_calls: "map fst (fst (ee_dispatch body ev args regs em)) = map reg_listener regs"
  by (induction regs arbitrary: em) (auto simp: split_def Let_def)

text \<open>
  (C30) \<^verbatim>\<open>emit\<close> runs on a snapshot and isolates its listeners: whatever the listeners do to the
  emitter and whichever of them throw, exactly the listeners registered when it was called are
  called, once each and in registration order, and it answers whether there was one.
\<close>

theorem ee_emit_snapshot:
  "map fst (fst (snd (ee_emit body ev args em))) = map reg_listener (ee_regs em ev) \<and>
   fst (ee_emit body ev args em) = (ee_listenerCount ev em > 0)"
  by (auto simp: ee_emit_def ee_regs_def ee_listenerCount_def ee_dispatch_calls split_def
      split: option.splits)

text \<open>Listeners that leave the emitter alone and do not throw.\<close>

definition ee_quiet :: "'a listener_body" where
  "ee_quiet l args em = (em, False)"

lemma ee_dispatch_quiet_regs:
  "ee_regs (snd (ee_dispatch ee_quiet ev args regs em)) ev =
     fold (\<lambda>r arr. if reg_once r then ee_splice (reg_listener r) arr else arr) regs (ee_regs em ev)"
  by (induction regs arbitrary: em) (auto simp: split_def Let_def ee_invoke_def ee_quiet_def)

lemma ee_emit_regs:
  "ee_regs (snd (snd (ee_emit ee_quiet ev args em))) ev =
     fold (\<lambda>r arr. if reg_once r then ee_splice (reg_listener r) arr else arr)
       (ee_regs em ev) (ee_regs em ev)"
proof (cases "jm_get em ev")
  case None
  then show ?thesis by (simp add: ee_emit_def ee_regs_def)
next
  case (Some arr)
  then have "ee_regs em ev = arr" by (simp add: ee_regs_def)
  then show ?thesis
    using Some ee_dispatch_quiet_regs [of ev args arr em]
    by (auto simp: ee_emit_def split_def)
qed

lemma ee_fold_drop_once:
  "distinct (map reg_listener (kept @ regs)) \<Longrightarrow> \<forall>r \<in> set kept. \<not> reg_once r \<Longrightarrow>
   fold (\<lambda>r arr. if reg_once r then ee_splice (reg_listener r) arr else arr) regs (kept @ regs) =
     kept @ filter (\<lambda>r. \<not> reg_once r) regs"
proof (induction regs arbitrary: kept)
  case (Cons r regs)
  have "ee_splice (reg_listener r) (kept @ r # regs) = kept @ regs"
    if "reg_listener r \<notin> set (map reg_listener kept)" using that by (induction kept) auto
  moreover have "reg_listener r \<notin> set (map reg_listener kept)" using Cons.prems(1) by auto
  ultimately show ?case
    using Cons.IH [of kept] Cons.IH [of "kept @ [r]"] Cons.prems by auto
qed simp

text \<open>
  One-time listeners: when no function is registered twice for the event, an emission leaves
  exactly the registrations made with \<^verbatim>\<open>on\<close>, so every \<^verbatim>\<open>once\<close> listener has fired for the last time.
\<close>

lemma ee_once_fires_once:
  assumes "distinct (map reg_listener (ee_regs em ev))"
  shows "ee_regs (snd (snd (ee_emit ee_quiet ev args em))) ev =
    filter (\<lambda>r. \<not> reg_once r) (ee_regs em ev)"
  using ee_fold_drop_once [of "[]" "ee_regs em ev"] assms by (simp add: ee_emit_regs)

text \<open>
  Without that proviso the promise fails: register the same function with \<^verbatim>\<open>on\<close> and then with
  \<^verbatim>\<open>once\<close>. The first emission calls it twice and drops the \<^verbatim>\<open>on\<close> registration instead of the
  one-time one; the second emission therefore fires the one-time listener again, and the third
  finds no listener at all.
\<close>

lemma ee_once_removes_on:
  "let em0 = ee_once ev f (ee_on ev f []);
       (r1, calls1, em1) = ee_emit ee_quiet ev args em0;
       (r2, calls2, em2) = ee_emit ee_quiet ev args em1;
       (r3, calls3, em3) = ee_emit ee_quiet ev args em2
   in map fst calls1 = [f, f] \<and> ee_regs em1 ev = [\<lparr>reg_listener = f, reg_once = True\<rparr>] \<and>
      map fst calls2 = [f] \<and> r3 = False \<and> calls3 = []"
  by (simp add: ee_once_def ee_on_def ee_add_def ee_emit_def ee_invoke_def ee_quiet_def ee_off_def
      ee_regs_def)

end
