(* ===== verification/MessageBus.thy ===== *)
theory MessageBus
  imports Prelude
begin

text \<open>
  \<^verbatim>\<open>packages/core/src/MessageBus.ts\<close>: the in-process publish/subscribe bus. A handler is known by
  its reference (\<open>hid\<close>); what it does is a parameter \<open>body\<close>, which may change the bus and may throw
  an error; \<open>on_error\<close> is the constructor's callback and says whether the callback itself throws.
\<close>

type_synonym hid = nat

text \<open>\<^verbatim>\<open>_topics\<close>: a set of handlers per topic.\<close>

type_synonym bus = "(string, hid list) jsmap"

type_synonym ('m, 'e) handler_body = "hid \<Rightarrow> 'm \<Rightarrow> bus \<Rightarrow> bus \<times> 'e option"

definition mb_subscribers :: "bus \<Rightarrow> string \<Rightarrow> hid list" where
  "mb_subscribers b topic = (case jm_get b topic of None \<Rightarrow> [] | Some hs \<Rightarrow> hs)"

text \<open>\<^verbatim>\<open>subscribe\<close>; the closure it returns is \<open>mb_unsubscribe\<close> of the same topic and handler.\<close>

definition mb_subscribe :: "string \<Rightarrow> hid \<Rightarrow> bus \<Rightarrow> bus" where
  "mb_subscribe topic h b =
     (case jm_get b topic of
        None \<Rightarrow> jm_set topic (js_add h []) b
      | Some hs \<Rightarrow> jm_set topic (js_add h hs) b)"

definition mb_unsubscribe :: "string \<Rightarrow> hid \<Rightarrow> bus \<Rightarrow> bus" where
  "mb_unsubscribe topic h b =
     (case jm_get b topic of
        None \<Rightarrow> b
      | Some hs \<Rightarrow>
          (let current = js_del h hs
           in if length current = 0 then jm_delete topic b else jm_set topic current b))"

text \<open>
  The loop of \<^verbatim>\<open>publish\<close> over the snapshot: the handlers called, the bus afterwards, and the error
  that escapes when \<^verbatim>\<open>onError\<close> throws.
\<close>

fun mb_deliver ::
  "('e \<Rightarrow> string \<Rightarrow> 'e option) \<Rightarrow> ('m, 'e) handler_body \<Rightarrow> string \<Rightarrow> 'm \<Rightarrow> hid list \<Rightarrow> bus
     \<Rightarrow> hid list \<times> bus \<times> 'e option" where
  "mb_deliver on_error body topic msg [] b = ([], b, None)"
| "mb_deliver on_error body topic msg (h # hs) b =
     (let (b', thrown) = body h msg b;
          escaped = (case thrown of None \<Rightarrow> None | Some err \<Rightarrow> on_error err topic)
      in case escaped of
           Some err \<Rightarrow> ([h], b', Some err)
         | None \<Rightarrow>
             (let (called, b'', res) = mb_deliver on_error body topic msg hs b' in (h # called, b'', res)))"

definition mb_publish ::
  "('e \<Rightarrow> string \<Rightarrow> 'e option) \<Rightarrow> ('m, 'e) handler_body \<Rightarrow> string \<Rightarrow> 'm \<Rightarrow> bus
     \<Rightarrow> hid list \<times> bus \<times> 'e option" where
  "mb_publish on_error body topic msg b =
     (case jm_get b topic of
        None \<Rightarrow> ([], b, None)
      | Some hs \<Rightarrow> mb_deliver on_error body topic msg hs b)"

section \<open>Subscriptions as a set\<close>

definition mb_wf :: "bus \<Rightarrow> bool" where
  "mb_wf b \<longleftrightarrow> jm_wf b \<and> (\<forall>p \<in> set b. snd p \<noteq> [] \<and> distinct (snd p))"

lemma mb_subscribers_subscribe [simp]:
  "mb_subscribers (mb_subscribe t h b) t' =
     (if t' = t then js_add h (mb_subscribers b t) else mb_subscribers b t')"
  by (auto simp: mb_subscribers_def mb_subscribe_def split: option.splits)

lemma mb_subscribers_unsubscribe [simp]:
  "mb_subscribers (mb_unsubscribe t h b) t' =
     (if t' = t then js_del h (mb_subscribers b t) else mb_subscribers b t')"
  by (auto simp: mb_subscribers_def mb_unsubscribe_def Let_def js_del_def split: option.splits)

lemma mb_wf_subscribe: "mb_wf b \<Longrightarrow> mb_wf (mb_subscribe t h b)"
  by (force simp: mb_wf_def mb_subscribe_def set_jm_set js_add_def split: option.splits
      dest: jm_get_SomeD)

lemma mb_wf_unsubscribe: "mb_wf b \<Longrightarrow> mb_wf (mb_unsubscribe t h b)"
  by (force simp: mb_wf_def mb_unsubscribe_def Let_def set_jm_set set_jm_delete js_del_def
      split: option.splits dest: jm_get_SomeD)

text \<open>
  The interface \<^verbatim>\<open>MessageBus\<close>: what a client that keeps an \<^verbatim>\<open>Unsubscribe\<close> closure may rely on.
\<close>

locale message_bus =
  fixes subs :: "'b \<Rightarrow> string \<Rightarrow> hid set"
    and subscribe unsubscribe :: "string \<Rightarrow> hid \<Rightarrow> 'b \<Rightarrow> 'b"
  assumes subs_subscribe: "subs (subscribe t h b) t' = (if t' = t then insert h (subs b t) else subs b t')"
    and subs_unsubscribe: "subs (unsubscribe t h b) t' = (if t' = t then subs b t - {h} else subs b t')"
begin

lemma balanced: "h \<notin> subs b t \<Longrightarrow> subs (unsubscribe t h (subscribe t h b)) t' = subs b t'"
  by (auto simp: subs_subscribe subs_unsubscribe)

text \<open>Subscriptions of one function are not counted: one cancellation ends them all.\<close>

lemma not_counted: "h \<notin> subs (unsubscribe t h (subscribe t h (subscribe t h b))) t"
  by (simp add: subs_unsubscribe)

end

interpretation lmb: message_bus "\<lambda>b t. set (mb_subscribers b t)" mb_subscribe mb_unsubscribe
  by unfold_locales auto

section \<open>Delivery\<close>

lemma mb_deliver_all:
  "(\<And>e t. on_error e t = None) \<Longrightarrow>
   fst (mb_deliver on_error body topic msg hs b) = hs \<and>
   snd (snd (mb_deliver on_error body topic msg hs b)) = None"
  by (induction hs arbitrary: b) (auto simp: split_def Let_def split: option.splits)

text \<open>
  (C31) Delivery: with an error callback that does not throw (the default one logs), \<^verbatim>\<open>publish\<close>
  resolves and calls exactly the handlers subscribed to the topic when it was called, each once and
  in subscription order, whichever of them throw and whatever they do to the bus meanwhile.
\<close>

theorem mb_publish_isolated:
  assumes "\<And>e t. on_error e t = None"
  shows "fst (mb_publish on_error body topic msg b) = mb_subscribers b topic \<and>
    snd (snd (mb_publish on_error body topic msg b)) = None"
  by (simp add: mb_publish_def mb_subscribers_def mb_deliver_all assms split: option.splits)

text \<open>Witness: a bus with two handlers, the first of which unsubscribes the second and throws.\<close>

theorem mb_publish_isolated_witness:
  "fst (mb_publish (\<lambda>e t. None) (\<lambda>h m b. if h = 1 then (mb_unsubscribe ''t'' 2 b, Some ()) else (b, None))
     ''t'' () (mb_subscribe ''t'' 2 (mb_subscribe ''t'' 1 []))) = [1, 2]"
  using mb_publish_isolated [of "\<lambda>e t. None"
      "\<lambda>h m b. if h = 1 then (mb_unsubscribe ''t'' 2 b, Some ()) else (b, None)" "''t''" "()"
      "mb_subscribe ''t'' 2 (mb_subscribe ''t'' 1 [])"]
  by (simp add: mb_subscribers_def mb_subscribe_def js_add_def)

text \<open>
  The comment on \<^verbatim>\<open>subscribe\<close> says the returned function removes \<^emph>\<open>this\<close> subscription; with the same
  function subscribed twice it removes the only entry both share.
\<close>

lemma mb_double_subscription: "h \<notin> set (mb_subscribers (mb_unsubscribe t h (mb_subscribe t h (mb_subscribe t h b))) t)"
  by (rule lmb.not_counted)

end
