(* ===== verification/StateStore.thy ===== *)
theory StateStore
  imports Prelude "HOL-Library.Sublist"
begin

text \<open>
  \<^verbatim>\<open>packages/core/src/StateStore.ts\<close>: the in-memory key/value store with lazy time-to-live expiry
  and an optional background sweeper. Every operation takes the clock reading of the moment.
\<close>

record 'v ss_entry =
  se_value :: 'v
  se_expiresAt :: "int option"

record 'v state_store =
  ss_map :: "(string, 'v ss_entry) jsmap"
  ss_sweepTimer :: "int option"

text \<open>The constructor: the background timer runs only for a positive interval.\<close>

definition ss_new :: "int option \<Rightarrow> 'v state_store" where
  "ss_new sweepIntervalMs =
     \<lparr>ss_map = [],
      ss_sweepTimer = (case sweepIntervalMs of Some ms \<Rightarrow> if ms > 0 then Some ms else None | None \<Rightarrow> None)\<rparr>"

definition ss_stop :: "'v state_store \<Rightarrow> 'v state_store" where
  "ss_stop s = (if ss_sweepTimer s \<noteq> None then s\<lparr>ss_sweepTimer := None\<rparr> else s)"

definition ss_expired :: "int \<Rightarrow> 'v ss_entry \<Rightarrow> bool" where
  "ss_expired now e \<longleftrightarrow> (case se_expiresAt e of None \<Rightarrow> False | Some t \<Rightarrow> t \<le> now)"

definition ss_purge :: "int \<Rightarrow> 'v state_store \<Rightarrow> 'v state_store" where
  "ss_purge now s =
     s\<lparr>ss_map := fold (\<lambda>(key, e) m. if ss_expired now e then jm_delete key m else m) (ss_map s) (ss_map s)\<rparr>"

definition ss_live :: "int \<Rightarrow> string \<Rightarrow> 'v state_store \<Rightarrow> 'v ss_entry option \<times> 'v state_store" where
  "ss_live now key s =
     (case jm_get (ss_map s) key of
        None \<Rightarrow> (None, s)
      | Some e \<Rightarrow>
          if ss_expired now e then (None, s\<lparr>ss_map := jm_delete key (ss_map s)\<rparr>) else (Some e, s))"

definition ss_get :: "int \<Rightarrow> string \<Rightarrow> 'v state_store \<Rightarrow> 'v option \<times> 'v state_store" where
  "ss_get now key s = (let (e, s') = ss_live now key s in (map_option se_value e, s'))"

definition ss_set :: "int \<Rightarrow> string \<Rightarrow> 'v \<Rightarrow> int option \<Rightarrow> 'v state_store \<Rightarrow> 'v state_store" where
  "ss_set now key v ttlMs s =
     s\<lparr>ss_map := jm_set key \<lparr>se_value = v, se_expiresAt = map_option (\<lambda>ms. now + ms) ttlMs\<rparr> (ss_map s)\<rparr>"

definition ss_delete :: "string \<Rightarrow> 'v state_store \<Rightarrow> 'v state_store" where
  "ss_delete key s = s\<lparr>ss_map := jm_delete key (ss_map s)\<rparr>"

definition ss_has :: "int \<Rightarrow> string \<Rightarrow> 'v state_store \<Rightarrow> bool \<times> 'v state_store" where
  "ss_has now key s = (let (e, s') = ss_live now key s in (e \<noteq> None, s'))"

text \<open>
  \<^verbatim>\<open>keys\<close> iterates over the map while \<^verbatim>\<open>_live\<close> deletes expired entries from it; a JavaScript \<^verbatim>\<open>Map\<close>
  iterator is not disturbed by the deletion of an entry it has already reached.
\<close>

fun ss_keys_loop :: "int \<Rightarrow> string option \<Rightarrow> string list \<Rightarrow> 'v state_store \<Rightarrow> string list \<times> 'v state_store" where
  "ss_keys_loop now pre [] s = ([], s)"
| "ss_keys_loop now pre (key # ks) s =
     (if \<not> (case pre of None \<Rightarrow> True | Some p \<Rightarrow> prefix p key) then ss_keys_loop now pre ks s
      else (let (e, s') = ss_live now key s;
                (out, s'') = ss_keys_loop now pre ks s'
            in (if e \<noteq> None then key # out else out, s'')))"

definition ss_keys :: "int \<Rightarrow> string option \<Rightarrow> 'v state_store \<Rightarrow> string list \<times> 'v state_store" where
  "ss_keys now pre s = ss_keys_loop now pre (jm_keys (ss_map s)) s"

section \<open>What a store holds at a time\<close>

text \<open>The abstract store: at time \<open>now\<close> a key maps to the value of its unexpired entry.\<close>

definition ss_view :: "'v state_store \<Rightarrow> int \<Rightarrow> string \<Rightarrow> 'v option" where
  "ss_view s now key =
     (case jm_get (ss_map s) key of
        None \<Rightarrow> None
      | Some e \<Rightarrow> if ss_expired now e then None else Some (se_value e))"

definition ss_wf :: "'v state_store \<Rightarrow> bool" where
  "ss_wf s \<longleftrightarrow> jm_wf (ss_map s)"

lemma ss_expired_mono: "ss_expired now e \<Longrightarrow> now \<le> now' \<Longrightarrow> ss_expired now' e"
  by (auto simp: ss_expired_def split: option.splits)

lemma ss_wf_ops:
  "ss_wf (ss_new i)" "ss_wf s \<Longrightarrow> ss_wf (ss_set now k v ttl s)" "ss_wf s \<Longrightarrow> ss_wf (ss_delete k s)"
  "ss_wf s \<Longrightarrow> ss_wf (ss_stop s)" "ss_wf s \<Longrightarrow> ss_wf (snd (ss_live now k s))"
  by (auto simp: ss_wf_def ss_new_def ss_set_def ss_delete_def ss_stop_def ss_live_def
      split: option.splits)

lemma ss_live_value: "map_option se_value (fst (ss_live now k s)) = ss_view s now k"
  by (simp add: ss_live_def ss_view_def split: option.splits)

text \<open>Lazy eviction is invisible: it changes no reading at the present or a later time.\<close>

lemma ss_live_view: "now \<le> now' \<Longrightarrow> ss_view (snd (ss_live now k s)) now' = ss_view s now'"
  by (auto simp: ss_live_def ss_view_def fun_eq_iff dest: ss_expired_mono split: option.splits)

lemma ss_purge_fold_get:
  "jm_get (fold (\<lambda>(key, e) m. if ss_expired now e then jm_delete key m else m) ps m) k =
     (if \<exists>e. (k, e) \<in> set ps \<and> ss_expired now e then None else jm_get m k)"
  by (induction ps arbitrary: m) auto

lemma ss_purge_view:
  assumes "ss_wf s" "now \<le> now'"
  shows "ss_view (ss_purge now s) now' = ss_view s now'"
proof
  fix k
  have "(\<exists>e. (k, e) \<in> set (ss_map s) \<and> ss_expired now e) \<longleftrightarrow>
        (\<exists>e. jm_get (ss_map s) k = Some e \<and> ss_expired now e)"
    using assms(1) by (auto simp: ss_wf_def jm_mem_iff)
  then show "ss_view (ss_purge now s) now' k = ss_view s now' k"
    using assms(2)
    by (auto simp: ss_view_def ss_purge_def ss_purge_fold_get dest: ss_expired_mono split: option.splits)
qed

lemma ss_purge_live: "ss_wf s \<Longrightarrow> jm_get (ss_map (ss_purge now s)) k = Some e \<Longrightarrow> \<not> ss_expired now e"
  by (auto simp: ss_purge_def ss_purge_fold_get ss_wf_def jm_mem_iff split: if_splits)

section \<open>The interface\<close>

text \<open>
  The interface \<^verbatim>\<open>StateStore\<close> as a timed map: \<open>view s now\<close> is what the store holds at \<open>now\<close>.
\<close>

locale ttl_store =
  fixes view :: "'s \<Rightarrow> int \<Rightarrow> string \<Rightarrow> 'v option"
    and getv :: "int \<Rightarrow> string \<Rightarrow> 's \<Rightarrow> 'v option \<times> 's"
    and setv :: "int \<Rightarrow> string \<Rightarrow> 'v \<Rightarrow> int option \<Rightarrow> 's \<Rightarrow> 's"
    and del :: "string \<Rightarrow> 's \<Rightarrow> 's"
  assumes get_result: "fst (getv now k s) = view s now k"
    and get_view: "now \<le> now' \<Longrightarrow> view (snd (getv now k s)) now' = view s now'"
    and set_view: "view (setv now k v ttl s) now' k' =
      (if k' = k then (case ttl of None \<Rightarrow> Some v | Some ms \<Rightarrow> if now + ms \<le> now' then None else Some v)
       else view s now' k')"
    and delete_view: "view (del k s) now' k' = (if k' = k then None else view s now' k')"
begin

lemma read_own_write:
  "fst (getv now' k (setv now k v ttl s)) =
     (if (\<forall>ms. ttl = Some ms \<longrightarrow> now' < now + ms) then Some v else None)"
  by (auto simp: get_result set_view split: option.splits)

lemma reads_commute:
  "now \<le> now' \<Longrightarrow> fst (getv now' k' (snd (getv now k s))) = fst (getv now' k' s)"
  by (simp add: get_result get_view)

end

interpretation mss: ttl_store ss_view ss_get ss_set ss_delete
proof unfold_locales
  fix now now' :: int and k k' :: string and v :: 'a and ttl and s :: "'a state_store"
  show "fst (ss_get now k s) = ss_view s now k"
    by (simp add: ss_get_def split_def Let_def ss_live_value)
  show "ss_view (snd (ss_get now k s)) now' = ss_view s now'" if "now \<le> now'"
    using that by (simp add: ss_get_def split_def Let_def ss_live_view)
  show "ss_view (ss_set now k v ttl s) now' k' =
      (if k' = k then (case ttl of None \<Rightarrow> Some v | Some ms \<Rightarrow> if now + ms \<le> now' then None else Some v)
       else ss_view s now' k')"
    by (simp add: ss_view_def ss_set_def ss_expired_def split: option.splits)
  show "ss_view (ss_delete k s) now' k' = (if k' = k then None else ss_view s now' k')"
    by (simp add: ss_view_def ss_delete_def)
qed

section \<open>Listing keys\<close>

lemma ss_keys_loop_result:
  "distinct ks \<Longrightarrow> fst (ss_keys_loop now pre ks s) =
     filter (\<lambda>k. (case pre of None \<Rightarrow> True | Some p \<Rightarrow> prefix p k) \<and> ss_view s now k \<noteq> None) ks \<and>
   (\<forall>now'. now \<le> now' \<longrightarrow> ss_view (snd (ss_keys_loop now pre ks s)) now' = ss_view s now')"
proof (induction ks arbitrary: s)
  case (Cons k ks)
  have "fst (ss_live now k s) \<noteq> None \<longleftrightarrow> ss_view s now k \<noteq> None"
    by (simp flip: ss_live_value)
  then show ?case
    using Cons.IH [of s] Cons.IH [of "snd (ss_live now k s)"] Cons.prems ss_live_view [of now _ k s]
    by (auto simp: split_def Let_def)
qed simp

text \<open>
  \<^verbatim>\<open>keys(prefix)\<close> lists exactly the live keys with the prefix, each once, and the evictions it
  performs on the way change no later reading.
\<close>

lemma ss_keys_exact:
  assumes "ss_wf s"
  shows "set (fst (ss_keys now pre s)) =
      {k. ss_view s now k \<noteq> None \<and> (case pre of None \<Rightarrow> True | Some p \<Rightarrow> prefix p k)} \<and>
    distinct (fst (ss_keys now pre s)) \<and>
    (\<forall>now' \<ge> now. ss_view (snd (ss_keys now pre s)) now' = ss_view s now')"
proof -
  have d: "distinct (jm_keys (ss_map s))" using assms by (simp add: ss_wf_def jm_wf_def)
  have "ss_view s now k \<noteq> None \<Longrightarrow> k \<in> set (jm_keys (ss_map s))" for k
    by (metis jm_has_def jm_has_iff option.simps(4) ss_view_def)
  with ss_keys_loop_result [OF d, of now pre s] d show ?thesis
    by (auto simp: ss_keys_def)
qed


section \<open>Reading what was written\<close>

text \<open>Everything that can happen to a store between two accesses of a key.\<close>

datatype 'v ss_op =
    SsSweep int
  | SsGet int string
  | SsHas int string
  | SsKeys int "string option"
  | SsSet int string 'v "int option"
  | SsDelete string
  | SsStop

fun ss_exec :: "'v ss_op \<Rightarrow> 'v state_store \<Rightarrow> 'v state_store" where
  "ss_exec (SsSweep t) s = ss_purge t s"
| "ss_exec (SsGet t k) s = snd (ss_get t k s)"
| "ss_exec (SsHas t k) s = snd (ss_has t k s)"
| "ss_exec (SsKeys t pre) s = snd (ss_keys t pre s)"
| "ss_exec (SsSet t k v ttl) s = ss_set t k v ttl s"
| "ss_exec (SsDelete k) s = ss_delete k s"
| "ss_exec SsStop s = ss_stop s"

text \<open>An operation of no later than \<open>now\<close> that does not write the key.\<close>

fun ss_apart :: "int \<Rightarrow> string \<Rightarrow> 'v ss_op \<Rightarrow> bool" where
  "ss_apart now key (SsSweep t) \<longleftrightarrow> t \<le> now"
| "ss_apart now key (SsGet t k) \<longleftrightarrow> t \<le> now"
| "ss_apart now key (SsHas t k) \<longleftrightarrow> t \<le> now"
| "ss_apart now key (SsKeys t pre) \<longleftrightarrow> t \<le> now"
| "ss_apart now key (SsSet t k v ttl) \<longleftrightarrow> k \<noteq> key"
| "ss_apart now key (SsDelete k) \<longleftrightarrow> k \<noteq> key"
| "ss_apart now key SsStop \<longleftrightarrow> True"

lemma ss_purge_fold_wf: "jm_wf m \<Longrightarrow> jm_wf (fold (\<lambda>(key, e) m. if ss_expired now e then jm_delete key m else m) ps m)"
  by (induction ps arbitrary: m) auto

lemma ss_keys_loop_wf: "ss_wf s \<Longrightarrow> ss_wf (snd (ss_keys_loop now pre ks s))"
  by (induction ks arbitrary: s) (simp_all add: split_def Let_def ss_wf_ops)

lemma ss_exec_wf: "ss_wf s \<Longrightarrow> ss_wf (ss_exec x s)"
  by (cases x) (simp_all add: ss_wf_ops ss_get_def ss_has_def ss_keys_def split_def Let_def ss_keys_loop_wf,
    simp add: ss_wf_def ss_purge_def ss_purge_fold_wf)

lemma ss_exec_view:
  assumes "ss_wf s" "ss_apart now key x"
  shows "ss_view (ss_exec x s) now key = ss_view s now key"
proof (cases x)
  case (SsSweep t)
  then show ?thesis using assms ss_purge_view [of s t now] by simp
next
  case (SsKeys t pre)
  then show ?thesis using assms ss_keys_exact [of s t pre] by simp
next
  case (SsStop)
  then show ?thesis by (simp add: ss_stop_def ss_view_def)
qed (use assms in \<open>simp_all add: mss.get_view mss.set_view mss.delete_view ss_has_def split_def Let_def ss_live_view\<close>)

lemma ss_fold_view:
  "ss_wf s \<Longrightarrow> list_all (ss_apart now key) xs \<Longrightarrow> ss_view (fold ss_exec xs s) now key = ss_view s now key"
  by (induction xs arbitrary: s) (simp_all add: ss_exec_wf ss_exec_view)

text \<open>
  (C26) Time to live: after \<^verbatim>\<open>set(key, value, ttl)\<close> at time \<open>now\<close>, a \<^verbatim>\<open>get\<close> of the key at a later time
  returns the value strictly before \<open>now + ttl\<close> (always, without a ttl) and nothing from then on, whatever
  happens in between: any number of sweeps, reads of any key and listings up to that time, and writes and deletions of other keys.
\<close>

theorem ss_ttl_roundtrip:
  assumes "ss_wf s" "list_all (ss_apart now' k) xs"
  shows "fst (ss_get now' k (fold ss_exec xs (ss_set now k v ttl s))) =
    (if (\<forall>ms. ttl = Some ms \<longrightarrow> now' < now + ms) then Some v else None)"
proof -
  have "ss_view (fold ss_exec xs (ss_set now k v ttl s)) now' k = ss_view (ss_set now k v ttl s) now' k"
    by (rule ss_fold_view [OF ss_wf_ops(2) [OF assms(1)] assms(2)])
  then show ?thesis using mss.read_own_write [of now' k now v ttl s] by (simp only: mss.get_result)
qed

theorem ss_ttl_roundtrip_witness:
  "fst (ss_get 60 ''k'' (fold ss_exec [SsSweep 20, SsGet 30 ''k'', SsSet 40 ''j'' False None, SsSweep 60] (ss_set 10 ''k'' True (Some 50) (ss_new None)))) = None \<and>
   fst (ss_get 59 ''k'' (fold ss_exec [SsSweep 20, SsGet 30 ''k'', SsKeys 59 None] (ss_set 10 ''k'' True (Some 50) (ss_new None)))) = Some True"
  using ss_ttl_roundtrip [OF ss_wf_ops(1), of 60 "''k''" "[SsSweep 20, SsGet 30 ''k'', SsSet 40 ''j'' False None, SsSweep 60]" 10 True "Some 50" None]
    ss_ttl_roundtrip [OF ss_wf_ops(1), of 59 "''k''" "[SsSweep 20, SsGet 30 ''k'', SsKeys 59 None]" 10 True "Some 50" None] by simp

end
