(* ===== verification/Lock.thy ===== *)
theory Lock
  imports Prelude "HOL-Library.Word"
begin

text \<open>
  \<^verbatim>\<open>packages/core/src/Lock.ts\<close>: the in-memory lock with fencing tokens and time-to-live. The random
  source of \<^verbatim>\<open>randomToken\<close> is a parameter; \<^verbatim>\<open>acquire\<close> takes the token it would mint.
\<close>

text \<open>\<^verbatim>\<open>b.toString(16).padStart(2, '0')\<close> for one byte.\<close>

definition hex_digit :: "nat \<Rightarrow> char" where
  "hex_digit d = (if d < 10 then char_of (48 + d) else char_of (87 + d))"

definition hex_byte :: "8 word \<Rightarrow> string" where
  "hex_byte b = [hex_digit (unat b div 16), hex_digit (unat b mod 16)]"

text \<open>
  What \<^verbatim>\<open>globalThis.crypto\<close> offers: a UUID, sixteen random bytes, or nothing, in which case the
  clock- and \<^verbatim>\<open>Math.random\<close>-based text is used.
\<close>

record crypto_env =
  cr_randomUUID :: "string option"
  cr_getRandomValues :: "8 word list option"
  cr_fallback :: string

definition randomToken :: "crypto_env \<Rightarrow> string" where
  "randomToken c =
     (case cr_randomUUID c of
        Some u \<Rightarrow> u
      | None \<Rightarrow>
          (case cr_getRandomValues c of
             Some bytes \<Rightarrow> fold (\<lambda>b hex. hex @ hex_byte b) bytes ''''
           | None \<Rightarrow> cr_fallback c))"

record holding =
  hd_token :: string
  hd_expiresAt :: int

type_synonym memory_lock = "(string, holding) jsmap"

definition lk_acquire :: "int \<Rightarrow> string \<Rightarrow> string \<Rightarrow> int \<Rightarrow> memory_lock \<Rightarrow> string option \<times> memory_lock" where
  "lk_acquire now token key ttlMs held =
     (case jm_get held key of
        Some current \<Rightarrow>
          if hd_expiresAt current > now then (None, held)
          else (Some token, jm_set key \<lparr>hd_token = token, hd_expiresAt = now + ttlMs\<rparr> held)
      | None \<Rightarrow> (Some token, jm_set key \<lparr>hd_token = token, hd_expiresAt = now + ttlMs\<rparr> held))"

definition lk_release :: "string \<Rightarrow> string \<Rightarrow> memory_lock \<Rightarrow> memory_lock" where
  "lk_release key token held =
     (case jm_get held key of
        Some current \<Rightarrow> if hd_token current = token then jm_delete key held else held
      | None \<Rightarrow> held)"

text \<open>\<^verbatim>\<open>noopLock\<close>: no state, every acquisition succeeds.\<close>

definition noop_acquire :: "string \<Rightarrow> int \<Rightarrow> string option" where
  "noop_acquire key ttlMs = Some ''noop''"

section \<open>Tokens\<close>

lemma fold_hex: "fold (\<lambda>b hex. hex @ hex_byte b) bs acc = acc @ concat (map hex_byte bs)"
  by (induction bs arbitrary: acc) auto

lemma hex_digit_inj: "d < 16 \<Longrightarrow> d' < 16 \<Longrightarrow> hex_digit d = hex_digit d' \<longleftrightarrow> d = d'"
  by (auto simp: hex_digit_def split: if_splits dest!: arg_cong [where f = "of_char :: char \<Rightarrow> nat"])

lemma hex_byte_inj: "hex_byte b = hex_byte b' \<longleftrightarrow> b = b'"
proof
  assume "hex_byte b = hex_byte b'"
  moreover have "unat b < 256" "unat b' < 256"
    using unsigned_less [where ?'a = nat, of b] unsigned_less [where ?'a = nat, of b'] by simp_all
  ultimately have "unat b div 16 = unat b' div 16 \<and> unat b mod 16 = unat b' mod 16"
    by (auto simp: hex_byte_def hex_digit_inj)
  then have "unat b = unat b'" by (metis mult_div_mod_eq)
  then show "b = b'" by (rule unsigned_word_eqI)
qed simp

text \<open>Different random bytes give different tokens: the hexadecimal rendering loses nothing.\<close>

lemma concat_hex_inj: "concat (map hex_byte bs) = concat (map hex_byte bs') \<longleftrightarrow> bs = bs'"
proof (induction bs arbitrary: bs')
  case Nil
  then show ?case by (cases bs') (auto simp: hex_byte_def)
next
  case (Cons b bs)
  show ?case
  proof (cases bs')
    case (Cons b' bs'')
    have "hex_byte b @ xs = hex_byte b' @ ys \<longleftrightarrow> hex_byte b = hex_byte b' \<and> xs = ys" for xs ys
      by (simp add: hex_byte_def)
    with Cons.IH [of bs''] Cons show ?thesis by (simp add: hex_byte_inj)
  qed (simp add: hex_byte_def)
qed

lemma randomToken_bytes_inj:
  "randomToken \<lparr>cr_randomUUID = None, cr_getRandomValues = Some bs, cr_fallback = f\<rparr> =
   randomToken \<lparr>cr_randomUUID = None, cr_getRandomValues = Some bs', cr_fallback = f'\<rparr> \<longleftrightarrow> bs = bs'"
  by (simp add: randomToken_def fold_hex concat_hex_inj)

section \<open>Mutual exclusion\<close>

text \<open>
  The interface \<^verbatim>\<open>Lock\<close>. \<open>holder s now k\<close> is the token that holds \<open>k\<close> at \<open>now\<close> with the time it
  runs out. Operations of other clients are a trace of acquisitions and releases.
\<close>

datatype lock_op = Acquire int string string int | Release string string

fun lk_ops ::
  "(int \<Rightarrow> string \<Rightarrow> string \<Rightarrow> int \<Rightarrow> 's \<Rightarrow> string option \<times> 's) \<Rightarrow> (string \<Rightarrow> string \<Rightarrow> 's \<Rightarrow> 's)
     \<Rightarrow> lock_op list \<Rightarrow> 's \<Rightarrow> 's" where
  "lk_ops acq rel [] s = s"
| "lk_ops acq rel (Acquire now tok k ttl # xs) s = lk_ops acq rel xs (snd (acq now tok k ttl s))"
| "lk_ops acq rel (Release k tok # xs) s = lk_ops acq rel xs (rel k tok s)"

locale ttl_mutex =
  fixes holder :: "'s \<Rightarrow> string \<Rightarrow> (string \<times> int) option"
    and acquire :: "int \<Rightarrow> string \<Rightarrow> string \<Rightarrow> int \<Rightarrow> 's \<Rightarrow> string option \<times> 's"
    and release :: "string \<Rightarrow> string \<Rightarrow> 's \<Rightarrow> 's"
  assumes acquire_held:
      "holder s k = Some (tok, till) \<Longrightarrow> now < till \<Longrightarrow> acquire now tok' k ttl s = (None, s)"
    and acquire_free:
      "(\<forall>tok till. holder s k = Some (tok, till) \<longrightarrow> till \<le> now) \<Longrightarrow>
       fst (acquire now tok' k ttl s) = Some tok' \<and>
       holder (snd (acquire now tok' k ttl s)) k = Some (tok', now + ttl)"
    and acquire_other: "k' \<noteq> k \<Longrightarrow> holder (snd (acquire now tok k ttl s)) k' = holder s k'"
    and release_holder:
      "holder (release k tok s) k' =
         (if k' = k \<and> (\<exists>till. holder s k = Some (tok, till)) then None else holder s k')"
begin

definition harmless :: "string \<Rightarrow> string \<Rightarrow> int \<Rightarrow> lock_op \<Rightarrow> bool" where
  "harmless k tok till x \<longleftrightarrow>
     (case x of Acquire now _ k' _ \<Rightarrow> k' = k \<longrightarrow> now < till | Release k' tok' \<Rightarrow> k' = k \<longrightarrow> tok' \<noteq> tok)"

lemma acquire_keeps:
  "holder s k = Some (tok, till) \<Longrightarrow> k' = k \<longrightarrow> now < till \<Longrightarrow>
   holder (snd (acquire now tok' k' ttl s)) k = Some (tok, till)"
  by (cases "k' = k") (simp_all add: acquire_held acquire_other)

lemma ops_keep:
  "\<forall>x \<in> set xs. harmless k tok till x \<Longrightarrow> holder s k = Some (tok, till) \<Longrightarrow>
   holder (lk_ops acquire release xs s) k = Some (tok, till)"
proof (induction xs arbitrary: s)
  case (Cons x xs)
  then show ?case
    by (cases x) (auto simp: harmless_def release_holder intro!: Cons.IH acquire_keeps)
qed simp

text \<open>Until the holder's time is up nobody else gets the lock, whatever other clients try.\<close>

lemma exclusive:
  assumes "fst (acquire t0 tok k ttl s) = Some tok" "\<forall>x \<in> set xs. harmless k tok (t0 + ttl) x"
    and "now < t0 + ttl"
  shows "fst (acquire now tok' k ttl' (lk_ops acquire release xs (snd (acquire t0 tok k ttl s)))) = None"
proof -
  have "\<forall>tk till. holder s k = Some (tk, till) \<longrightarrow> till \<le> t0"
    using acquire_held assms(1) by (metis fst_conv linorder_not_less option.distinct(1))
  then have "holder (snd (acquire t0 tok k ttl s)) k = Some (tok, t0 + ttl)"
    by (simp add: acquire_free)
  with assms show ?thesis
    using acquire_held ops_keep by (metis fst_conv)
qed

text \<open>A crashed holder blocks nobody for longer than its time to live.\<close>

lemma expires:
  "holder s k = Some (tok, till) \<Longrightarrow> till \<le> now \<Longrightarrow> fst (acquire now tok' k ttl s) = Some tok'"
  by (simp add: acquire_free)

end

definition lk_holder :: "memory_lock \<Rightarrow> string \<Rightarrow> (string \<times> int) option" where
  "lk_holder held k = map_option (\<lambda>h. (hd_token h, hd_expiresAt h)) (jm_get held k)"

interpretation mlk: ttl_mutex lk_holder lk_acquire lk_release
  by unfold_locales (auto simp: lk_holder_def lk_acquire_def lk_release_def split: option.splits)

text \<open>
  (C7) Mutual exclusion of \<^verbatim>\<open>MemoryLock\<close>: once a client has acquired a key, every further \<^verbatim>\<open>acquire\<close> of
  that key before its time to live is up answers \<^verbatim>\<open>null\<close>, after any sequence of acquisitions and
  releases by clients that do not present the holder's token (a release with another token, or of
  another key, frees nothing).
\<close>

theorem lk_mutual_exclusion:
  assumes "fst (lk_acquire t0 tok k ttl s) = Some tok"
    and "\<forall>x \<in> set xs. (case x of Acquire now _ k' _ \<Rightarrow> k' = k \<longrightarrow> now < t0 + ttl
                       | Release k' tok' \<Rightarrow> k' = k \<longrightarrow> tok' \<noteq> tok)"
    and "now < t0 + ttl"
  shows "fst (lk_acquire now tok' k ttl' (lk_ops lk_acquire lk_release xs (snd (lk_acquire t0 tok k ttl s)))) = None"
  using assms by (intro mlk.exclusive) (simp_all add: mlk.harmless_def)

theorem lk_mutual_exclusion_witness:
  "fst (lk_acquire 40 ''c'' ''room'' 50 (lk_ops lk_acquire lk_release
      [Acquire 10 ''b'' ''room'' 50, Release ''room'' ''b'', Release ''other'' ''a'']
      (snd (lk_acquire 0 ''a'' ''room'' 50 [])))) = None"
  by (rule lk_mutual_exclusion) (simp_all add: lk_acquire_def)

text \<open>
  Recovery: the holder's own release, or the passing of its time to live, frees the key for the
  next client, and releasing twice or with a stale token after another client took over changes
  nothing.
\<close>

lemma lk_release_and_expiry:
  assumes "lk_holder s k = Some (tok, till)"
  shows "fst (lk_acquire now tok' k ttl (lk_release k tok s)) = Some tok' \<and>
    (till \<le> now \<longrightarrow> fst (lk_acquire now tok' k ttl s) = Some tok') \<and>
    (till \<le> now \<longrightarrow> tok' \<noteq> tok \<longrightarrow>
       lk_holder (lk_release k tok (snd (lk_acquire now tok' k ttl s))) k = Some (tok', now + ttl))"
  using assms mlk.expires [OF assms] mlk.acquire_free [of s k now tok' ttl]
    mlk.acquire_free [of "lk_release k tok s" k now tok' ttl]
  by (auto simp: mlk.release_holder)

end
