(* ===== verification/Clock.thy ===== *)
theory Clock
  imports Prelude "HOL-Library.Multiset_Order"
begin

text \<open>
  \<^verbatim>\<open>packages/core/src/Clock.ts\<close> (the manual clock) and \<^verbatim>\<open>packages/core/src/IdGenerator.ts\<close>
  (sequential ids). What a callback does to the clock (schedule, cancel, advance) is a parameter
  \<open>body\<close>, which also says whether it threw; the loop of \<^verbatim>\<open>advance\<close> may run forever, so it is a
  \<open>partial_function (option)\<close>.
\<close>

record 'f scheduled_task =
  tk_id :: nat
  tk_fireAt :: int
  tk_fn :: 'f

record 'f manual_clock =
  mc_now :: int
  mc_nextId :: nat
  mc_tasks :: "'f scheduled_task list"

definition mc_new :: "int \<Rightarrow> 'f manual_clock" where
  "mc_new startMs = \<lparr>mc_now = startMs, mc_nextId = 1, mc_tasks = []\<rparr>"

definition mc_setTimeout :: "'f \<Rightarrow> int \<Rightarrow> 'f manual_clock \<Rightarrow> nat \<times> 'f manual_clock" where
  "mc_setTimeout fn ms c =
     (let i = mc_nextId c
      in (i, c\<lparr>mc_nextId := mc_nextId c + 1,
               mc_tasks := mc_tasks c @ [\<lparr>tk_id = i, tk_fireAt = mc_now c + max 0 ms, tk_fn = fn\<rparr>]\<rparr>))"

definition mc_clearTimeout :: "nat \<Rightarrow> 'f manual_clock \<Rightarrow> 'f manual_clock" where
  "mc_clearTimeout h c = c\<lparr>mc_tasks := filter (\<lambda>t. tk_id t \<noteq> h) (mc_tasks c)\<rparr>"

text \<open>\<^verbatim>\<open>Array.prototype.sort\<close> is stable, as \<^const>\<open>sort_key\<close> is.\<close>

definition mc_due :: "int \<Rightarrow> 'f scheduled_task list \<Rightarrow> 'f scheduled_task list" where
  "mc_due target ts = sort_key tk_fireAt (filter (\<lambda>t. tk_fireAt t \<le> target) ts)"

text \<open>Taking the next task out and moving the clock to its due time.\<close>

definition mc_take :: "'f scheduled_task \<Rightarrow> 'f manual_clock \<Rightarrow> 'f manual_clock" where
  "mc_take next c = c\<lparr>mc_tasks := filter (\<lambda>t. tk_id t \<noteq> tk_id next) (mc_tasks c), mc_now := tk_fireAt next\<rparr>"

text \<open>The loop: the tasks fired, the clock, and whether a callback's exception left the loop.\<close>

partial_function (option) mc_loop ::
  "('f \<Rightarrow> 'f manual_clock \<Rightarrow> 'f manual_clock \<times> bool) \<Rightarrow> int \<Rightarrow> 'f manual_clock
     \<Rightarrow> ('f scheduled_task list \<times> 'f manual_clock \<times> bool) option" where
  "mc_loop body target c =
     (case mc_due target (mc_tasks c) of
        [] \<Rightarrow> Some ([], c, False)
      | next # rest \<Rightarrow>
          (if snd (body (tk_fn next) (mc_take next c))
           then Some ([next], fst (body (tk_fn next) (mc_take next c)), True)
           else Option.bind (mc_loop body target (fst (body (tk_fn next) (mc_take next c))))
                  (\<lambda>(fired, r). Some (next # fired, r))))"

definition mc_advance ::
  "('f \<Rightarrow> 'f manual_clock \<Rightarrow> 'f manual_clock \<times> bool) \<Rightarrow> int \<Rightarrow> 'f manual_clock
     \<Rightarrow> ('f scheduled_task list \<times> 'f manual_clock \<times> bool) option" where
  "mc_advance body ms c =
     Option.bind (mc_loop body (mc_now c + ms) c)
       (\<lambda>(fired, c', threw). Some (fired, if threw then c' else c'\<lparr>mc_now := mc_now c + ms\<rparr>, threw))"

text \<open>\<^verbatim>\<open>SequentialId\<close>.\<close>

record sequential_id =
  si_n :: nat
  si_prefix :: string

definition si_new :: "string option \<Rightarrow> sequential_id" where
  "si_new p = \<lparr>si_n = 0, si_prefix = (case p of None \<Rightarrow> ''id-'' | Some x \<Rightarrow> x)\<rparr>"

definition si_next :: "sequential_id \<Rightarrow> string \<times> sequential_id" where
  "si_next g = (let n = si_n g + 1 in (si_prefix g @ js_nat_str n, g\<lparr>si_n := n\<rparr>))"

fun si_take :: "nat \<Rightarrow> sequential_id \<Rightarrow> string list" where
  "si_take 0 g = []"
| "si_take (Suc k) g = fst (si_next g) # si_take k (snd (si_next g))"

section \<open>Handles\<close>

definition mc_wf :: "'f manual_clock \<Rightarrow> bool" where
  "mc_wf c \<longleftrightarrow> distinct (map tk_id (mc_tasks c)) \<and> (\<forall>t \<in> set (mc_tasks c). tk_id t < mc_nextId c)"

lemma mc_wf_new: "mc_wf (mc_new t)"
  by (simp add: mc_wf_def mc_new_def)

lemma mc_wf_setTimeout: "mc_wf c \<Longrightarrow> mc_wf (snd (mc_setTimeout fn ms c))"
  by (auto simp: mc_wf_def mc_setTimeout_def Let_def)

lemma mc_wf_clearTimeout: "mc_wf c \<Longrightarrow> mc_wf (mc_clearTimeout h c)"
  by (auto simp: mc_wf_def mc_clearTimeout_def distinct_map_filter)

lemma mc_wf_take: "mc_wf c \<Longrightarrow> mc_wf (mc_take t c)"
  by (auto simp: mc_wf_def mc_take_def distinct_map_filter)

section \<open>What advance fires\<close>

lemma mc_due_Cons:
  assumes "mc_due target ts = t # rest"
  shows "t \<in> set ts" "tk_fireAt t \<le> target" "\<forall>u \<in> set ts. tk_fireAt t \<le> tk_fireAt u"
proof -
  have m: "set (t # rest) = {u \<in> set ts. tk_fireAt u \<le> target}"
    by (simp only: assms [symmetric] mc_due_def set_sort set_filter)
  then show "t \<in> set ts" "tk_fireAt t \<le> target" by auto
  have "sorted (map tk_fireAt (t # rest))"
    by (simp only: assms [symmetric] mc_due_def sorted_sort_key)
  then have "\<forall>u \<in> set (t # rest). tk_fireAt t \<le> tk_fireAt u" by simp
  then show "\<forall>u \<in> set ts. tk_fireAt t \<le> tk_fireAt u"
    using \<open>tk_fireAt t \<le> target\<close> unfolding m by fastforce
qed

lemma mc_due_Nil: "mc_due target ts = [] \<longleftrightarrow> (\<forall>t \<in> set ts. target < tk_fireAt t)"
proof -
  have "set (mc_due target ts) = {t \<in> set ts. tk_fireAt t \<le> target}" by (simp add: mc_due_def)
  then show ?thesis by (metis (no_types, lifting) Collect_empty_eq linorder_not_less set_empty)
qed

text \<open>
  A callback is \<^emph>\<open>forward\<close> when it returns normally, leaves the time alone and every task it adds is
  due strictly later than the moment it runs; it may cancel any task and add any number.
\<close>

definition mc_forward :: "('f \<Rightarrow> 'f manual_clock \<Rightarrow> 'f manual_clock \<times> bool) \<Rightarrow> bool" where
  "mc_forward body \<longleftrightarrow>
     (\<forall>f c. \<not> snd (body f c) \<and> mc_now (fst (body f c)) = mc_now c \<and>
        (\<forall>t \<in># mset (mc_tasks (fst (body f c))) - mset (mc_tasks c). mc_now c < tk_fireAt t))"

text \<open>The time left, over the tasks that are due: it decreases in the multiset order.\<close>

definition mc_pending :: "int \<Rightarrow> 'f scheduled_task list \<Rightarrow> nat multiset" where
  "mc_pending target ts =
     image_mset (\<lambda>t. nat (target - tk_fireAt t)) (filter_mset (\<lambda>t. tk_fireAt t \<le> target) (mset ts))"

lemma multiset_replace_less:
  fixes x :: "'a :: linorder"
  assumes "add_mset x A \<subseteq># N" "\<forall>k \<in># B. k < x"
  shows "A + B < N"
proof -
  obtain C where N: "N = A + add_mset x C"
    using assms(1) by (auto simp: mset_subset_eq_exists_conv)
  have "B < add_mset x C"
    unfolding less_multiset\<^sub>D\<^sub>M using assms(2)
    by (intro exI [of _ "add_mset x C"] exI [of _ B]) auto
  then show ?thesis by (simp add: N)
qed

lemma mc_pending_decreases:
  assumes "t \<in> set ts" "tk_fireAt t \<le> target"
    and "\<forall>u \<in># mset ts' - mset (filter (\<lambda>u. tk_id u \<noteq> tk_id t) ts). tk_fireAt t < tk_fireAt u"
  shows "mc_pending target ts' < mc_pending target ts"
proof -
  let ?P = "\<lambda>t. tk_fireAt t \<le> target" and ?w = "\<lambda>t. nat (target - tk_fireAt t)"
  let ?K = "mset (filter (\<lambda>u. tk_id u \<noteq> tk_id t) ts)"
  let ?A = "mset ts' \<inter># ?K" and ?B = "mset ts' - ?K"
  have parts: "mset ts' = ?A + ?B"
    by (auto simp: multiset_eq_iff min_def)
  have split: "mc_pending target ts' = image_mset ?w (filter_mset ?P ?A) + image_mset ?w (filter_mset ?P ?B)"
    unfolding mc_pending_def by (subst parts) (simp only: filter_union_mset image_mset_union)
  obtain xs ys where ts: "ts = xs @ t # ys" using assms(1) by (meson split_list)
  have "?K \<subseteq># mset xs + mset ys"
    by (simp add: ts mset_filter subset_mset.add_mono multiset_filter_subset)
  then have "add_mset t ?A \<subseteq># mset ts"
    by (simp add: ts) (meson subset_mset.inf.coboundedI2)
  then have "image_mset ?w (filter_mset ?P (add_mset t ?A)) \<subseteq># mc_pending target ts"
    unfolding mc_pending_def by (intro image_mset_subseteq_mono multiset_filter_mono)
  then have "add_mset (?w t) (image_mset ?w (filter_mset ?P ?A)) \<subseteq># mc_pending target ts"
    using assms(2) by simp
  moreover have "\<forall>k \<in># image_mset ?w (filter_mset ?P ?B). k < ?w t"
    using assms(3) by (fastforce simp del: filter_diff_mset)
  ultimately show ?thesis unfolding split by (rule multiset_replace_less)
qed

text \<open>What a completed run of the loop looks like.\<close>

definition mc_settled :: "int \<Rightarrow> 'f manual_clock \<Rightarrow> 'f scheduled_task list \<Rightarrow> 'f manual_clock \<Rightarrow> bool" where
  "mc_settled target c fired c' \<longleftrightarrow>
     (\<forall>t \<in> set (mc_tasks c'). target < tk_fireAt t) \<and> (\<forall>t \<in> set fired. tk_fireAt t \<le> target) \<and>
     sorted (map tk_fireAt fired) \<and> (\<forall>m. (\<forall>t \<in> set (mc_tasks c). m \<le> tk_fireAt t) \<longrightarrow> (\<forall>t \<in> set fired. m \<le> tk_fireAt t))"

lemma mc_loop_total:
  assumes "mc_forward body"
  shows "\<exists>fired c'. mc_loop body target c = Some (fired, c', False) \<and> mc_settled target c fired c'"
proof (induction "mc_pending target (mc_tasks c)" arbitrary: c rule: less_induct)
  case less
  show ?case
  proof (cases "mc_due target (mc_tasks c)")
    case Nil
    moreover from Nil have "\<forall>t \<in> set (mc_tasks c). target < tk_fireAt t" by (simp only: mc_due_Nil)
    ultimately show ?thesis by (subst mc_loop.simps) (simp add: mc_settled_def)
  next
    case (Cons t rest)
    note due = mc_due_Cons [OF Cons]
    let ?c1 = "fst (body (tk_fn t) (mc_take t c))"
    have b: "\<not> snd (body (tk_fn t) (mc_take t c))"
      and new: "\<forall>u \<in># mset (mc_tasks ?c1) - mset (filter (\<lambda>u. tk_id u \<noteq> tk_id t) (mc_tasks c)). tk_fireAt t < tk_fireAt u"
      using assms [unfolded mc_forward_def, rule_format, of "tk_fn t" "mc_take t c"]
      by (auto simp: mc_take_def)
    have late: "tk_fireAt t \<le> tk_fireAt u" if "u \<in> set (mc_tasks ?c1)" for u
    proof (cases "u \<in> set (mc_tasks c)")
      case False
      then have "u \<notin># mset (filter (\<lambda>u. tk_id u \<noteq> tk_id t) (mc_tasks c))" by simp
      with that have "u \<in># mset (mc_tasks ?c1) - mset (filter (\<lambda>u. tk_id u \<noteq> tk_id t) (mc_tasks c))"
        by (metis in_diff_count in_multiset_in_set count_greater_zero_iff not_in_iff)
      then show ?thesis using new by fastforce
    qed (simp add: due(3))
    obtain fired c' where r: "mc_loop body target ?c1 = Some (fired, c', False)" "mc_settled target ?c1 fired c'"
      using less [OF mc_pending_decreases [OF due(1,2) new]] by blast
    have "mc_settled target c (t # fired) c'"
      using r(2) late due by (fastforce simp: mc_settled_def)
    then show ?thesis
      using r(1) b Cons by (subst mc_loop.simps) simp
  qed
qed

text \<open>
  (C27) \<^verbatim>\<open>advance\<close> terminates and honours every deadline: if each callback only adds tasks that are due
  strictly after the moment it runs, then \<^verbatim>\<open>advance(ms)\<close> returns, the clock then reads \<open>now + ms\<close>, no
  task due by then is left, and the callbacks ran in non-decreasing order of due time, tasks
  scheduled by other callbacks during the call included.
\<close>

theorem mc_advance_terminates:
  assumes "mc_forward body"
  shows "\<exists>fired c'. mc_advance body ms c = Some (fired, c', False) \<and> mc_now c' = mc_now c + ms \<and>
    (\<forall>t \<in> set (mc_tasks c'). mc_now c' < tk_fireAt t) \<and> sorted (map tk_fireAt fired) \<and>
    (\<forall>t \<in> set fired. tk_fireAt t \<le> mc_now c + ms)"
  using mc_loop_total [OF assms, of "mc_now c + ms" c] by (auto simp: mc_advance_def mc_settled_def)

text \<open>A callback that reschedules itself every ten milliseconds.\<close>

definition mc_interval :: "unit \<Rightarrow> unit manual_clock \<Rightarrow> unit manual_clock \<times> bool" where
  "mc_interval f c = (snd (mc_setTimeout f 10 c), False)"

theorem mc_advance_terminates_witness:
  "\<exists>fired c'. mc_advance mc_interval 25 (snd (mc_setTimeout () 10 (mc_new 0))) = Some (fired, c', False) \<and>
     mc_now c' = mc_now (snd (mc_setTimeout () 10 (mc_new 0))) + 25"
proof -
  have "mc_forward mc_interval"
    by (auto simp: mc_forward_def mc_interval_def mc_setTimeout_def Let_def)
  from mc_advance_terminates [OF this] show ?thesis by blast
qed

text \<open>Callbacks that leave the clock alone: the tasks fired are the due ones, stably sorted.\<close>

lemma mc_loop_quiet:
  "mc_wf c \<Longrightarrow> \<exists>c'. mc_loop (\<lambda>f c. (c, False)) target c = Some (mc_due target (mc_tasks c), c', False) \<and>
     mc_tasks c' = filter (\<lambda>t. target < tk_fireAt t) (mc_tasks c)"
proof (induction "length (mc_due target (mc_tasks c))" arbitrary: c)
  case 0
  then have e: "mc_due target (mc_tasks c) = []" by simp
  then have "\<forall>t \<in> set (mc_tasks c). target < tk_fireAt t" by (simp only: mc_due_Nil)
  with e show ?case by (subst mc_loop.simps) simp
next
  case (Suc n)
  then obtain t rest where due: "mc_due target (mc_tasks c) = t # rest"
    by (metis length_Suc_conv)
  have "distinct (map tk_id (mc_due target (mc_tasks c)))"
    using Suc.prems by (auto simp: mc_due_def mc_wf_def distinct_map inj_on_def)
  moreover have "mc_due target (mc_tasks (mc_take t c)) = filter (\<lambda>u. tk_id u \<noteq> tk_id t) (mc_due target (mc_tasks c))"
    by (simp add: mc_due_def mc_take_def filter_sort conj_commute)
  ultimately have rest: "mc_due target (mc_tasks (mc_take t c)) = rest"
    by (auto simp: due filter_id_conv image_iff)
  have "filter (\<lambda>u. target < tk_fireAt u) (mc_tasks (mc_take t c)) =
    filter (\<lambda>u. target < tk_fireAt u) (mc_tasks c)"
    using mc_due_Cons(1,2) [OF due] Suc.prems
    by (auto simp: mc_take_def mc_wf_def distinct_map intro!: filter_cong dest: inj_onD)
  then show ?case
    using Suc.hyps(1) [of "mc_take t c"] Suc.hyps(2) Suc.prems due rest
    by (subst mc_loop.simps) (auto simp: mc_wf_take)
qed

text \<open>
  Order and exactness: with callbacks that leave the clock alone, \<^verbatim>\<open>advance\<close> fires exactly the
  tasks due by the target, each once, by due time and in scheduling order among equal due times, and
  keeps exactly the others.
\<close>

lemma mc_advance_fires_due:
  assumes "mc_wf c"
  shows "\<exists>c'. mc_advance (\<lambda>f c. (c, False)) ms c =
      Some (sort_key tk_fireAt (filter (\<lambda>t. tk_fireAt t \<le> mc_now c + ms) (mc_tasks c)), c', False) \<and>
    mc_tasks c' = filter (\<lambda>t. mc_now c + ms < tk_fireAt t) (mc_tasks c) \<and> mc_now c' = mc_now c + ms"
  using mc_loop_quiet [OF assms, of "mc_now c + ms"] by (auto simp: mc_advance_def mc_due_def)

section \<open>Sequential ids\<close>

lemma si_take_shape: "si_take k g = map (\<lambda>i. si_prefix g @ js_nat_str (si_n g + 1 + i)) [0..<k]"
proof (induction k arbitrary: g)
  case (Suc k)
  have "[0..<Suc k] = 0 # map Suc [0..<k]" by (simp add: map_Suc_upt upt_conv_Cons del: upt_Suc)
  then show ?case by (simp add: Suc si_next_def Let_def del: upt_Suc)
qed simp

lemma si_take_distinct: "distinct (si_take k g)"
  by (simp add: si_take_shape distinct_map inj_on_def)

end
