(* ===== verification/Membership.thy ===== *)
theory Membership
  imports Prelude
begin

text \<open>
  \<^verbatim>\<open>packages/core/src/Membership.ts\<close>: node descriptors, the interface every membership provider
  shares, and the in-memory registry with expiry. Regions, addresses and metadata travel unvalidated
  between nodes, so they are \<open>json\<close> values (\<open>None\<close> is \<^verbatim>\<open>undefined\<close>). Watchers are known by
  reference; an operation returns the calls \<open>(watcher, snapshot)\<close> it makes.
\<close>

record node_info =
  ni_id :: string
  ni_region :: "json option"
  ni_address :: "json option"
  ni_metadata :: "json option"

type_synonym watcher = nat
type_synonym notification = "watcher \<times> node_info list"

record mm_entry =
  me_node :: node_info
  me_expiresAt :: int

record memory_membership =
  mm_nodes :: "(string, mm_entry) jsmap"
  mm_watchers :: "watcher list"
  mm_sweepTimer :: "int option"

definition mm_new :: "int option \<Rightarrow> memory_membership" where
  "mm_new sweepIntervalMs =
     \<lparr>mm_nodes = [], mm_watchers = [],
      mm_sweepTimer = (case sweepIntervalMs of Some ms \<Rightarrow> if ms > 0 then Some ms else None | None \<Rightarrow> None)\<rparr>"

definition mm_stop :: "memory_membership \<Rightarrow> memory_membership" where
  "mm_stop s = (if mm_sweepTimer s \<noteq> None then s\<lparr>mm_sweepTimer := None\<rparr> else s)"

text \<open>\<^verbatim>\<open>_prune\<close>: the entries are visited in order; a deleted entry was reached already.\<close>

fun mm_prune_loop :: "int \<Rightarrow> (string \<times> mm_entry) list \<Rightarrow> (string, mm_entry) jsmap \<Rightarrow> bool \<Rightarrow> (string, mm_entry) jsmap \<times> bool" where
  "mm_prune_loop now [] m changed = (m, changed)"
| "mm_prune_loop now ((i, e) # es) m changed =
     (if me_expiresAt e \<le> now then mm_prune_loop now es (jm_delete i m) True
      else mm_prune_loop now es m changed)"

definition mm_prune :: "int \<Rightarrow> memory_membership \<Rightarrow> bool \<times> memory_membership" where
  "mm_prune now s =
     (let (m, changed) = mm_prune_loop now (mm_nodes s) (mm_nodes s) False
      in (changed, s\<lparr>mm_nodes := m\<rparr>))"

definition mm_snapshot :: "memory_membership \<Rightarrow> node_info list" where
  "mm_snapshot s = map me_node (jm_values (mm_nodes s))"

definition mm_notify :: "memory_membership \<Rightarrow> notification list" where
  "mm_notify s = (let snapshot = mm_snapshot s in map (\<lambda>w. (w, snapshot)) (mm_watchers s))"

definition mm_register :: "int \<Rightarrow> node_info \<Rightarrow> int \<Rightarrow> memory_membership \<Rightarrow> memory_membership \<times> notification list" where
  "mm_register now node ttlMs s =
     (let s' = s\<lparr>mm_nodes := jm_set (ni_id node) \<lparr>me_node = node, me_expiresAt = now + ttlMs\<rparr> (mm_nodes s)\<rparr>
      in (s', mm_notify s'))"

definition mm_deregister :: "string \<Rightarrow> memory_membership \<Rightarrow> memory_membership \<times> notification list" where
  "mm_deregister nodeId s =
     (let s' = s\<lparr>mm_nodes := jm_delete nodeId (mm_nodes s)\<rparr>
      in (s', if jm_has (mm_nodes s) nodeId then mm_notify s' else []))"

definition mm_list :: "int \<Rightarrow> memory_membership \<Rightarrow> node_info list \<times> memory_membership \<times> notification list" where
  "mm_list now s =
     (let (changed, s') = mm_prune now s
      in (mm_snapshot s', s', if changed then mm_notify s' else []))"

text \<open>The background sweep of the constructor's interval timer.\<close>

definition mm_sweep :: "int \<Rightarrow> memory_membership \<Rightarrow> memory_membership \<times> notification list" where
  "mm_sweep now s = (let (changed, s') = mm_prune now s in (s', if changed then mm_notify s' else []))"

definition mm_watch :: "watcher \<Rightarrow> memory_membership \<Rightarrow> memory_membership" where
  "mm_watch w s = s\<lparr>mm_watchers := js_add w (mm_watchers s)\<rparr>"

definition mm_unwatch :: "watcher \<Rightarrow> memory_membership \<Rightarrow> memory_membership" where
  "mm_unwatch w s = s\<lparr>mm_watchers := js_del w (mm_watchers s)\<rparr>"

section \<open>The interface\<close>

abbreviation node_ids :: "node_info list \<Rightarrow> string set" where
  "node_ids ns \<equiv> ni_id ` set ns"

text \<open>
  What a watcher of a \<^verbatim>\<open>Membership\<close> may rely on: an operation that changes the set of live ids
  (outside \<open>quiet\<close>, the ids a provider does not report on) notifies every watcher, and what it
  delivers last is the full live set after the operation. \<open>ok\<close> is the provider's invariant.
\<close>

locale membership_feed =
  fixes ok :: "'s \<Rightarrow> bool"
    and live :: "'s \<Rightarrow> node_info list"
    and watching :: "'s \<Rightarrow> watcher \<Rightarrow> bool"
    and quiet :: "'s \<Rightarrow> string set"
    and step :: "'x \<Rightarrow> 's \<Rightarrow> 's \<times> notification list"
  assumes step_ok: "ok s \<Longrightarrow> ok (fst (step x s))"
    and step_watching: "ok s \<Longrightarrow> watching (fst (step x s)) w = watching s w"
    and step_quiet: "ok s \<Longrightarrow> quiet (fst (step x s)) = quiet s"
    and delivers_live: "ok s \<Longrightarrow> (w, ns) \<in> set (snd (step x s)) \<Longrightarrow> ns = live (fst (step x s))"
    and change_notifies:
      "ok s \<Longrightarrow> watching s w \<Longrightarrow> node_ids (live (fst (step x s))) - quiet s \<noteq> node_ids (live s) - quiet s \<Longrightarrow>
       \<exists>ns. (w, ns) \<in> set (snd (step x s))"
begin

text \<open>The last snapshot a watcher saw, after an operation.\<close>

definition seen_after :: "watcher \<Rightarrow> node_info list \<Rightarrow> notification list \<Rightarrow> node_info list" where
  "seen_after w prev calls = fold (\<lambda>(w', ns) l. if w' = w then ns else l) calls prev"

lemma seen_after_cases:
  "seen_after w prev calls = prev \<and> (\<forall>ns. (w, ns) \<notin> set calls) \<or> (w, seen_after w prev calls) \<in> set calls"
proof (induction calls arbitrary: prev)
  case (Cons c calls)
  show ?case
    using Cons.IH [of "if fst c = w then snd c else prev"]
    by (cases c) (auto simp: seen_after_def split: if_splits)
qed (simp add: seen_after_def)

fun run_feed :: "watcher \<Rightarrow> 'x list \<Rightarrow> 's \<Rightarrow> node_info list \<Rightarrow> 's \<times> node_info list" where
  "run_feed w [] s prev = (s, prev)"
| "run_feed w (x # xs) s prev =
     (let (s', calls) = step x s in run_feed w xs s' (seen_after w prev calls))"

text \<open>A watcher that starts with the live ids stays in step with them.\<close>

lemma feed_tracks_live:
  "ok s \<Longrightarrow> watching s w \<Longrightarrow> node_ids prev - quiet s = node_ids (live s) - quiet s \<Longrightarrow>
   node_ids (snd (run_feed w xs s prev)) - quiet s = node_ids (live (fst (run_feed w xs s prev))) - quiet s"
proof (induction xs arbitrary: s prev)
  case (Cons x xs)
  let ?s = "fst (step x s)" and ?l = "seen_after w prev (snd (step x s))"
  have "node_ids ?l - quiet s = node_ids (live ?s) - quiet s"
    using seen_after_cases [of w prev "snd (step x s)"] Cons.prems
      delivers_live [of s w ?l x] change_notifies [of s w x] by metis
  then show ?case
    using Cons.IH [of ?s ?l] Cons.prems by (simp add: split_def Let_def step_ok step_watching step_quiet)
qed simp

end

section \<open>The in-memory registry\<close>

definition mm_wf :: "memory_membership \<Rightarrow> bool" where
  "mm_wf s \<longleftrightarrow> jm_wf (mm_nodes s) \<and> (\<forall>(i, e) \<in> set (mm_nodes s). ni_id (me_node e) = i)"

lemma mm_prune_loop_changed: "changed \<Longrightarrow> snd (mm_prune_loop now es m changed)"
  by (induction now es m changed rule: mm_prune_loop.induct) auto

lemma mm_prune_loop_same: "\<not> snd (mm_prune_loop now es m changed) \<Longrightarrow> fst (mm_prune_loop now es m changed) = m"
  by (induction now es m changed rule: mm_prune_loop.induct) (auto simp: mm_prune_loop_changed)

lemma mm_prune_loop_filter:
  "fst (mm_prune_loop now es m changed) = filter (\<lambda>p. fst p \<notin> {i. \<exists>e. (i, e) \<in> set es \<and> me_expiresAt e \<le> now}) m"
  by (induction now es m changed rule: mm_prune_loop.induct)
    (auto simp: AList.delete_eq split_def intro!: filter_cong)

lemma mm_prune_exact:
  assumes "mm_wf s"
  shows "mm_nodes (snd (mm_prune now s)) = filter (\<lambda>(i, e). now < me_expiresAt e) (mm_nodes s)"
proof -
  have uniq: "e' = e" if "(i, e) \<in> set (mm_nodes s)" "(i, e') \<in> set (mm_nodes s)" for i e e'
    using that assms jm_mem_iff [of "mm_nodes s" i] by (simp add: mm_wf_def)
  have "fst p \<notin> {i. \<exists>e. (i, e) \<in> set (mm_nodes s) \<and> me_expiresAt e \<le> now} \<longleftrightarrow>
      (case p of (i, e) \<Rightarrow> now < me_expiresAt e)" if "p \<in> set (mm_nodes s)" for p
  proof -
    obtain i e where p: "p = (i, e)" by fastforce
    have "(\<exists>e'. (i, e') \<in> set (mm_nodes s) \<and> me_expiresAt e' \<le> now) \<longleftrightarrow> me_expiresAt e \<le> now"
      using that uniq p by blast
    then show ?thesis by (simp add: p not_le)
  qed
  then have "filter (\<lambda>p. fst p \<notin> {i. \<exists>e. (i, e) \<in> set (mm_nodes s) \<and> me_expiresAt e \<le> now}) (mm_nodes s) =
      filter (\<lambda>(i, e). now < me_expiresAt e) (mm_nodes s)"
    by (rule filter_cong [OF refl])
  then show ?thesis
    by (simp add: mm_prune_def split_def Let_def mm_prune_loop_filter)
qed

lemma mm_prune_wf: "mm_wf s \<Longrightarrow> mm_wf (snd (mm_prune now s))"
  by (frule mm_prune_exact [of _ now]) (auto simp: mm_wf_def)

lemma mm_register_wf: "mm_wf s \<Longrightarrow> mm_wf (fst (mm_register now n ttl s))"
  using set_jm_set_subset [of "ni_id n" "\<lparr>me_node = n, me_expiresAt = now + ttl\<rparr>" "mm_nodes s"]
  by (auto simp: mm_wf_def mm_register_def Let_def)

lemma mm_deregister_wf: "mm_wf s \<Longrightarrow> mm_wf (fst (mm_deregister i s))"
  by (auto simp: mm_wf_def mm_deregister_def Let_def set_jm_delete)

datatype mm_op = MRegister int node_info int | MDeregister string | MList int | MSweep int

definition mm_step :: "mm_op \<Rightarrow> memory_membership \<Rightarrow> memory_membership \<times> notification list" where
  "mm_step x s =
     (case x of
        MRegister now n ttl \<Rightarrow> mm_register now n ttl s
      | MDeregister i \<Rightarrow> mm_deregister i s
      | MList now \<Rightarrow> snd (mm_list now s)
      | MSweep now \<Rightarrow> mm_sweep now s)"

lemmas mm_op_defs = mm_step_def mm_register_def mm_deregister_def mm_list_def mm_sweep_def Let_def split_def

lemma mm_prune_frame: "mm_watchers (snd (mm_prune now s)) = mm_watchers s"
  by (simp add: mm_prune_def split_def Let_def)

lemma mm_prune_unchanged: "\<not> fst (mm_prune now s) \<Longrightarrow> mm_snapshot (snd (mm_prune now s)) = mm_snapshot s"
  by (simp add: mm_prune_def split_def Let_def mm_snapshot_def mm_prune_loop_same)

interpretation mmf: membership_feed mm_wf mm_snapshot "\<lambda>s w. w \<in> set (mm_watchers s)" "\<lambda>s. {}" mm_step
proof unfold_locales
  fix s :: memory_membership and x w ns
  show "mm_wf (fst (mm_step x s))" if "mm_wf s"
    using that by (cases x) (simp_all add: mm_step_def mm_list_def mm_sweep_def split_def Let_def
        mm_prune_wf mm_register_wf mm_deregister_wf)
  show "(w \<in> set (mm_watchers (fst (mm_step x s)))) = (w \<in> set (mm_watchers s))"
    by (cases x) (simp_all add: mm_op_defs mm_prune_frame)
  show "ns = mm_snapshot (fst (mm_step x s))" if "(w, ns) \<in> set (snd (mm_step x s))"
    using that by (cases x) (auto simp: mm_op_defs mm_notify_def split: if_splits)
  show "\<exists>ns. (w, ns) \<in> set (snd (mm_step x s))" if "w \<in> set (mm_watchers s)"
    "node_ids (mm_snapshot (fst (mm_step x s))) - {} \<noteq> node_ids (mm_snapshot s) - {}"
  proof (cases x)
    case (MDeregister i)
    have "mm_nodes (fst (mm_step x s)) = mm_nodes s" if "\<not> jm_has (mm_nodes s) i"
      using that MDeregister by (simp add: mm_op_defs jm_has_iff delete_id)
    with that have "jm_has (mm_nodes s) i" unfolding mm_snapshot_def by metis
    with that MDeregister show ?thesis by (auto simp: mm_op_defs mm_notify_def)
  next
    case (MList now)
    with that show ?thesis
      using mm_prune_unchanged [of now s] by (auto simp: mm_op_defs mm_notify_def mm_prune_frame)
  next
    case (MSweep now)
    with that show ?thesis
      using mm_prune_unchanged [of now s] by (auto simp: mm_op_defs mm_notify_def mm_prune_frame)
  qed (use that in \<open>auto simp: mm_op_defs mm_notify_def\<close>)
qed simp

text \<open>
  The in-memory registry reports the live nodes: \<^verbatim>\<open>list()\<close> returns exactly the nodes whose lease
  has not run out, prunes the others, and notifies every watcher with that list exactly when it
  pruned something.
\<close>

lemma mm_list_exact:
  assumes "mm_wf s"
  shows "fst (mm_list now s) = map (me_node \<circ> snd) (filter (\<lambda>(i, e). now < me_expiresAt e) (mm_nodes s)) \<and>
    snd (snd (mm_list now s)) =
      (if \<exists>(i, e) \<in> set (mm_nodes s). me_expiresAt e \<le> now
       then map (\<lambda>w. (w, fst (mm_list now s))) (mm_watchers s) else [])"
proof -
  have "fst (mm_prune now s) \<longleftrightarrow> (\<exists>(i, e) \<in> set (mm_nodes s). me_expiresAt e \<le> now)"
  proof -
    have "snd (mm_prune_loop now es m c) \<longleftrightarrow> c \<or> (\<exists>(i, e) \<in> set es. me_expiresAt e \<le> now)" for es m c
      by (induction now es m c rule: mm_prune_loop.induct) auto
    then show ?thesis by (simp add: mm_prune_def split_def Let_def)
  qed
  then show ?thesis
    using mm_prune_exact [OF assms, of now]
    by (simp add: mm_list_def split_def Let_def mm_notify_def mm_snapshot_def mm_prune_frame)
qed

end
