(* ===== verification/Gossip.thy ===== *)
theory Gossip
  imports Membership "HOL-Library.Product_Lexorder" "HOL-Library.Option_ord"
begin

text \<open>
  \<^verbatim>\<open>packages/core/src/Gossip.ts\<close>: SWIM-style membership by anti-entropy gossip, and the in-memory
  network it is tested on. Messages arrive as untyped \<open>json\<close>; a valid entry is parsed into a
  \<open>gossip_entry\<close>. Incarnations are JavaScript numbers, so they grow by \<open>js_incr\<close>. The clock reading
  and the draws of \<^verbatim>\<open>Math.random\<close> are parameters of the operations; sends, watcher calls and timer
  operations are returned as outputs. Addresses are compared by value, as strings are.
\<close>

record gossip_entry =
  ge_id :: string
  ge_address :: "json option"
  ge_region :: "json option"
  ge_metadata :: "json option"
  ge_incarnation :: nat
  ge_alive :: bool

record gossip_message =
  gm_from :: string
  gm_members :: "gossip_entry list"

record gossip_options =
  go_seeds :: "json list option"
  go_gossipIntervalMs :: "int option"
  go_fanout :: "int option"
  go_deadTimeoutMs :: "int option"
  go_tombstoneMs :: "int option"

record member_record =
  mr_info :: node_info
  mr_address :: "json option"
  mr_incarnation :: nat
  mr_alive :: bool
  mr_lastSeen :: int

record gossip =
  gs_self :: node_info
  gs_addr :: json
  gs_intervalMs :: int
  gs_fanout :: int
  gs_deadMs :: int
  gs_tombstoneMs :: int
  gs_seeds :: "json list"
  gs_members :: "(string, member_record) jsmap"
  gs_watchers :: "watcher list"
  gs_timer :: bool
  gs_running :: bool

datatype gossip_out =
    GSend json gossip_message
  | GNotify watcher "node_info list"
  | GOnReceive
  | GSetTimer int
  | GClearTimer
  | GClose

text \<open>Truthiness of a value that may be \<^verbatim>\<open>undefined\<close>.\<close>

fun js_truthy :: "json option \<Rightarrow> bool" where
  "js_truthy None = False"
| "js_truthy (Some JNull) = False"
| "js_truthy (Some (JBool b)) = b"
| "js_truthy (Some (JNumber (JFin r))) = (r \<noteq> 0)"
| "js_truthy (Some (JNumber JNaN)) = False"
| "js_truthy (Some (JNumber _)) = True"
| "js_truthy (Some (JString s)) = (s \<noteq> '''')"
| "js_truthy (Some (JArray _)) = True"
| "js_truthy (Some (JObject _)) = True"

definition gs_new :: "int \<Rightarrow> node_info \<Rightarrow> json \<Rightarrow> gossip_options \<Rightarrow> gossip" where
  "gs_new now self addr opts =
     (let interval = (case go_gossipIntervalMs opts of Some x \<Rightarrow> x | None \<Rightarrow> 200);
          dead = (case go_deadTimeoutMs opts of Some x \<Rightarrow> x | None \<Rightarrow> interval * 5)
      in \<lparr>gs_self = self, gs_addr = addr, gs_intervalMs = interval,
          gs_fanout = (case go_fanout opts of Some x \<Rightarrow> x | None \<Rightarrow> 3),
          gs_deadMs = dead,
          gs_tombstoneMs = (case go_tombstoneMs opts of Some x \<Rightarrow> x | None \<Rightarrow> dead * 10),
          gs_seeds = fold js_add (case go_seeds opts of Some x \<Rightarrow> x | None \<Rightarrow> []) [],
          gs_members =
            [(ni_id self,
              \<lparr>mr_info = self, mr_address = Some addr, mr_incarnation = 0, mr_alive = True, mr_lastSeen = now\<rparr>)],
          gs_watchers = [], gs_timer = False, gs_running = False\<rparr>)"

definition gs_aliveInfos :: "gossip \<Rightarrow> node_info list" where
  "gs_aliveInfos s = map mr_info (filter mr_alive (jm_values (gs_members s)))"

definition gs_notify :: "gossip \<Rightarrow> gossip_out list" where
  "gs_notify s = (let snapshot = gs_aliveInfos s in map (\<lambda>w. GNotify w snapshot) (gs_watchers s))"

definition gs_self_rec :: "gossip \<Rightarrow> member_record option" where
  "gs_self_rec s = jm_get (gs_members s) (ni_id (gs_self s))"

definition gs_put :: "string \<Rightarrow> member_record \<Rightarrow> gossip \<Rightarrow> gossip" where
  "gs_put i r s = s\<lparr>gs_members := jm_set i r (gs_members s)\<rparr>"

text \<open>\<^verbatim>\<open>_gossip\<close>: the digest of every record and the random targets.\<close>

definition gs_entry :: "member_record \<Rightarrow> gossip_entry" where
  "gs_entry r =
     \<lparr>ge_id = ni_id (mr_info r), ge_address = mr_address r, ge_region = ni_region (mr_info r),
      ge_metadata = ni_metadata (mr_info r), ge_incarnation = mr_incarnation r, ge_alive = mr_alive r\<rparr>"

definition gs_message :: "gossip \<Rightarrow> gossip_message" where
  "gs_message s = \<lparr>gm_from = ni_id (gs_self s), gm_members = map gs_entry (jm_values (gs_members s))\<rparr>"

fun gs_pick :: "(nat \<Rightarrow> real) \<Rightarrow> nat \<Rightarrow> nat \<Rightarrow> json list \<Rightarrow> json list" where
  "gs_pick rnd i 0 pool = []"
| "gs_pick rnd i (Suc k) pool =
     (if pool = [] then []
      else (let idx = nat \<lfloor>rnd i * real (length pool)\<rfloor>
            in pool ! idx # gs_pick rnd (i + 1) k (take idx pool @ drop (idx + 1) pool)))"

definition gs_targets :: "gossip \<Rightarrow> json list" where
  "gs_targets s =
     fold (\<lambda>x addrs. if x \<noteq> gs_addr s then js_add x addrs else addrs) (gs_seeds s)
       (fold (\<lambda>r addrs. if ni_id (mr_info r) = ni_id (gs_self s) \<or> \<not> mr_alive r \<or> \<not> js_truthy (mr_address r)
                        then addrs else js_add (the (mr_address r)) addrs)
          (jm_values (gs_members s)) [])"

definition gs_pickTargets :: "(nat \<Rightarrow> real) \<Rightarrow> gossip \<Rightarrow> json list" where
  "gs_pickTargets rnd s =
     (let all = gs_targets s
      in if int (length all) \<le> gs_fanout s then all else gs_pick rnd 0 (nat (gs_fanout s)) all)"

definition gs_gossip :: "(nat \<Rightarrow> real) \<Rightarrow> gossip \<Rightarrow> gossip_out list" where
  "gs_gossip rnd s = (let msg = gs_message s in map (\<lambda>addr. GSend addr msg) (gs_pickTargets rnd s))"

text \<open>\<^verbatim>\<open>_sweep\<close>, one record and the loop.\<close>

definition gs_sweep_one :: "int \<Rightarrow> string \<Rightarrow> member_record \<Rightarrow> gossip \<times> bool \<Rightarrow> gossip \<times> bool" where
  "gs_sweep_one now i r sc =
     (let (s, changed) = sc in
      if i = ni_id (gs_self s) then (s, changed)
      else if mr_alive r
        then (if now - mr_lastSeen r > gs_deadMs s
              then (gs_put i (r\<lparr>mr_alive := False, mr_incarnation := js_incr (mr_incarnation r)\<rparr>) s, True)
              else (s, changed))
        else if now - mr_lastSeen r > gs_tombstoneMs s
          then (s\<lparr>gs_members := jm_delete i (gs_members s),
                  gs_seeds := (case mr_address r of Some a \<Rightarrow> js_del a (gs_seeds s) | None \<Rightarrow> gs_seeds s)\<rparr>, changed)
          else (s, changed))"

definition gs_sweep :: "int \<Rightarrow> gossip \<Rightarrow> gossip \<times> gossip_out list" where
  "gs_sweep now s =
     (let (s', changed) = fold (\<lambda>(i, r). gs_sweep_one now i r) (gs_members s) (s, False)
      in (s', if changed then gs_notify s' else []))"

text \<open>\<^verbatim>\<open>start\<close>, \<^verbatim>\<open>stop\<close> and the timer.\<close>

definition gs_start :: "int \<Rightarrow> gossip \<Rightarrow> gossip \<times> gossip_out list" where
  "gs_start now s =
     (if gs_running s then (s, [])
      else (let s1 = s\<lparr>gs_running := True\<rparr>;
                (s2, outs) =
                  (case gs_self_rec s1 of
                     Some r \<Rightarrow>
                       (let s' = gs_put (ni_id (gs_self s1))
                                   (r\<lparr>mr_alive := True, mr_incarnation := js_incr (mr_incarnation r), mr_lastSeen := now\<rparr>) s1
                        in (s', gs_notify s'))
                   | None \<Rightarrow> (s1, []))
            in (s2\<lparr>gs_timer := True\<rparr>, outs @ [GOnReceive, GSetTimer (gs_intervalMs s2)])))"

definition gs_stop :: "(nat \<Rightarrow> real) \<Rightarrow> gossip \<Rightarrow> gossip \<times> gossip_out list" where
  "gs_stop rnd s =
     (if \<not> gs_running s then (s, [])
      else (let s1 = s\<lparr>gs_running := False, gs_timer := False\<rparr>;
                (s2, outs) =
                  (case gs_self_rec s1 of
                     Some r \<Rightarrow>
                       (let s' = gs_put (ni_id (gs_self s1))
                                   (r\<lparr>mr_alive := False, mr_incarnation := js_incr (mr_incarnation r)\<rparr>) s1
                        in (s', gs_gossip rnd s'))
                   | None \<Rightarrow> (s1, []))
            in (s2, (if gs_timer s then [GClearTimer] else []) @ outs @ [GClose])))"

definition gs_tick :: "int \<Rightarrow> (nat \<Rightarrow> real) \<Rightarrow> gossip \<Rightarrow> gossip \<times> gossip_out list" where
  "gs_tick now rnd s =
     (let s1 = (case gs_self_rec s of
                  Some r \<Rightarrow> gs_put (ni_id (gs_self s))
                              (r\<lparr>mr_incarnation := js_incr (mr_incarnation r), mr_lastSeen := now\<rparr>) s
                | None \<Rightarrow> s);
          (s2, outs) = gs_sweep now s1
      in (s2, outs @ gs_gossip rnd s2))"

definition gs_onTimer :: "int \<Rightarrow> (nat \<Rightarrow> real) \<Rightarrow> gossip \<Rightarrow> gossip \<times> gossip_out list" where
  "gs_onTimer now rnd s =
     (if \<not> gs_running s then (s\<lparr>gs_timer := False\<rparr>, [])
      else (let (s', outs) = gs_tick now rnd s in (s'\<lparr>gs_timer := True\<rparr>, outs @ [GSetTimer (gs_intervalMs s')])))"

text \<open>\<^verbatim>\<open>register\<close>, \<^verbatim>\<open>deregister\<close>, \<^verbatim>\<open>list\<close>, \<^verbatim>\<open>watch\<close>.\<close>

definition gs_register :: "int \<Rightarrow> (nat \<Rightarrow> real) \<Rightarrow> node_info \<Rightarrow> gossip \<Rightarrow> gossip \<times> gossip_out list" where
  "gs_register now rnd node s =
     (if ni_id node = ni_id (gs_self s)
      then (let s' = (case gs_self_rec s of
                        Some r \<Rightarrow> gs_put (ni_id (gs_self s))
                          (r\<lparr>mr_info := node, mr_alive := True, mr_incarnation := js_incr (mr_incarnation r),
                             mr_lastSeen := now\<rparr>) s
                      | None \<Rightarrow> s)
            in (s', gs_notify s' @ gs_gossip rnd s'))
      else (if js_truthy (ni_address node) then s\<lparr>gs_seeds := js_add (the (ni_address node)) (gs_seeds s)\<rparr> else s, []))"

definition gs_deregister :: "(nat \<Rightarrow> real) \<Rightarrow> string \<Rightarrow> gossip \<Rightarrow> gossip \<times> gossip_out list" where
  "gs_deregister rnd nodeId s =
     (case jm_get (gs_members s) nodeId of
        None \<Rightarrow> (s, [])
      | Some r \<Rightarrow>
          if \<not> mr_alive r then (s, [])
          else (let s' = gs_put nodeId (r\<lparr>mr_alive := False, mr_incarnation := js_incr (mr_incarnation r)\<rparr>) s
                in (s', gs_notify s' @ gs_gossip rnd s')))"

definition gs_list :: "int \<Rightarrow> gossip \<Rightarrow> node_info list \<times> gossip \<times> gossip_out list" where
  "gs_list now s = (let (s', outs) = gs_sweep now s in (gs_aliveInfos s', s', outs))"

definition gs_watch :: "watcher \<Rightarrow> gossip \<Rightarrow> gossip" where
  "gs_watch w s = s\<lparr>gs_watchers := js_add w (gs_watchers s)\<rparr>"

definition gs_unwatch :: "watcher \<Rightarrow> gossip \<Rightarrow> gossip" where
  "gs_unwatch w s = s\<lparr>gs_watchers := js_del w (gs_watchers s)\<rparr>"

text \<open>Receiving: validation, merge, and the loop over the entries of a message.\<close>

definition gs_isValidEntry :: "json \<Rightarrow> gossip_entry option" where
  "gs_isValidEntry e =
     (case (e, json_field e ''id'', json_field e ''incarnation'', json_field e ''alive'') of
        (JObject _, Some (JString i), Some (JNumber n), Some (JBool alive)) \<Rightarrow>
          if i = '''' then None
          else (case n of
                  JFin r \<Rightarrow>
                    if \<not> jsnum_finite n \<or> \<not> jsnum_integer n \<or> r < 0 then None
                    else Some \<lparr>ge_id = i, ge_address = json_field e ''address'', ge_region = json_field e ''region'',
                               ge_metadata = json_field e ''metadata'', ge_incarnation = nat \<lfloor>r\<rfloor>, ge_alive = alive\<rparr>
                | _ \<Rightarrow> None)
      | _ \<Rightarrow> None)"

definition gs_info_of :: "gossip_entry \<Rightarrow> node_info" where
  "gs_info_of e = \<lparr>ni_id = ge_id e, ni_region = ge_region e, ni_address = ge_address e, ni_metadata = ge_metadata e\<rparr>"

definition gs_merge_self :: "int \<Rightarrow> gossip_entry \<Rightarrow> gossip \<Rightarrow> gossip" where
  "gs_merge_self now e s =
     (case gs_self_rec s of
        None \<Rightarrow> s
      | Some r \<Rightarrow>
          if ge_incarnation e > mr_incarnation r \<or> (ge_incarnation e = mr_incarnation r \<and> \<not> ge_alive e)
          then gs_put (ni_id (gs_self s))
                 (r\<lparr>mr_incarnation := js_incr (ge_incarnation e), mr_alive := True, mr_lastSeen := now\<rparr>) s
          else s)"

definition gs_merge_peer :: "int \<Rightarrow> gossip_entry \<Rightarrow> gossip \<Rightarrow> bool \<times> gossip" where
  "gs_merge_peer now e s =
     (case jm_get (gs_members s) (ge_id e) of
        None \<Rightarrow>
          (let s' = gs_put (ge_id e) \<lparr>mr_info = gs_info_of e, mr_address = ge_address e,
                      mr_incarnation = ge_incarnation e, mr_alive = ge_alive e, mr_lastSeen = now\<rparr> s
           in (ge_alive e,
               if js_truthy (ge_address e) then s'\<lparr>gs_seeds := js_add (the (ge_address e)) (gs_seeds s')\<rparr> else s'))
      | Some known \<Rightarrow>
          if ge_incarnation e = mr_incarnation known \<and> \<not> ge_alive e \<and> mr_alive known
          then (True, gs_put (ge_id e) (known\<lparr>mr_alive := False, mr_lastSeen := now\<rparr>) s)
          else if ge_incarnation e > mr_incarnation known
            then (mr_alive known \<noteq> ge_alive e,
                  gs_put (ge_id e) \<lparr>mr_info = gs_info_of e, mr_address = ge_address e,
                    mr_incarnation = ge_incarnation e, mr_alive = ge_alive e, mr_lastSeen = now\<rparr> s)
            else (False, s))"

definition gs_merge :: "int \<Rightarrow> json \<Rightarrow> gossip \<Rightarrow> bool \<times> gossip" where
  "gs_merge now entry s =
     (case gs_isValidEntry entry of
        None \<Rightarrow> (False, s)
      | Some e \<Rightarrow> if ge_id e = ni_id (gs_self s) then (False, gs_merge_self now e s) else gs_merge_peer now e s)"

text \<open>The loop of \<^verbatim>\<open>_onReceive\<close>. The clock is read once per message here, for every entry in the code; only \<open>mr_lastSeen\<close> depends on it.\<close>

fun gs_merge_all :: "int \<Rightarrow> json list \<Rightarrow> gossip \<Rightarrow> bool \<Rightarrow> bool \<times> gossip" where
  "gs_merge_all now [] s changed = (changed, s)"
| "gs_merge_all now (e # es) s changed =
     (let (ch, s') = gs_merge now e s in gs_merge_all now es s' (ch \<or> changed))"

definition gs_onReceive :: "int \<Rightarrow> json \<Rightarrow> gossip \<Rightarrow> gossip \<times> gossip_out list" where
  "gs_onReceive now msg s =
     (case json_field msg ''members'' of
        Some (JArray members) \<Rightarrow>
          (let (changed, s') = gs_merge_all now members s False in (s', if changed then gs_notify s' else []))
      | _ \<Rightarrow> (s, []))"

text \<open>The message on the wire: an absent field is left out.\<close>

definition gs_opt_field :: "string \<Rightarrow> json option \<Rightarrow> (string \<times> json) list" where
  "gs_opt_field k v = (case v of None \<Rightarrow> [] | Some j \<Rightarrow> [(k, j)])"

definition gs_wire_entry :: "gossip_entry \<Rightarrow> json" where
  "gs_wire_entry e =
     JObject ([(''id'', JString (ge_id e))] @ gs_opt_field ''address'' (ge_address e) @
       gs_opt_field ''region'' (ge_region e) @ gs_opt_field ''metadata'' (ge_metadata e) @
       [(''incarnation'', JNumber (JFin (real (ge_incarnation e)))), (''alive'', JBool (ge_alive e))])"

definition gs_wire :: "gossip_message \<Rightarrow> json" where
  "gs_wire m = JObject [(''from'', JString (gm_from m)), (''members'', JArray (map gs_wire_entry (gm_members m)))]"

section \<open>The in-memory network\<close>

record gossip_network =
  gn_handlers :: "json list"
  gn_partitioned :: "json list"

definition gn_register :: "json \<Rightarrow> gossip_network \<Rightarrow> gossip_network" where
  "gn_register a n = n\<lparr>gn_handlers := js_add a (gn_handlers n)\<rparr>"

definition gn_unregister :: "json \<Rightarrow> gossip_network \<Rightarrow> gossip_network" where
  "gn_unregister a n = n\<lparr>gn_handlers := js_del a (gn_handlers n)\<rparr>"

text \<open>Whether a message from one address reaches the handler registered at the other.\<close>

definition gn_delivers :: "json \<Rightarrow> json \<Rightarrow> gossip_network \<Rightarrow> bool" where
  "gn_delivers from to n \<longleftrightarrow>
     \<not> (from \<in> set (gn_partitioned n) \<or> to \<in> set (gn_partitioned n)) \<and> to \<in> set (gn_handlers n)"

definition gn_partition :: "json \<Rightarrow> gossip_network \<Rightarrow> gossip_network" where
  "gn_partition a n = n\<lparr>gn_partitioned := js_add a (gn_partitioned n)\<rparr>"

definition gn_heal :: "json \<Rightarrow> gossip_network \<Rightarrow> gossip_network" where
  "gn_heal a n = n\<lparr>gn_partitioned := js_del a (gn_partitioned n)\<rparr>"

text \<open>What a transport does with an output: only \<^verbatim>\<open>close\<close> touches the registration.\<close>

fun gn_output :: "json \<Rightarrow> gossip_out \<Rightarrow> gossip_network \<Rightarrow> gossip_network" where
  "gn_output a GClose n = gn_unregister a n"
| "gn_output a _ n = n"

section \<open>Records and their rank\<close>

text \<open>The part of a record gossip reconciles: the incarnation, then dead above alive.\<close>

definition gs_rank :: "gossip \<Rightarrow> string \<Rightarrow> (nat \<times> bool) option" where
  "gs_rank s i = map_option (\<lambda>r. (mr_incarnation r, \<not> mr_alive r)) (jm_get (gs_members s) i)"

definition gs_wf :: "gossip \<Rightarrow> bool" where
  "gs_wf s \<longleftrightarrow> jm_wf (gs_members s) \<and> jm_has (gs_members s) (ni_id (gs_self s)) \<and>
     (\<forall>i r. jm_get (gs_members s) i = Some r \<longrightarrow> ni_id (mr_info r) = i \<and> i \<noteq> '''')"

lemma gs_put_simps [simp]:
  "gs_members (gs_put i r s) = jm_set i r (gs_members s)" "gs_self (gs_put i r s) = gs_self s"
  "gs_watchers (gs_put i r s) = gs_watchers s" "gs_addr (gs_put i r s) = gs_addr s"
  "gs_deadMs (gs_put i r s) = gs_deadMs s" "gs_tombstoneMs (gs_put i r s) = gs_tombstoneMs s"
  "gs_running (gs_put i r s) = gs_running s"
  by (simp_all add: gs_put_def)

lemma gs_rank_put [simp]:
  "gs_rank (gs_put i r s) j = (if j = i then Some (mr_incarnation r, \<not> mr_alive r) else gs_rank s j)"
  by (simp add: gs_rank_def)

lemma gs_wf_put: "gs_wf s \<Longrightarrow> ni_id (mr_info r) = i \<Longrightarrow> i \<noteq> '''' \<Longrightarrow> gs_wf (gs_put i r s)"
  by (auto simp: gs_wf_def)

lemma gs_wf_self: "gs_wf s \<Longrightarrow> \<exists>r. gs_self_rec s = Some r \<and> ni_id (mr_info r) = ni_id (gs_self s) \<and> ni_id (gs_self s) \<noteq> ''''"
  by (auto simp: gs_wf_def gs_self_rec_def jm_has_def)

lemma gs_wf_new: "ni_id self \<noteq> '''' \<Longrightarrow> gs_wf (gs_new now self addr opts)"
  by (simp add: gs_wf_def gs_new_def Let_def jm_has_def jm_wf_def)

lemma gs_valid_id: "gs_isValidEntry j = Some e \<Longrightarrow> ge_id e \<noteq> ''''"
  by (auto simp: gs_isValidEntry_def split: json.splits option.splits jsnum.splits if_splits)

section \<open>Merging\<close>

lemma gs_merge_peer_frame:
  "gs_self (snd (gs_merge_peer now e s)) = gs_self s" "gs_watchers (snd (gs_merge_peer now e s)) = gs_watchers s"
  by (simp_all add: gs_merge_peer_def Let_def split: option.splits)

lemma gs_merge_self_frame:
  "gs_self (gs_merge_self now e s) = gs_self s" "gs_watchers (gs_merge_self now e s) = gs_watchers s"
  by (simp_all add: gs_merge_self_def split: option.splits)

lemma gs_merge_frame [simp]:
  "gs_self (snd (gs_merge now j s)) = gs_self s" "gs_watchers (snd (gs_merge now j s)) = gs_watchers s"
  by (simp_all add: gs_merge_def gs_merge_peer_frame gs_merge_self_frame split: option.splits)

lemma gs_rank_seeds [simp]: "gs_rank (s\<lparr>gs_seeds := x\<rparr>) = gs_rank s"
  by (simp add: gs_rank_def fun_eq_iff)

lemma gs_wf_seeds [simp]: "gs_wf (s\<lparr>gs_seeds := x\<rparr>) = gs_wf s"
  by (simp add: gs_wf_def)

lemma gs_merge_peer_rank:
  "gs_rank (snd (gs_merge_peer now e s)) i =
     (if i = ge_id e then max (gs_rank s i) (Some (ge_incarnation e, \<not> ge_alive e)) else gs_rank s i)"
  by (auto simp: gs_merge_peer_def Let_def gs_rank_def max_def less_eq_prod_def split: option.splits)

lemma gs_merge_self_rank: "i \<noteq> ni_id (gs_self s) \<Longrightarrow> gs_rank (gs_merge_self now e s) i = gs_rank s i"
  by (simp add: gs_merge_self_def split: option.splits)

text \<open>The claims about a node in a list of entries.\<close>

definition gs_claims :: "string \<Rightarrow> json list \<Rightarrow> (nat \<times> bool) option list" where
  "gs_claims i js =
     map (\<lambda>e. Some (ge_incarnation e, \<not> ge_alive e)) (filter (\<lambda>e. ge_id e = i) (List.map_filter gs_isValidEntry js))"

lemma gs_claims_simps [simp]:
  "gs_claims i [] = []"
  "gs_claims i (j # js) =
     (case gs_isValidEntry j of
        Some e \<Rightarrow> if ge_id e = i then Some (ge_incarnation e, \<not> ge_alive e) # gs_claims i js else gs_claims i js
      | None \<Rightarrow> gs_claims i js)"
  "gs_claims i (js @ js') = gs_claims i js @ gs_claims i js'"
  by (auto simp: gs_claims_def List.map_filter_def split: option.splits)

lemma gs_merge_rank:
  "i \<noteq> ni_id (gs_self s) \<Longrightarrow> gs_rank (snd (gs_merge now j s)) i = fold max (gs_claims i [j]) (gs_rank s i)"
  by (auto simp: gs_merge_def gs_merge_peer_rank gs_merge_self_rank max.commute split: option.splits)

lemma gs_merge_all_frame [simp]:
  "gs_self (snd (gs_merge_all now js s ch)) = gs_self s" "gs_watchers (snd (gs_merge_all now js s ch)) = gs_watchers s"
  by (induction js arbitrary: s ch) (simp_all add: split_def Let_def)

lemma gs_merge_all_rank:
  "i \<noteq> ni_id (gs_self s) \<Longrightarrow> gs_rank (snd (gs_merge_all now js s ch)) i = fold max (gs_claims i js) (gs_rank s i)"
proof (induction js arbitrary: s ch)
  case (Cons j js)
  have "gs_claims i (j # js) = gs_claims i [j] @ gs_claims i js" by (simp split: option.splits)
  with Cons show ?case by (simp add: split_def Let_def gs_merge_rank del: gs_claims_simps)
qed simp

lemma fold_max_set: "fold max xs (x :: 'a :: linorder) = Max (insert x (set xs))"
  by (metis Max.set_eq_fold list.set(2))

lemma gs_onReceive_rank:
  "i \<noteq> ni_id (gs_self s) \<Longrightarrow>
   gs_rank (fst (gs_onReceive now (JObject [(''from'', f), (''members'', JArray js)]) s)) i = fold max (gs_claims i js) (gs_rank s i)"
  by (simp add: gs_onReceive_def split_def Let_def gs_merge_all_rank)

section \<open>The wire\<close>

lemma gs_wire_roundtrip: "ge_id e \<noteq> '''' \<Longrightarrow> gs_isValidEntry (gs_wire_entry e) = Some e"
  by (auto simp: gs_isValidEntry_def gs_wire_entry_def gs_opt_field_def split: option.splits)

lemma gs_claims_entries:
  "\<forall>r \<in> set rs. ni_id (mr_info r) \<noteq> [] \<Longrightarrow>
   gs_claims i (map gs_wire_entry (map gs_entry rs)) =
     map (\<lambda>r. Some (mr_incarnation r, \<not> mr_alive r)) (filter (\<lambda>r. ni_id (mr_info r) = i) rs)"
  by (induction rs) (auto simp: gs_wire_roundtrip gs_entry_def)

lemma gs_filter_id:
  "jm_wf m \<Longrightarrow> \<forall>(j, r) \<in> set m. ni_id (mr_info r) = j \<Longrightarrow>
   filter (\<lambda>r. ni_id (mr_info r) = i) (jm_values m) = (case jm_get m i of None \<Rightarrow> [] | Some r \<Rightarrow> [r])"
  by (induction m) (force simp: jm_wf_def filter_empty_conv split: option.splits dest: map_of_SomeD)+

lemma gs_wf_entries:
  "gs_wf a \<Longrightarrow> (j, r) \<in> set (gs_members a) \<Longrightarrow> ni_id (mr_info r) = j \<and> j \<noteq> []"
  by (simp add: gs_wf_def jm_mem_iff)

lemma gs_claims_digest:
  assumes "gs_wf a"
  shows "gs_claims i (map gs_wire_entry (gm_members (gs_message a))) =
    (case gs_rank a i of None \<Rightarrow> [] | Some x \<Rightarrow> [Some x])"
proof -
  have "\<forall>r \<in> set (jm_values (gs_members a)). ni_id (mr_info r) \<noteq> []"
    using gs_wf_entries [OF assms] by fastforce
  moreover have "filter (\<lambda>r. ni_id (mr_info r) = i) (jm_values (gs_members a)) =
      (case jm_get (gs_members a) i of None \<Rightarrow> [] | Some r \<Rightarrow> [r])"
    using gs_wf_entries [OF assms] assms by (intro gs_filter_id) (auto simp: gs_wf_def)
  ultimately show ?thesis
    by (simp add: gs_message_def gs_rank_def gs_claims_entries del: map_map split: option.splits)
qed

lemma gs_digest_rank:
  assumes "gs_wf a" "i \<noteq> ni_id (gs_self b)"
  shows "gs_rank (fst (gs_onReceive now (gs_wire (gs_message a)) b)) i = max (gs_rank b i) (gs_rank a i)"
  using gs_onReceive_rank [OF assms(2)] gs_claims_digest [OF assms(1), of i]
  by (simp add: gs_wire_def max.commute max_def split: option.splits)

text \<open>Small instances for the witnesses below.\<close>

definition gs_example_node :: "string \<Rightarrow> node_info" where
  "gs_example_node i = \<lparr>ni_id = i, ni_region = None, ni_address = None, ni_metadata = None\<rparr>"

definition gs_example :: "string \<Rightarrow> gossip" where
  "gs_example i = gs_new 0 (gs_example_node i) (JString i)
     \<lparr>go_seeds = None, go_gossipIntervalMs = None, go_fanout = None, go_deadTimeoutMs = None, go_tombstoneMs = None\<rparr>"

definition gs_example_entry :: "string \<Rightarrow> nat \<Rightarrow> bool \<Rightarrow> gossip_entry" where
  "gs_example_entry i n up =
     \<lparr>ge_id = i, ge_address = None, ge_region = None, ge_metadata = None, ge_incarnation = n, ge_alive = up\<rparr>"

lemmas gs_example_defs = gs_example_def gs_example_node_def gs_new_def Let_def

lemma gs_example_self [simp]: "ni_id (gs_self (gs_example i)) = i"
  by (simp add: gs_example_defs)

lemma gs_example_rank [simp]: "gs_rank (gs_example i) j = (if j = i then Some (0, False) else None)"
  by (simp add: gs_example_defs gs_rank_def)

lemma gs_example_entry_sel [simp]:
  "ge_id (gs_example_entry i n up) = i" "ge_incarnation (gs_example_entry i n up) = n"
  "ge_alive (gs_example_entry i n up) = up"
  by (simp_all add: gs_example_entry_def)

lemma gs_example_rec:
  "gs_self_rec (gs_example i) =
     Some \<lparr>mr_info = gs_example_node i, mr_address = Some (JString i), mr_incarnation = 0, mr_alive = True, mr_lastSeen = 0\<rparr>"
  by (simp add: gs_example_defs gs_self_rec_def)

lemma gs_example_wf: "i \<noteq> '''' \<Longrightarrow> gs_wf (gs_example i)"
  by (simp add: gs_example_def gs_wf_new gs_example_node_def)

lemma gs_example_valid [simp]:
  "gs_isValidEntry JNull = None"
  "i \<noteq> '''' \<Longrightarrow> gs_isValidEntry (gs_wire_entry (gs_example_entry i n up)) = Some (gs_example_entry i n up)"
  by (simp_all add: gs_example_entry_def gs_wire_roundtrip) (simp add: gs_isValidEntry_def)

text \<open>
  (C16) Anti-entropy: when node \<open>b\<close> receives the digest node \<open>a\<close> gossips, its view of every node other
  than itself becomes the later of the two views, where a higher incarnation is later and, at equal
  incarnation, dead is later than alive. Nothing either of them knew is lost.
\<close>

theorem gs_antientropy:
  assumes "gs_wf a" "i \<noteq> ni_id (gs_self b)"
  shows "gs_rank (fst (gs_onReceive now (gs_wire (gs_message a)) b)) i = max (gs_rank b i) (gs_rank a i)"
  using assms by (rule gs_digest_rank)

theorem gs_antientropy_witness:
  "gs_rank (fst (gs_onReceive 5 (gs_wire (gs_message (gs_example ''a''))) (gs_example ''b''))) ''a'' = Some (0, False)"
  using gs_antientropy [OF gs_example_wf [of "''a''"], of "''a''" "gs_example ''b''" 5] by (simp add: max_def)

text \<open>
  (C2) Convergence: two nodes with the same view of a node \<open>i\<close> that receive the same claims about it,
  in any order, batching and multiplicity, end with the same view of it; malformed entries from
  untrusted senders make no difference.
\<close>

theorem gs_convergence:
  assumes "i \<noteq> ni_id (gs_self a)" "i \<noteq> ni_id (gs_self b)" "gs_rank a i = gs_rank b i"
    and "set (gs_claims i js) = set (gs_claims i (concat (map snd rounds)))"
  shows "gs_rank (snd (gs_merge_all now js a ch)) i =
    gs_rank (fold (\<lambda>(t, m) s. snd (gs_merge_all t m s False)) rounds b) i"
proof -
  have "gs_rank (fold (\<lambda>(t, m) s. snd (gs_merge_all t m s False)) rounds b) i =
      fold max (gs_claims i (concat (map snd rounds))) (gs_rank b i)"
    using assms(2) by (induction rounds arbitrary: b) (auto simp: gs_merge_all_rank)
  then show ?thesis
    using assms by (simp add: gs_merge_all_rank fold_max_set)
qed

theorem gs_convergence_witness:
  "gs_rank (snd (gs_merge_all 1
      [gs_wire_entry (gs_example_entry ''c'' 4 True), JNull, gs_wire_entry (gs_example_entry ''c'' 4 False)]
      (gs_example ''a'') False)) ''c'' =
   gs_rank (fold (\<lambda>(t, m) s. snd (gs_merge_all t m s False))
     [(2, [gs_wire_entry (gs_example_entry ''c'' 4 False)]), (3, [gs_wire_entry (gs_example_entry ''c'' 4 True)])]
     (gs_example ''b'')) ''c''"
  by (rule gs_convergence) (simp_all add: gs_example_entry_def gs_wire_roundtrip insert_commute)

section \<open>Refutation\<close>

lemma gs_merge_wf:
  assumes "gs_wf s"
  shows "gs_wf (snd (gs_merge now j s))"
proof (cases "gs_isValidEntry j")
  case (Some e)
  show ?thesis
  proof (cases "ge_id e = ni_id (gs_self s)")
    case True
    then show ?thesis
      using assms Some gs_wf_self [OF assms]
      by (auto simp: gs_merge_def gs_merge_self_def intro!: gs_wf_put)
  next
    case False
    have "jm_get (gs_members s) (ge_id e) = Some r \<Longrightarrow> ni_id (mr_info r) = ge_id e" for r
      using assms by (simp add: gs_wf_def)
    with False show ?thesis
      using assms Some gs_valid_id [OF Some]
      by (auto simp: gs_merge_def gs_merge_peer_def gs_info_of_def Let_def intro!: gs_wf_put split: option.splits)
  qed
qed (simp add: gs_merge_def assms)

lemma gs_merge_all_wf: "gs_wf s \<Longrightarrow> gs_wf (snd (gs_merge_all now js s ch))"
  by (induction js arbitrary: s ch) (simp_all add: split_def Let_def gs_merge_wf)

lemma gs_onReceive_wf: "gs_wf s \<Longrightarrow> gs_wf (fst (gs_onReceive now msg s))"
  by (simp add: gs_onReceive_def split_def Let_def gs_merge_all_wf split: option.splits json.splits)

text \<open>A claim about the node itself is answered when it would override the record or repeats its death.\<close>

definition gs_answer :: "(nat \<times> bool) option \<Rightarrow> (nat \<times> bool) option \<Rightarrow> (nat \<times> bool) option" where
  "gs_answer c x =
     (case c of
        None \<Rightarrow> x
      | Some (n, d) \<Rightarrow> if x < Some (n, d) \<or> x = Some (n, d) \<and> d then Some (js_incr n, False) else x)"

lemma gs_merge_own_rank:
  assumes "gs_wf s"
  shows "gs_rank (snd (gs_merge now j s)) (ni_id (gs_self s)) =
    fold gs_answer (gs_claims (ni_id (gs_self s)) [j]) (gs_rank s (ni_id (gs_self s)))"
proof -
  obtain r where r: "gs_self_rec s = Some r" using gs_wf_self [OF assms] by blast
  then have k: "gs_rank s (ni_id (gs_self s)) = Some (mr_incarnation r, \<not> mr_alive r)"
    by (simp add: gs_rank_def gs_self_rec_def)
  show ?thesis
  proof (cases "gs_isValidEntry j")
    case (Some e)
    then show ?thesis
      using r k by (cases "ge_id e = ni_id (gs_self s)")
        (auto simp: gs_merge_def gs_merge_self_def gs_merge_peer_rank gs_answer_def less_prod_def)
  qed (simp add: gs_merge_def)
qed

lemma gs_merge_all_own_rank:
  "gs_wf s \<Longrightarrow> gs_rank (snd (gs_merge_all now js s ch)) (ni_id (gs_self s)) =
    fold gs_answer (gs_claims (ni_id (gs_self s)) js) (gs_rank s (ni_id (gs_self s)))"
proof (induction js arbitrary: s ch)
  case (Cons j js)
  have "gs_claims i (j # js) = gs_claims i [j] @ gs_claims i js" for i by (simp split: option.splits)
  with Cons.IH [of "snd (gs_merge now j s)"] Cons.prems show ?case
    by (simp add: split_def Let_def gs_merge_own_rank gs_merge_wf del: gs_claims_simps)
qed simp

lemma gs_digest_self_rank:
  assumes "gs_wf a" "gs_wf b"
  shows "gs_rank (fst (gs_onReceive now (gs_wire (gs_message b)) a)) (ni_id (gs_self a)) =
    (case gs_rank b (ni_id (gs_self a)) of None \<Rightarrow> gs_rank a (ni_id (gs_self a))
     | Some c \<Rightarrow> gs_answer (Some c) (gs_rank a (ni_id (gs_self a))))"
  using gs_claims_digest [OF assms(2), of "ni_id (gs_self a)"]
  by (simp add: gs_wire_def gs_onReceive_def split_def Let_def gs_merge_all_own_rank [OF assms(1)] split: option.splits)

text \<open>
  (C22) Refutation: a node that hears a claim about itself that would override its own record (a higher
  incarnation, or its death at the same one) answers with an incarnation above the claim and is
  alive; whoever holds the claim and then receives the node's next digest sees it alive again. The
  counter must be below \<open>2 ^ 53\<close>, where \<^verbatim>\<open>+ 1\<close> still moves a JavaScript number.
\<close>

theorem gs_refutation:
  assumes "gs_wf s" "gs_isValidEntry j = Some e" "ge_id e = ni_id (gs_self s)" "ge_incarnation e < 2 ^ 53"
    and "gs_rank s (ge_id e) < Some (ge_incarnation e, \<not> ge_alive e)"
    and "ni_id (gs_self p) \<noteq> ge_id e" "gs_rank p (ge_id e) = Some (ge_incarnation e, \<not> ge_alive e)"
  shows "gs_rank (snd (gs_merge now j s)) (ge_id e) = Some (ge_incarnation e + 1, False) \<and>
    gs_rank (fst (gs_onReceive now' (gs_wire (gs_message (snd (gs_merge now j s)))) p)) (ge_id e) =
      Some (ge_incarnation e + 1, False)"
proof -
  obtain r where r: "gs_self_rec s = Some r" "ni_id (mr_info r) = ni_id (gs_self s)" "ni_id (gs_self s) \<noteq> ''''"
    using gs_wf_self [OF assms(1)] by blast
  have "gs_rank s (ge_id e) = Some (mr_incarnation r, \<not> mr_alive r)"
    using r(1) assms(3) by (simp add: gs_rank_def gs_self_rec_def)
  with assms(5) have "ge_incarnation e > mr_incarnation r \<or> ge_incarnation e = mr_incarnation r \<and> \<not> ge_alive e"
    by (auto simp: less_prod_def)
  then have m: "snd (gs_merge now j s) = gs_put (ni_id (gs_self s))
      (r\<lparr>mr_incarnation := ge_incarnation e + 1, mr_alive := True, mr_lastSeen := now\<rparr>) s"
    using assms(2,3,4) r(1) by (auto simp: gs_merge_def gs_merge_self_def js_incr_safe)
  then have rank: "gs_rank (snd (gs_merge now j s)) (ge_id e) = Some (ge_incarnation e + 1, False)"
    using assms(3) by simp
  have "gs_wf (snd (gs_merge now j s))" using m r assms(1) by (simp add: gs_wf_put)
  from gs_digest_rank [OF this, of "ge_id e" p now'] show ?thesis
    using rank assms(6,7) by (simp add: max_def less_eq_prod_def)
qed

theorem gs_refutation_witness:
  "let j = gs_wire_entry (gs_example_entry ''a'' 3 False);
       p = snd (gs_merge 1 j (gs_example ''b''))
   in gs_rank p ''a'' = Some (3, True) \<and>
      gs_rank (fst (gs_onReceive 4 (gs_wire (gs_message (snd (gs_merge 2 j (gs_example ''a''))))) p)) ''a'' = Some (4, False)"
proof -
  let ?e = "gs_example_entry ''a'' 3 False"
  let ?p = "snd (gs_merge 1 (gs_wire_entry ?e) (gs_example ''b''))"
  have p: "gs_rank ?p ''a'' = Some (3, True)" by (simp add: gs_merge_rank)
  have "gs_rank (fst (gs_onReceive 4 (gs_wire (gs_message (snd (gs_merge 2 (gs_wire_entry ?e) (gs_example ''a''))))) ?p)) ''a'' = Some (4, False)"
    using gs_refutation [of "gs_example ''a''" "gs_wire_entry ?e" ?e ?p 2 4] p
    by (simp add: gs_example_wf less_prod_def)
  with p show ?thesis by simp
qed

section \<open>Failure detection\<close>

text \<open>What one sweep makes of a record.\<close>

definition gs_swept :: "gossip \<Rightarrow> int \<Rightarrow> string \<Rightarrow> member_record \<Rightarrow> member_record option" where
  "gs_swept s now i r =
     (if i = ni_id (gs_self s) then Some r
      else if mr_alive r
        then Some (if now - mr_lastSeen r > gs_deadMs s
                   then r\<lparr>mr_alive := False, mr_incarnation := js_incr (mr_incarnation r)\<rparr> else r)
        else if now - mr_lastSeen r > gs_tombstoneMs s then None else Some r)"

definition gs_times_out :: "gossip \<Rightarrow> int \<Rightarrow> string \<Rightarrow> member_record \<Rightarrow> bool" where
  "gs_times_out s now i r \<longleftrightarrow> i \<noteq> ni_id (gs_self s) \<and> mr_alive r \<and> now - mr_lastSeen r > gs_deadMs s"

lemma gs_sweep_one_frame [simp]:
  "gs_self (fst (gs_sweep_one now i r sc)) = gs_self (fst sc)"
  "gs_watchers (fst (gs_sweep_one now i r sc)) = gs_watchers (fst sc)"
  "gs_deadMs (fst (gs_sweep_one now i r sc)) = gs_deadMs (fst sc)"
  "gs_tombstoneMs (fst (gs_sweep_one now i r sc)) = gs_tombstoneMs (fst sc)"
  by (simp_all add: gs_sweep_one_def split_def Let_def)

lemma gs_sweep_one_get:
  "jm_get (gs_members (fst sc)) i = Some r \<Longrightarrow>
   jm_get (gs_members (fst (gs_sweep_one now i r sc))) i = gs_swept (fst sc) now i r"
  "j \<noteq> i \<Longrightarrow> jm_get (gs_members (fst (gs_sweep_one now i r sc))) j = jm_get (gs_members (fst sc)) j"
  by (auto simp: gs_sweep_one_def gs_swept_def split_def Let_def)

lemma gs_sweep_one_changed: "snd (gs_sweep_one now i r sc) \<longleftrightarrow> snd sc \<or> gs_times_out (fst sc) now i r"
  by (auto simp: gs_sweep_one_def gs_times_out_def split_def Let_def)

lemma gs_sweep_fold:
  fixes now :: int
  assumes "distinct (map fst es)" "\<forall>(i, r) \<in> set es. jm_get (gs_members (fst sc)) i = Some r"
  defines "res \<equiv> fold (\<lambda>(i, r). gs_sweep_one now i r) es sc"
  shows "gs_self (fst res) = gs_self (fst sc) \<and> gs_watchers (fst res) = gs_watchers (fst sc) \<and>
    (snd res \<longleftrightarrow> snd sc \<or> (\<exists>(i, r) \<in> set es. gs_times_out (fst sc) now i r)) \<and>
    (\<forall>j. jm_get (gs_members (fst res)) j =
       (case map_of es j of Some r \<Rightarrow> gs_swept (fst sc) now j r | None \<Rightarrow> jm_get (gs_members (fst sc)) j))"
  unfolding res_def using assms(1,2)
proof (induction es arbitrary: sc)
  case (Cons p es)
  obtain i r where p: "p = (i, r)" by fastforce
  let ?sc = "gs_sweep_one now i r sc"
  have i: "i \<notin> fst ` set es" "jm_get (gs_members (fst sc)) i = Some r" using Cons.prems p by auto
  have "\<forall>(j, q) \<in> set es. jm_get (gs_members (fst ?sc)) j = Some q"
  proof clarify
    fix j q
    assume jq: "(j, q) \<in> set es"
    then have "j \<noteq> i" using i(1) by force
    then show "jm_get (gs_members (fst ?sc)) j = Some q"
      using Cons.prems(2) jq by (auto simp: gs_sweep_one_get(2))
  qed
  moreover have "gs_swept (fst ?sc) = gs_swept (fst sc)" "gs_times_out (fst ?sc) = gs_times_out (fst sc)"
    by (simp_all add: fun_eq_iff gs_swept_def gs_times_out_def)
  moreover have "map_of es i = None" using i(1) by (simp add: map_of_eq_None_iff)
  ultimately show ?case
    using Cons.IH [of ?sc] Cons.prems(1) i(2) p gs_sweep_one_get(1) [of sc i r now] gs_sweep_one_get(2) [of _ i now r sc]
    by (auto simp: gs_sweep_one_changed split: option.splits)
qed simp

lemma gs_sweep_result:
  assumes "jm_wf (gs_members s)"
  shows "gs_self (fst (gs_sweep now s)) = gs_self s" "gs_watchers (fst (gs_sweep now s)) = gs_watchers s"
    "jm_get (gs_members (fst (gs_sweep now s))) i = Option.bind (jm_get (gs_members s) i) (gs_swept s now i)"
    "snd (gs_sweep now s) = (if \<exists>i r. jm_get (gs_members s) i = Some r \<and> gs_times_out s now i r
       then gs_notify (fst (gs_sweep now s)) else [])"
proof -
  have d: "distinct (jm_keys (gs_members s))" "\<forall>(i, r) \<in> set (gs_members s). jm_get (gs_members s) i = Some r"
    using assms jm_mem_iff [OF assms] by (auto simp: jm_wf_def)
  let ?res = "fold (\<lambda>(i, r). gs_sweep_one now i r) (gs_members s) (s, False)"
  have res: "gs_self (fst ?res) = gs_self s" "gs_watchers (fst ?res) = gs_watchers s"
    "snd ?res \<longleftrightarrow> (\<exists>(i, r) \<in> set (gs_members s). gs_times_out s now i r)"
    "jm_get (gs_members (fst ?res)) i =
       (case jm_get (gs_members s) i of Some r \<Rightarrow> gs_swept s now i r | None \<Rightarrow> jm_get (gs_members s) i)"
    using gs_sweep_fold [of "gs_members s" "(s, False)" now] d by (simp_all split: option.splits)
  have sw: "gs_sweep now s = (fst ?res, if snd ?res then gs_notify (fst ?res) else [])"
    by (simp add: gs_sweep_def split_def Let_def)
  show "gs_self (fst (gs_sweep now s)) = gs_self s" "gs_watchers (fst (gs_sweep now s)) = gs_watchers s"
    by (simp_all add: sw res)
  show "jm_get (gs_members (fst (gs_sweep now s))) i = Option.bind (jm_get (gs_members s) i) (gs_swept s now i)"
    by (simp add: sw res split: option.splits)
  have "snd ?res \<longleftrightarrow> (\<exists>i r. jm_get (gs_members s) i = Some r \<and> gs_times_out s now i r)"
    unfolding res(3) using jm_mem_iff [OF assms] by blast
  then show "snd (gs_sweep now s) = (if \<exists>i r. jm_get (gs_members s) i = Some r \<and> gs_times_out s now i r
       then gs_notify (fst (gs_sweep now s)) else [])"
    by (simp only: sw fst_conv snd_conv)
qed

lemma gs_sweep_one_wf: "jm_wf (gs_members (fst sc)) \<Longrightarrow> jm_wf (gs_members (fst (gs_sweep_one now i r sc)))"
  by (auto simp: gs_sweep_one_def split_def Let_def)

lemma gs_sweep_wf:
  assumes "gs_wf s"
  shows "gs_wf (fst (gs_sweep now s))"
proof -
  have "jm_wf (gs_members (fst (fold (\<lambda>(i, r). gs_sweep_one now i r) es sc)))" if "jm_wf (gs_members (fst sc))" for es sc
    using that
  proof (induction es arbitrary: sc)
    case (Cons p es)
    then show ?case
      using Cons.IH [of "gs_sweep_one now (fst p) (snd p) sc"] by (simp add: split_def gs_sweep_one_wf)
  qed simp
  moreover have w: "jm_wf (gs_members s)" using assms by (simp add: gs_wf_def)
  ultimately have "jm_wf (gs_members (fst (gs_sweep now s)))"
    by (simp add: gs_sweep_def split_def Let_def)
  moreover have "ni_id (mr_info q) = i \<and> i \<noteq> []" if "jm_get (gs_members (fst (gs_sweep now s))) i = Some q" for i q
  proof (cases "jm_get (gs_members s) i")
    case (Some r)
    then have "ni_id (mr_info r) = i \<and> i \<noteq> []" using assms by (simp add: gs_wf_def)
    with that Some show ?thesis by (auto simp: gs_sweep_result(3) [OF w] gs_swept_def split: if_splits)
  qed (use that in \<open>simp add: gs_sweep_result(3) [OF w]\<close>)
  moreover have "jm_has (gs_members (fst (gs_sweep now s))) (ni_id (gs_self s))"
    using assms by (auto simp: gs_wf_def jm_has_def gs_sweep_result(3) [OF w] gs_swept_def)
  ultimately show ?thesis
    unfolding gs_wf_def by (simp add: gs_sweep_result(1) [OF w])
qed

lemma gs_live_iff:
  "jm_wf (gs_members s) \<Longrightarrow> n \<in> set (gs_aliveInfos s) \<longleftrightarrow> (\<exists>i r. jm_get (gs_members s) i = Some r \<and> mr_alive r \<and> n = mr_info r)"
  by (force simp: gs_aliveInfos_def jm_mem_iff [symmetric])

text \<open>
  Failure detection: \<^verbatim>\<open>list()\<close> returns the descriptors of exactly the nodes that are known alive and
  were heard from within the dead timeout, the node itself always included while it is alive.
\<close>

lemma gs_list_exact:
  assumes "gs_wf s"
  shows "set (fst (gs_list now s)) =
    {mr_info r | r i. jm_get (gs_members s) i = Some r \<and> mr_alive r \<and>
       (i = ni_id (gs_self s) \<or> now - mr_lastSeen r \<le> gs_deadMs s)}"
proof -
  have w: "jm_wf (gs_members s)" "jm_wf (gs_members (fst (gs_sweep now s)))"
    using assms gs_sweep_wf [OF assms, of now] by (simp_all add: gs_wf_def)
  have "fst (gs_list now s) = gs_aliveInfos (fst (gs_sweep now s))"
    by (simp add: gs_list_def split_def Let_def)
  moreover have "jm_get (gs_members (fst (gs_sweep now s))) i = Some q \<and> mr_alive q \<and> n = mr_info q \<longleftrightarrow>
      n = mr_info q \<and> jm_get (gs_members s) i = Some q \<and> mr_alive q \<and>
        (i = ni_id (gs_self s) \<or> now - mr_lastSeen q \<le> gs_deadMs s)" for i q n
    by (cases "jm_get (gs_members s) i") (auto simp: gs_sweep_result(3) [OF w(1)] gs_swept_def split: if_splits)
  ultimately show ?thesis
    by (simp only: set_eq_iff gs_live_iff [OF w(2)] mem_Collect_eq) blast
qed

text \<open>
  A tombstone that was collected comes back with a fresh time stamp from any peer that still holds
  one, since digests carry dead records too: tombstones circulate.
\<close>

lemma gs_tombstone_returns:
  assumes "i \<noteq> ni_id (gs_self s)" "jm_get (gs_members s) i = None" "gs_isValidEntry j = Some e" "ge_id e = i" "\<not> ge_alive e"
  shows "\<exists>r. jm_get (gs_members (snd (gs_merge now j s))) i = Some r \<and> mr_lastSeen r = now \<and> \<not> mr_alive r"
  using assms by (auto simp: gs_merge_def gs_merge_peer_def Let_def)

section \<open>Leaving and restarting\<close>

text \<open>
  A node that deregisters itself while it runs is brought back by the echo of its own departure:
  a peer that stored the departure returns it at the same incarnation, and the node refutes it.
\<close>

lemma gs_self_departure_undone:
  assumes "gs_wf a" "gs_self_rec a = Some r" "mr_alive r" "gs_wf b" "ni_id (gs_self b) \<noteq> ni_id (gs_self a)"
    and "gs_rank b (ni_id (gs_self a)) \<le> gs_rank a (ni_id (gs_self a))" "mr_incarnation r < 2 ^ 53 - 1"
  shows "let a1 = fst (gs_deregister rnd (ni_id (gs_self a)) a);
             b1 = fst (gs_onReceive t1 (gs_wire (gs_message a1)) b);
             a2 = fst (gs_onReceive t2 (gs_wire (gs_message b1)) a1)
         in gs_rank a1 (ni_id (gs_self a)) = Some (mr_incarnation r + 1, True) \<and>
            gs_rank a2 (ni_id (gs_self a)) = Some (mr_incarnation r + 2, False)"
proof -
  let ?i = "ni_id (gs_self a)"
  let ?a1 = "fst (gs_deregister rnd ?i a)"
  have i: "?i \<noteq> []" "ni_id (mr_info r) = ?i" using gs_wf_self [OF assms(1)] assms(2) by auto
  have a1: "?a1 = gs_put ?i (r\<lparr>mr_alive := False, mr_incarnation := mr_incarnation r + 1\<rparr>) a"
    using assms(2,3,7) by (simp add: gs_deregister_def gs_self_rec_def Let_def js_incr_safe)
  then have w1: "gs_wf ?a1" using i assms(1) by (simp add: gs_wf_put)
  have r1: "gs_rank ?a1 ?i = Some (mr_incarnation r + 1, True)" by (simp add: a1)
  have "gs_rank a ?i = Some (mr_incarnation r, False)"
    using assms(2,3) by (simp add: gs_rank_def gs_self_rec_def)
  then have "gs_rank b ?i < Some (mr_incarnation r + 1, True)"
    using assms(6) by (cases "gs_rank b ?i") (auto simp: less_prod_def less_eq_prod_def)
  then have rb: "gs_rank (fst (gs_onReceive t1 (gs_wire (gs_message ?a1)) b)) ?i = Some (mr_incarnation r + 1, True)"
    using gs_digest_rank [OF w1, of ?i b t1] assms(5) r1 by (simp add: max_absorb2 less_imp_le)
  have "gs_wf (fst (gs_onReceive t1 (gs_wire (gs_message ?a1)) b))"
    by (rule gs_onReceive_wf [OF assms(4)])
  from gs_digest_self_rank [OF w1 this, of t2] rb r1 assms(7) show ?thesis
    by (simp add: a1 js_incr_safe gs_answer_def)
qed

text \<open>
  A restarted node is deaf on the in-memory transport: \<^verbatim>\<open>stop()\<close> closes the transport, which takes
  its address off the network, and \<^verbatim>\<open>start()\<close> only installs the handler again, so nothing sent to the
  node is delivered after a restart although \<^verbatim>\<open>start\<close> revives it.
\<close>

lemma gs_restart_deaf:
  assumes "gs_running s"
  shows "let (s1, outs1) = gs_stop rnd s; (s2, outs2) = gs_start now s1;
             n2 = fold (gn_output (gs_addr s)) (outs1 @ outs2) n
         in gs_running s2 \<and> \<not> gn_delivers from (gs_addr s) n2"
proof -
  have gone: "a \<notin> set (gn_handlers (fold (gn_output a) outs m))" if "a \<notin> set (gn_handlers m)" for a outs m
    using that
  proof (induction outs arbitrary: m)
    case (Cons x outs)
    then show ?case by (cases x) (simp_all add: gn_unregister_def)
  qed simp
  have "\<exists>pre. snd (gs_stop rnd s) = pre @ [GClose]"
    using assms by (simp add: gs_stop_def Let_def split_def)
  then obtain pre where pre: "snd (gs_stop rnd s) = pre @ [GClose]" ..
  have "gs_addr s \<notin> set (gn_handlers (fold (gn_output (gs_addr s)) (snd (gs_stop rnd s) @ outs2) n))" for outs2
    by (simp add: pre gone gn_unregister_def)
  moreover have "\<not> gs_running (fst (gs_stop rnd s))"
    using assms by (simp add: gs_stop_def Let_def split_def split: option.splits)
  then have "gs_running (fst (gs_start now (fst (gs_stop rnd s))))"
    by (simp add: gs_start_def Let_def split_def split: option.splits)
  ultimately show ?thesis
    by (simp add: split_def Let_def gn_delivers_def)
qed

section \<open>Gossip as a membership feed\<close>

datatype gossip_op =
    GReceive int json
  | GList int
  | GTimer int "nat \<Rightarrow> real"
  | GRegister int "nat \<Rightarrow> real" node_info
  | GDeregister "nat \<Rightarrow> real" string
  | GStart int
  | GStop "nat \<Rightarrow> real"

definition gs_step :: "gossip_op \<Rightarrow> gossip \<Rightarrow> gossip \<times> gossip_out list" where
  "gs_step x s =
     (case x of
        GReceive now msg \<Rightarrow> gs_onReceive now msg s
      | GList now \<Rightarrow> snd (gs_list now s)
      | GTimer now rnd \<Rightarrow> gs_onTimer now rnd s
      | GRegister now rnd n \<Rightarrow> gs_register now rnd n s
      | GDeregister rnd i \<Rightarrow> gs_deregister rnd i s
      | GStart now \<Rightarrow> gs_start now s
      | GStop rnd \<Rightarrow> gs_stop rnd s)"

fun gs_note :: "gossip_out \<Rightarrow> notification option" where
  "gs_note (GNotify w ns) = Some (w, ns)"
| "gs_note _ = None"

definition gs_notes :: "gossip_out list \<Rightarrow> notification list" where
  "gs_notes outs = List.map_filter gs_note outs"

definition gs_feed :: "gossip_op \<Rightarrow> gossip \<Rightarrow> gossip \<times> notification list" where
  "gs_feed x s = (let (s', outs) = gs_step x s in (s', gs_notes outs))"

lemma gs_notes_simps [simp]:
  "gs_notes [] = []" "gs_notes (xs @ ys) = gs_notes xs @ gs_notes ys"
  "gs_notes (GNotify w ns # xs) = (w, ns) # gs_notes xs" "gs_notes (GSend a m # xs) = gs_notes xs"
  "gs_notes (GOnReceive # xs) = gs_notes xs" "gs_notes (GSetTimer t # xs) = gs_notes xs"
  "gs_notes (GClearTimer # xs) = gs_notes xs" "gs_notes (GClose # xs) = gs_notes xs"
  by (simp_all add: gs_notes_def List.map_filter_def)

lemma gs_notes_notify [simp]: "gs_notes (gs_notify s) = map (\<lambda>w. (w, gs_aliveInfos s)) (gs_watchers s)"
proof -
  have "gs_notes (map (\<lambda>w. GNotify w ns) ws) = map (\<lambda>w. (w, ns)) ws" for ns ws by (induction ws) auto
  then show ?thesis by (simp add: gs_notify_def)
qed

lemma gs_notes_gossip [simp]: "gs_notes (gs_gossip rnd s) = []"
proof -
  have "gs_notes (map (\<lambda>a. GSend a m) xs) = []" for m xs by (induction xs) auto
  then show ?thesis by (simp add: gs_gossip_def)
qed

text \<open>The alive ids, and the operations' effect on them away from the node itself.\<close>

definition gs_up :: "gossip \<Rightarrow> string \<Rightarrow> bool" where
  "gs_up s i \<longleftrightarrow> (\<exists>r. jm_get (gs_members s) i = Some r \<and> mr_alive r)"

lemma gs_live_ids: "gs_wf s \<Longrightarrow> node_ids (gs_aliveInfos s) = {i. gs_up s i}"
  using gs_live_iff [of s] by (fastforce simp: gs_wf_def gs_up_def image_iff)

lemma gs_up_put [simp]: "gs_up (gs_put i r s) j = (if j = i then mr_alive r else gs_up s j)"
  by (simp add: gs_up_def)

lemma gs_up_frame [simp]:
  "gs_up (s\<lparr>gs_seeds := a\<rparr>) = gs_up s" "gs_up (s\<lparr>gs_timer := b\<rparr>) = gs_up s" "gs_up (s\<lparr>gs_running := b\<rparr>) = gs_up s"
  by (simp_all add: gs_up_def fun_eq_iff)

lemma gs_live_frame [simp]:
  "gs_aliveInfos (s\<lparr>gs_timer := b\<rparr>) = gs_aliveInfos s" "gs_wf (s\<lparr>gs_timer := b\<rparr>) = gs_wf s"
  "gs_wf (s\<lparr>gs_running := b\<rparr>) = gs_wf s"
  by (simp_all add: gs_aliveInfos_def gs_wf_def)

lemma gs_merge_up:
  "\<not> fst (gs_merge now j s) \<Longrightarrow> i \<noteq> ni_id (gs_self s) \<Longrightarrow> gs_up (snd (gs_merge now j s)) i = gs_up s i"
  by (auto simp: gs_merge_def gs_merge_self_def gs_merge_peer_def Let_def split: option.splits if_splits)
    (auto simp: gs_up_def)

lemma gs_merge_all_changed: "ch \<Longrightarrow> fst (gs_merge_all now js s ch)"
  by (induction js arbitrary: s ch) (auto simp: split_def Let_def)

lemma gs_merge_all_up:
  "\<not> fst (gs_merge_all now js s ch) \<Longrightarrow> i \<noteq> ni_id (gs_self s) \<Longrightarrow> gs_up (snd (gs_merge_all now js s ch)) i = gs_up s i"
proof (induction js arbitrary: s ch)
  case (Cons j js)
  have "\<not> fst (gs_merge now j s)"
    using Cons.prems(1) gs_merge_all_changed [of True] by (auto simp: split_def Let_def)
  with Cons show ?case by (simp add: split_def Let_def gs_merge_up)
qed simp

text \<open>The contract of one operation: it keeps the invariant and reports a change away from itself.\<close>

definition gs_reports :: "gossip \<Rightarrow> gossip \<times> gossip_out list \<Rightarrow> bool" where
  "gs_reports s res \<longleftrightarrow>
     gs_wf (fst res) \<and> gs_watchers (fst res) = gs_watchers s \<and> gs_self (fst res) = gs_self s \<and>
     (gs_notes (snd res) = map (\<lambda>w. (w, gs_aliveInfos (fst res))) (gs_watchers s) \<or>
      gs_notes (snd res) = [] \<and> (\<forall>i. i \<noteq> ni_id (gs_self s) \<longrightarrow> gs_up (fst res) i = gs_up s i))"

lemma gs_reports_notify:
  "gs_wf s' \<Longrightarrow> gs_watchers s' = gs_watchers s \<Longrightarrow> gs_self s' = gs_self s \<Longrightarrow> gs_reports s (s', gs_notify s' @ gs_gossip rnd s')"
  by (simp add: gs_reports_def)

lemma gs_sweep_reports:
  assumes "gs_wf s"
  shows "gs_reports s (gs_sweep now s)"
proof -
  have w: "jm_wf (gs_members s)" using assms by (simp add: gs_wf_def)
  show ?thesis
  proof (cases "\<exists>i r. jm_get (gs_members s) i = Some r \<and> gs_times_out s now i r")
    case True
    then show ?thesis
      using gs_sweep_result(1,2,4) [OF w, of now] gs_sweep_wf [OF assms, of now] by (simp add: gs_reports_def)
  next
    case False
    then have "gs_up (fst (gs_sweep now s)) i = gs_up s i" for i
      by (cases "jm_get (gs_members s) i")
        (auto simp: gs_up_def gs_sweep_result(3) [OF w] gs_swept_def gs_times_out_def split: if_splits)
    with False show ?thesis
      using gs_sweep_result(1,2,4) [OF w, of now] gs_sweep_wf [OF assms, of now] by (simp add: gs_reports_def)
  qed
qed

lemma gs_onReceive_reports:
  assumes "gs_wf s"
  shows "gs_reports s (gs_onReceive now msg s)"
proof (cases "\<exists>js. json_field msg ''members'' = Some (JArray js)")
  case True
  then obtain js where js: "json_field msg ''members'' = Some (JArray js)" by blast
  then show ?thesis
    using assms gs_merge_all_up [of now js s False]
    by (auto simp: gs_reports_def gs_onReceive_def split_def Let_def gs_merge_all_wf)
next
  case False
  then have "gs_onReceive now msg s = (s, [])"
    by (auto simp: gs_onReceive_def split: option.splits json.splits)
  with assms show ?thesis by (simp add: gs_reports_def)
qed

lemma gs_bump_wf:
  assumes "gs_wf s" "gs_self_rec s = Some r" "ni_id (mr_info r') = ni_id (gs_self s)"
  shows "gs_wf (gs_put (ni_id (gs_self s)) r' s)"
  using gs_wf_self [OF assms(1)] assms(1,3) by (auto intro!: gs_wf_put)

lemma gs_onTimer_reports:
  assumes "gs_wf s"
  shows "gs_reports s (gs_onTimer now rnd s)"
proof -
  obtain r where r: "gs_self_rec s = Some r" "ni_id (mr_info r) = ni_id (gs_self s)"
    using gs_wf_self [OF assms] by blast
  let ?s1 = "gs_put (ni_id (gs_self s)) (r\<lparr>mr_incarnation := js_incr (mr_incarnation r), mr_lastSeen := now\<rparr>) s"
  have "gs_wf ?s1" using r assms by (intro gs_bump_wf) auto
  from gs_sweep_reports [OF this, of now] show ?thesis
    using r assms by (auto simp: gs_reports_def gs_onTimer_def gs_tick_def split_def Let_def)
qed

lemma gs_start_reports: "gs_wf s \<Longrightarrow> gs_reports s (gs_start now s)"
  using gs_wf_self [of s]
  by (auto simp: gs_reports_def gs_start_def gs_self_rec_def split_def Let_def gs_wf_put)

lemma gs_stop_reports: "gs_wf s \<Longrightarrow> gs_reports s (gs_stop rnd s)"
  using gs_wf_self [of s]
  by (auto simp: gs_reports_def gs_stop_def gs_self_rec_def split_def Let_def gs_wf_put)

lemma gs_register_reports: "gs_wf s \<Longrightarrow> gs_reports s (gs_register now rnd n s)"
  using gs_wf_self [of s]
  by (auto simp: gs_register_def gs_self_rec_def Let_def gs_wf_put intro!: gs_reports_notify)
    (auto simp: gs_reports_def)

lemma gs_deregister_reports:
  assumes "gs_wf s"
  shows "gs_reports s (gs_deregister rnd i s)"
proof (cases "jm_get (gs_members s) i")
  case (Some r)
  then have "ni_id (mr_info r) = i \<and> i \<noteq> []" using assms by (simp add: gs_wf_def)
  with Some assms show ?thesis
    by (auto simp: gs_deregister_def Let_def gs_wf_put intro!: gs_reports_notify) (simp add: gs_reports_def)
qed (simp add: gs_deregister_def gs_reports_def assms)

lemma gs_step_reports: "gs_wf s \<Longrightarrow> gs_reports s (gs_step x s)"
  by (cases x) (simp_all add: gs_step_def gs_list_def split_def Let_def gs_onReceive_reports gs_sweep_reports
      gs_onTimer_reports gs_register_reports gs_deregister_reports gs_start_reports gs_stop_reports)

interpretation gsf: membership_feed gs_wf gs_aliveInfos "\<lambda>s w. w \<in> set (gs_watchers s)" "\<lambda>s. {ni_id (gs_self s)}" gs_feed
proof unfold_locales
  fix s :: gossip and x w ns
  assume ok: "gs_wf s"
  note rep = gs_step_reports [OF ok, of x, unfolded gs_reports_def]
  have feed: "gs_feed x s = (fst (gs_step x s), gs_notes (snd (gs_step x s)))"
    by (simp add: gs_feed_def split_def Let_def)
  show "gs_wf (fst (gs_feed x s))" and "{ni_id (gs_self (fst (gs_feed x s)))} = {ni_id (gs_self s)}"
    and "(w \<in> set (gs_watchers (fst (gs_feed x s)))) = (w \<in> set (gs_watchers s))"
    using rep by (simp_all add: feed)
  show "ns = gs_aliveInfos (fst (gs_feed x s))" if "(w, ns) \<in> set (snd (gs_feed x s))"
    using rep that by (auto simp: feed)
  show "\<exists>ns. (w, ns) \<in> set (snd (gs_feed x s))" if "w \<in> set (gs_watchers s)"
    "node_ids (gs_aliveInfos (fst (gs_feed x s))) - {ni_id (gs_self s)} \<noteq> node_ids (gs_aliveInfos s) - {ni_id (gs_self s)}"
  proof -
    have "\<exists>i. i \<noteq> ni_id (gs_self s) \<and> gs_up (fst (gs_step x s)) i \<noteq> gs_up s i"
      using that(2) rep gs_live_ids [OF ok] gs_live_ids [of "fst (gs_step x s)"] by (auto simp: feed)
    with rep that(1) show ?thesis by (auto simp: feed image_iff)
  qed
qed

section \<open>A forged incarnation\<close>

text \<open>The node's own counter, and operations that bring no claim about it above \<open>2 ^ 53\<close>.\<close>

definition gs_low :: "gossip \<Rightarrow> bool" where
  "gs_low s \<longleftrightarrow> gs_rank s (ni_id (gs_self s)) \<le> Some (2 ^ 53, True)"

definition gs_modest :: "string \<Rightarrow> gossip_op \<Rightarrow> bool" where
  "gs_modest i x \<longleftrightarrow>
     (case x of
        GReceive now msg \<Rightarrow>
          (case json_field msg ''members'' of
             Some (JArray js) \<Rightarrow> list_all (\<lambda>c. c \<le> Some (2 ^ 53, True)) (gs_claims i js)
           | _ \<Rightarrow> True)
      | _ \<Rightarrow> True)"

lemma js_incr_low: "n \<le> 2 ^ 53 \<Longrightarrow> js_incr n \<le> 2 ^ 53"
  by (auto simp: js_incr_def)

lemma rank_low: "Some (n :: nat, d) \<le> Some (2 ^ 53, True) \<longleftrightarrow> n \<le> 2 ^ 53"
  by (auto simp: less_eq_prod_def)

lemma gs_low_rec: "gs_self_rec s = Some r \<Longrightarrow> gs_low s \<longleftrightarrow> mr_incarnation r \<le> 2 ^ 53"
  unfolding gs_low_def gs_rank_def gs_self_rec_def by (simp only: option.map rank_low)

lemma gs_low_put: "mr_incarnation r \<le> 2 ^ 53 \<Longrightarrow> gs_low (gs_put (ni_id (gs_self s)) r s)"
  by (rule gs_low_rec [THEN iffD2]) (simp_all add: gs_self_rec_def)

lemma gs_low_frame [simp]: "gs_low (s\<lparr>gs_timer := b\<rparr>) = gs_low s" "gs_low (s\<lparr>gs_running := b\<rparr>) = gs_low s" "gs_low (s\<lparr>gs_seeds := a\<rparr>) = gs_low s"
  by (simp_all add: gs_low_def gs_rank_def)

lemma gs_answer_low:
  assumes "c \<le> Some (2 ^ 53, True)" "x \<le> Some (2 ^ 53, True)"
  shows "gs_answer c x \<le> Some (2 ^ 53, True)"
proof (cases c)
  case (Some a)
  obtain n d where a: "a = (n, d)" by fastforce
  have "n \<le> 2 ^ 53" using assms(1) unfolding Some a rank_low .
  then have "Some (js_incr n, False) \<le> Some (2 ^ 53, True)" unfolding rank_low by (rule js_incr_low)
  then show ?thesis using assms(2) unfolding Some a gs_answer_def by simp
qed (use assms(2) in \<open>simp add: gs_answer_def\<close>)

lemma gs_answers_low: "list_all (\<lambda>c. c \<le> Some (2 ^ 53, True)) cs \<Longrightarrow> x \<le> Some (2 ^ 53, True) \<Longrightarrow> fold gs_answer cs x \<le> Some (2 ^ 53, True)"
proof (induction cs arbitrary: x)
  case (Cons c cs)
  then show ?case using gs_answer_low [of c x] by simp
qed simp

lemma gs_sweep_low: "gs_wf s \<Longrightarrow> gs_low s \<Longrightarrow> gs_low (fst (gs_sweep now s))"
proof -
  assume a: "gs_wf s" "gs_low s"
  have w: "jm_wf (gs_members s)" using a(1) by (simp add: gs_wf_def)
  have "jm_get (gs_members (fst (gs_sweep now s))) (ni_id (gs_self s)) = jm_get (gs_members s) (ni_id (gs_self s))"
    by (cases "jm_get (gs_members s) (ni_id (gs_self s))") (simp_all add: gs_sweep_result(3) [OF w] gs_swept_def)
  then show ?thesis using a(2) gs_sweep_result(1) [OF w, of now] by (simp add: gs_low_def gs_rank_def)
qed

lemma gs_receive_low:
  assumes wf: "gs_wf s" and low: "gs_low s" and m: "gs_modest (ni_id (gs_self s)) (GReceive now msg)"
  shows "gs_low (fst (gs_onReceive now msg s))"
proof (cases "\<exists>js. json_field msg ''members'' = Some (JArray js)")
  case True
  then obtain js where js: "json_field msg ''members'' = Some (JArray js)" by blast
  have "list_all (\<lambda>c. c \<le> Some (2 ^ 53, True)) (gs_claims (ni_id (gs_self s)) js)" using m js by (simp add: gs_modest_def)
  then have "fold gs_answer (gs_claims (ni_id (gs_self s)) js) (gs_rank s (ni_id (gs_self s))) \<le> Some (2 ^ 53, True)"
    using low unfolding gs_low_def by (rule gs_answers_low)
  then have "gs_low (snd (gs_merge_all now js s False))"
    unfolding gs_low_def using gs_merge_all_own_rank [OF wf, of now js False] by simp
  then show ?thesis using js by (simp add: gs_onReceive_def split_def Let_def)
next
  case False
  then have "gs_onReceive now msg s = (s, [])" by (auto simp: gs_onReceive_def split: option.splits json.splits)
  then show ?thesis using low by simp
qed

lemma gs_step_low:
  assumes wf: "gs_wf s" and low: "gs_low s" and m: "gs_modest (ni_id (gs_self s)) x"
  shows "gs_low (fst (gs_step x s))"
proof -
  obtain r where r: "gs_self_rec s = Some r" "ni_id (mr_info r) = ni_id (gs_self s)" using gs_wf_self [OF wf] by blast
  then have inc: "js_incr (mr_incarnation r) \<le> 2 ^ 53" using low gs_low_rec [OF r(1)] js_incr_low by simp
  have get: "jm_get (gs_members s) (ni_id (gs_self s)) = Some r" using r(1) by (simp add: gs_self_rec_def)
  have put: "gs_low (gs_put (ni_id (gs_self s)) (f r) u)" if "mr_incarnation (f r) = js_incr (mr_incarnation r)" "gs_self u = gs_self s" for f u
    using gs_low_put [of "f r" u] that inc by simp
  show ?thesis
  proof (cases x)
    case (GReceive now msg)
    then show ?thesis using gs_receive_low [OF wf low] m by (simp add: gs_step_def)
  next
    case (GList now)
    then show ?thesis using gs_sweep_low [OF wf low] by (simp add: gs_step_def gs_list_def split_def Let_def)
  next
    case (GTimer now rnd)
    let ?s1 = "gs_put (ni_id (gs_self s)) (r\<lparr>mr_incarnation := js_incr (mr_incarnation r), mr_lastSeen := now\<rparr>) s"
    have "gs_wf ?s1" using r wf by (intro gs_bump_wf) auto
    moreover have "gs_low ?s1" using inc by (intro gs_low_put) simp
    ultimately have "gs_low (fst (gs_sweep now ?s1))" by (rule gs_sweep_low)
    then show ?thesis using GTimer low r by (simp add: gs_step_def gs_onTimer_def gs_tick_def split_def Let_def)
  next
    case (GRegister now rnd n)
    have "gs_low (gs_put (ni_id (gs_self s)) (r\<lparr>mr_info := n, mr_alive := True, mr_incarnation := js_incr (mr_incarnation r), mr_lastSeen := now\<rparr>) s)"
      using inc by (intro gs_low_put) simp
    then show ?thesis using GRegister low r(1) by (simp add: gs_step_def gs_register_def Let_def)
  next
    case (GDeregister rnd i)
    have "gs_low (gs_put (ni_id (gs_self s)) (r\<lparr>mr_alive := False, mr_incarnation := js_incr (mr_incarnation r)\<rparr>) s)"
      using inc by (intro gs_low_put) simp
    then show ?thesis using GDeregister low get
      by (cases "i = ni_id (gs_self s)"; cases "jm_get (gs_members s) i") (simp_all add: gs_step_def gs_deregister_def Let_def gs_low_def gs_rank_def)
  next
    case (GStart now)
    have "gs_low (gs_put (ni_id (gs_self s)) (r\<lparr>mr_alive := True, mr_incarnation := js_incr (mr_incarnation r), mr_lastSeen := now\<rparr>) (s\<lparr>gs_running := True\<rparr>))"
      using gs_low_put [of _ "s\<lparr>gs_running := True\<rparr>"] inc by simp
    then show ?thesis using GStart low r(1) by (simp add: gs_step_def gs_start_def gs_self_rec_def Let_def)
  next
    case (GStop rnd)
    have "gs_low (gs_put (ni_id (gs_self s)) (r\<lparr>mr_alive := False, mr_incarnation := js_incr (mr_incarnation r)\<rparr>) (s\<lparr>gs_running := False, gs_timer := False\<rparr>))"
      using gs_low_put [of _ "s\<lparr>gs_running := False, gs_timer := False\<rparr>"] inc by simp
    then show ?thesis using GStop low r(1) by (simp add: gs_step_def gs_stop_def gs_self_rec_def Let_def)
  qed
qed

lemma gs_steps_low:
  "gs_wf s \<Longrightarrow> gs_low s \<Longrightarrow> list_all (gs_modest (ni_id (gs_self s))) xs \<Longrightarrow>
   gs_wf (fold (\<lambda>x s. fst (gs_step x s)) xs s) \<and> gs_low (fold (\<lambda>x s. fst (gs_step x s)) xs s) \<and>
   gs_self (fold (\<lambda>x s. fst (gs_step x s)) xs s) = gs_self s"
proof (induction xs arbitrary: s)
  case (Cons x xs)
  have r: "gs_wf (fst (gs_step x s))" "gs_self (fst (gs_step x s)) = gs_self s"
    using gs_step_reports [OF Cons.prems(1), of x] by (simp_all add: gs_reports_def)
  have "gs_low (fst (gs_step x s))" using gs_step_low Cons.prems by simp
  then show ?case using Cons.IH [OF r(1)] Cons.prems(3) r(2) by simp
qed simp

text \<open>
  (C32) The guard against counters that freeze a record is incomplete: \<^verbatim>\<open>_isValidEntry\<close> rejects infinities
  and fractions but accepts \<open>2 ^ 53\<close>, beyond which \<^verbatim>\<open>+ 1\<close> no longer moves the number. A peer that merges one forged
  death claim with that incarnation holds the victim dead, and still does after every digest the victim can send: whatever the
  victim did before sending it (refutations of claims up to that incarnation, ticks, registrations, restarts), its own
  record never outranks the claim.
\<close>

theorem gs_forged_incarnation_freezes:
  assumes "gs_wf s" "gs_low s" "list_all (gs_modest (ni_id (gs_self s))) xs"
    and "ge_id e = ni_id (gs_self s)" "ge_incarnation e = 2 ^ 53" "\<not> ge_alive e"
    and "ni_id (gs_self p) \<noteq> ni_id (gs_self s)" "gs_rank p (ni_id (gs_self s)) < Some (2 ^ 53, True)"
  shows "let p' = snd (gs_merge t (gs_wire_entry e) p); s' = fold (\<lambda>x s. fst (gs_step x s)) xs s
    in gs_rank p' (ni_id (gs_self s)) = Some (2 ^ 53, True) \<and>
       gs_rank (fst (gs_onReceive now (gs_wire (gs_message s')) p')) (ni_id (gs_self s)) = Some (2 ^ 53, True)"
proof -
  let ?i = "ni_id (gs_self s)"
  define p' where "p' = snd (gs_merge t (gs_wire_entry e) p)"
  define s' where "s' = fold (\<lambda>x s. fst (gs_step x s)) xs s"
  have "?i \<noteq> []" using gs_wf_self [OF assms(1)] by blast
  then have v: "gs_isValidEntry (gs_wire_entry e) = Some e" using gs_wire_roundtrip assms(4) by simp
  have "gs_rank p' ?i = max (Some (2 ^ 53, True)) (gs_rank p ?i)"
    unfolding p'_def using gs_merge_rank [of ?i p t "gs_wire_entry e"] assms(4-7) v by simp
  then have rank: "gs_rank p' ?i = Some (2 ^ 53, True)" using assms(8) by (metis less_imp_le max_absorb1)
  have self: "gs_self p' = gs_self p" by (simp add: p'_def)
  have s': "gs_wf s'" "gs_rank s' ?i \<le> Some (2 ^ 53, True)"
    using gs_steps_low [OF assms(1-3)] unfolding s'_def gs_low_def by auto
  have "?i \<noteq> ni_id (gs_self p')" using assms(7) self by simp
  then have "gs_rank (fst (gs_onReceive now (gs_wire (gs_message s')) p')) ?i = max (gs_rank p' ?i) (gs_rank s' ?i)" by (rule gs_digest_rank [OF s'(1)])
  then have "gs_rank (fst (gs_onReceive now (gs_wire (gs_message s')) p')) ?i = Some (2 ^ 53, True)"
    unfolding rank using s'(2) by (simp only: max_absorb1)
  then show ?thesis using rank by (simp add: p'_def s'_def)
qed

theorem gs_forged_incarnation_freezes_witness:
  "gs_rank (fst (gs_onReceive 9 (gs_wire (gs_message (fold (\<lambda>x s. fst (gs_step x s))
      [GReceive 3 (JObject [(''members'', JArray [gs_wire_entry (gs_example_entry ''a'' (2 ^ 53) False)])]), GTimer 5000 (\<lambda>_. 0)] (gs_example ''a''))))
    (snd (gs_merge 1 (gs_wire_entry (gs_example_entry ''a'' (2 ^ 53) False)) (gs_example ''b''))))) ''a'' = Some (2 ^ 53, True)"
proof -
  let ?e = "gs_example_entry ''a'' (2 ^ 53) False"
  let ?xs = "[GReceive 3 (JObject [(''members'', JArray [gs_wire_entry ?e])]), GTimer 5000 (\<lambda>_. 0)]"
  have i: "ni_id (gs_self (gs_example ''a'')) = ''a''" "ni_id (gs_self (gs_example ''b'')) = ''b''" by (simp_all add: gs_example_defs)
  have "gs_low (gs_example ''a'')" by (simp add: gs_low_def gs_rank_def gs_example_defs less_eq_prod_def)
  moreover have "list_all (gs_modest ''a'') ?xs"
    by (simp add: gs_modest_def gs_wire_roundtrip gs_example_entry_def)
  moreover have "gs_rank (gs_example ''b'') ''a'' < Some (2 ^ 53, True)" by (simp add: gs_rank_def gs_example_defs)
  ultimately show ?thesis
    using gs_forged_incarnation_freezes [of "gs_example ''a''" ?xs ?e "gs_example ''b''" 1 9] gs_example_wf [of "''a''"]
    by (simp add: gs_example_entry_def i Let_def)
qed

end
