(* ===== verification/Reconciler.thy ===== *)
theory Reconciler
  imports Gossip
begin

text \<open>
  \<^verbatim>\<open>packages/core/src/MembershipReconciler.ts\<close>: snapshots turned into add, remove and update callbacks.
  The handlers are a parameter \<open>hnd\<close> over an environment: given a callback, it says which re-entrant
  calls of \<^verbatim>\<open>_sync\<close> the handler makes (through the membership it may change) and whether it throws.
\<close>

datatype rc_event = OnAdd node_info | OnUpdate node_info | OnRemove string

type_synonym rc_request = "node_info list \<times> bool"

record reconciler =
  rc_ids :: "string list"
  rc_seen :: bool
  rc_watching :: bool
  rc_syncing :: bool
  rc_pending :: "rc_request option"

type_synonym 'e rc_handler = "rc_event \<Rightarrow> 'e \<Rightarrow> rc_request list \<times> bool \<times> 'e"

definition rc_new :: reconciler where
  "rc_new = \<lparr>rc_ids = [], rc_seen = False, rc_watching = False, rc_syncing = False, rc_pending = None\<rparr>"

text \<open>A re-entrant \<^verbatim>\<open>_sync\<close>: only the latest snapshot is kept.\<close>

definition rc_reenter :: "rc_request list \<Rightarrow> reconciler \<Rightarrow> reconciler" where
  "rc_reenter reqs r = (if reqs = [] then r else r\<lparr>rc_pending := Some (last reqs)\<rparr>)"

text \<open>The first loop of \<^verbatim>\<open>_apply\<close>: the callbacks made, whether one threw, the states.\<close>

fun rc_nodes :: "'e rc_handler \<Rightarrow> node_info list \<Rightarrow> reconciler \<Rightarrow> 'e \<Rightarrow> rc_event list \<times> bool \<times> reconciler \<times> 'e" where
  "rc_nodes hnd [] r e = ([], False, r, e)"
| "rc_nodes hnd (n # ns) r e =
     (let (ev, r1) = (if ni_id n \<in> set (rc_ids r) then (OnUpdate n, r)
                      else (OnAdd n, r\<lparr>rc_ids := js_add (ni_id n) (rc_ids r)\<rparr>));
          (reqs, threw, e1) = hnd ev e;
          r2 = rc_reenter reqs r1
      in if threw then ([ev], True, r2, e1)
         else (let (evs, threw', r3, e3) = rc_nodes hnd ns r2 e1 in (ev # evs, threw', r3, e3)))"

text \<open>The second loop, over a copy of the tracked ids.\<close>

fun rc_removes :: "'e rc_handler \<Rightarrow> string set \<Rightarrow> string list \<Rightarrow> reconciler \<Rightarrow> 'e \<Rightarrow> rc_event list \<times> bool \<times> reconciler \<times> 'e" where
  "rc_removes hnd live [] r e = ([], False, r, e)"
| "rc_removes hnd live (i # is) r e =
     (if i \<in> live then rc_removes hnd live is r e
      else (let (reqs, threw, e1) = hnd (OnRemove i) e;
                r2 = rc_reenter reqs (r\<lparr>rc_ids := js_del i (rc_ids r)\<rparr>)
            in if threw then ([OnRemove i], True, r2, e1)
               else (let (evs, threw', r3, e3) = rc_removes hnd live is r2 e1 in (OnRemove i # evs, threw', r3, e3))))"

definition rc_apply :: "'e rc_handler \<Rightarrow> node_info list \<Rightarrow> bool \<Rightarrow> reconciler \<Rightarrow> 'e \<Rightarrow> rc_event list \<times> bool \<times> reconciler \<times> 'e" where
  "rc_apply hnd nodes allowRemove r e =
     (let (evs, threw, r1, e1) = rc_nodes hnd nodes r e
      in if threw \<or> \<not> allowRemove then (evs, threw, r1, e1)
         else (let (evs', threw', r2, e2) = rc_removes hnd (node_ids nodes) (rc_ids r1) r1 e1
               in (evs @ evs', threw', r2, e2)))"

text \<open>
  \<^verbatim>\<open>_sync\<close>. Handlers that re-enter for ever keep it running, so not returning is \<^const>\<open>None\<close>. The result:
  the callbacks in order, whether an exception left it, the states.
\<close>

partial_function (option) rc_sync ::
  "'e rc_handler \<Rightarrow> node_info list \<Rightarrow> bool \<Rightarrow> reconciler \<Rightarrow> 'e \<Rightarrow> (rc_event list \<times> bool \<times> reconciler \<times> 'e) option" where
  "rc_sync hnd nodes allowRemove r e =
     (if rc_syncing r then Some ([], False, r\<lparr>rc_pending := Some (nodes, allowRemove)\<rparr>, e)
      else (let (evs, threw, r1, e1) = rc_apply hnd nodes allowRemove (r\<lparr>rc_syncing := True\<rparr>) e;
                r2 = r1\<lparr>rc_syncing := False\<rparr>
            in if threw then Some (evs, True, r2, e1)
               else (case rc_pending r2 of
                       None \<Rightarrow> Some (evs, False, r2, e1)
                     | Some (nodes', allow') \<Rightarrow>
                         Option.bind (rc_sync hnd nodes' allow' (r2\<lparr>rc_pending := None\<rparr>) e1)
                           (\<lambda>(evs', res). Some (evs @ evs', res)))))"

text \<open>\<^verbatim>\<open>start\<close>, the two callbacks it installs, and \<^verbatim>\<open>dispose\<close>.\<close>

definition rc_start :: "reconciler \<Rightarrow> bool \<times> reconciler" where
  "rc_start r = (if rc_watching r then (False, r) else (True, r\<lparr>rc_watching := True\<rparr>))"

definition rc_onWatch ::
  "'e rc_handler \<Rightarrow> node_info list \<Rightarrow> reconciler \<Rightarrow> 'e \<Rightarrow> (rc_event list \<times> bool \<times> reconciler \<times> 'e) option" where
  "rc_onWatch hnd nodes r e = rc_sync hnd nodes True (r\<lparr>rc_seen := True\<rparr>) e"

definition rc_onList ::
  "'e rc_handler \<Rightarrow> node_info list \<Rightarrow> reconciler \<Rightarrow> 'e \<Rightarrow> (rc_event list \<times> bool \<times> reconciler \<times> 'e) option" where
  "rc_onList hnd nodes r e = (if \<not> rc_seen r then rc_sync hnd nodes False r e else Some ([], False, r, e))"

definition rc_dispose :: "reconciler \<Rightarrow> reconciler" where
  "rc_dispose r = (if rc_watching r then r\<lparr>rc_watching := False\<rparr> else r)"

section \<open>Callbacks as a log\<close>

text \<open>
  The consumer's reading of the callbacks: an id is added only when absent, updated and removed only
  when present; anything else (a double add, a removal of a stranger) is \<^const>\<open>None\<close>.
\<close>

fun rc_replay :: "rc_event list \<Rightarrow> string set \<Rightarrow> string set option" where
  "rc_replay [] S = Some S"
| "rc_replay (OnAdd n # evs) S = (if ni_id n \<in> S then None else rc_replay evs (insert (ni_id n) S))"
| "rc_replay (OnUpdate n # evs) S = (if ni_id n \<in> S then rc_replay evs S else None)"
| "rc_replay (OnRemove i # evs) S = (if i \<in> S then rc_replay evs (S - {i}) else None)"

lemma rc_replay_append: "rc_replay (xs @ ys) S = Option.bind (rc_replay xs S) (rc_replay ys)"
  by (induction xs S rule: rc_replay.induct) auto

lemma rc_reenter_simps [simp]:
  "rc_ids (rc_reenter reqs r) = rc_ids r" "rc_syncing (rc_reenter reqs r) = rc_syncing r"
  "rc_seen (rc_reenter reqs r) = rc_seen r" "rc_watching (rc_reenter reqs r) = rc_watching r"
  by (simp_all add: rc_reenter_def)

lemma rc_nodes_replay:
  "(evs, threw, r', e') = rc_nodes hnd ns r e \<Longrightarrow>
   rc_replay evs (set (rc_ids r)) = Some (set (rc_ids r')) \<and> rc_syncing r' = rc_syncing r \<and>
   (distinct (rc_ids r) \<longrightarrow> distinct (rc_ids r')) \<and>
   (\<not> threw \<longrightarrow> set (rc_ids r') = set (rc_ids r) \<union> node_ids ns)"
proof (induction ns arbitrary: r e evs threw r' e')
  case (Cons n ns)
  obtain reqs th e1 where h: "hnd (if ni_id n \<in> set (rc_ids r) then OnUpdate n else OnAdd n) e = (reqs, th, e1)"
    by (metis prod_cases3)
  let ?r = "rc_reenter reqs (if ni_id n \<in> set (rc_ids r) then r else r\<lparr>rc_ids := js_add (ni_id n) (rc_ids r)\<rparr>)"
  obtain evs2 th2 r2 e2 where s: "rc_nodes hnd ns ?r e1 = (evs2, th2, r2, e2)" by (metis prod_cases4)
  show ?case
    using Cons.IH [OF s [symmetric]] Cons.prems h s
    by (auto simp: Let_def split: if_splits)
qed simp

lemma rc_removes_replay:
  "(evs, threw, r', e') = rc_removes hnd live is r e \<Longrightarrow> distinct is \<Longrightarrow> set is \<subseteq> set (rc_ids r) \<Longrightarrow>
   rc_replay evs (set (rc_ids r)) = Some (set (rc_ids r')) \<and> rc_syncing r' = rc_syncing r \<and>
   (distinct (rc_ids r) \<longrightarrow> distinct (rc_ids r')) \<and>
   (\<not> threw \<longrightarrow> set (rc_ids r') = set (rc_ids r) - (set is - live))"
proof (induction "is" arbitrary: r e evs threw r' e')
  case (Cons i "is")
  show ?case
  proof (cases "i \<in> live")
    case True
    then show ?thesis using Cons.IH [of evs threw r' e' r e] Cons.prems by auto
  next
    case False
    obtain reqs th e1 where h: "hnd (OnRemove i) e = (reqs, th, e1)" by (metis prod_cases3)
    let ?r = "rc_reenter reqs (r\<lparr>rc_ids := js_del i (rc_ids r)\<rparr>)"
    obtain evs2 th2 r2 e2 where s: "rc_removes hnd live is ?r e1 = (evs2, th2, r2, e2)" by (metis prod_cases4)
    show ?thesis
      using Cons.IH [OF s [symmetric]] Cons.prems h s False
      by (auto simp: Let_def split: if_splits)
  qed
qed simp

lemma rc_apply_replay:
  assumes "(evs, threw, r', e') = rc_apply hnd nodes allow r e" "distinct (rc_ids r)"
  shows "rc_replay evs (set (rc_ids r)) = Some (set (rc_ids r')) \<and> rc_syncing r' = rc_syncing r \<and> distinct (rc_ids r') \<and>
    (\<not> threw \<longrightarrow> set (rc_ids r') = (if allow then node_ids nodes else set (rc_ids r) \<union> node_ids nodes))"
proof -
  obtain evs1 th1 r1 e1 where n: "rc_nodes hnd nodes r e = (evs1, th1, r1, e1)" by (metis prod_cases4)
  note R1 = rc_nodes_replay [OF n [symmetric]]
  show ?thesis
  proof (cases "th1 \<or> \<not> allow")
    case True
    then show ?thesis using assms R1 n by (auto simp: rc_apply_def)
  next
    case False
    obtain evs2 th2 r2 e2 where m: "rc_removes hnd (node_ids nodes) (rc_ids r1) r1 e1 = (evs2, th2, r2, e2)"
      by (metis prod_cases4)
    have "distinct (rc_ids r1)" using R1 assms(2) by blast
    note R2 = rc_removes_replay [OF m [symmetric] this order.refl]
    show ?thesis using False assms R1 R2 n m by (auto simp: rc_apply_def rc_replay_append)
  qed
qed

section \<open>Synchronisation returns and reports exactly what changed\<close>

text \<open>The environment's budget for re-entrant calls.\<close>

definition rc_bounded :: "('e \<Rightarrow> nat) \<Rightarrow> 'e rc_handler \<Rightarrow> bool" where
  "rc_bounded mu hnd \<longleftrightarrow>
     (\<forall>ev e. case hnd ev e of (reqs, threw, e') \<Rightarrow> mu e' \<le> mu e \<and> (reqs \<noteq> [] \<longrightarrow> mu e' < mu e))"

lemma rc_boundedD:
  assumes "rc_bounded mu hnd" "hnd ev e = (reqs, threw, e')"
  shows "mu e' \<le> mu e \<and> (reqs \<noteq> [] \<longrightarrow> mu e' < mu e)"
  using assms(1) [unfolded rc_bounded_def, THEN spec [where x = ev], THEN spec [where x = e]] assms(2) by simp

lemma rc_nodes_budget:
  "rc_bounded mu hnd \<Longrightarrow> (evs, threw, r', e') = rc_nodes hnd ns r e \<Longrightarrow>
   mu e' \<le> mu e \<and> (rc_pending r' \<noteq> rc_pending r \<longrightarrow> mu e' < mu e)"
proof (induction ns arbitrary: r e evs threw r' e')
  case (Cons n ns)
  let ?ev = "if ni_id n \<in> set (rc_ids r) then OnUpdate n else OnAdd n"
  obtain reqs th e1 where h: "hnd ?ev e = (reqs, th, e1)" by (metis prod_cases3)
  have b: "mu e1 \<le> mu e \<and> (reqs \<noteq> [] \<longrightarrow> mu e1 < mu e)"
    by (rule rc_boundedD [OF Cons.prems(1) h])
  let ?r = "rc_reenter reqs (if ni_id n \<in> set (rc_ids r) then r else r\<lparr>rc_ids := js_add (ni_id n) (rc_ids r)\<rparr>)"
  obtain evs2 th2 r2 e2 where s: "rc_nodes hnd ns ?r e1 = (evs2, th2, r2, e2)" by (metis prod_cases4)
  have q: "rc_pending ?r \<noteq> rc_pending r \<Longrightarrow> mu e1 < mu e" using b by (auto simp: rc_reenter_def split: if_splits)
  have "rc_nodes hnd (n # ns) r e = (if th then ([?ev], True, ?r, e1) else (?ev # evs2, th2, r2, e2))"
    using h s by (auto simp: Let_def)
  then have "r' = ?r \<and> e' = e1 \<or> r' = r2 \<and> e' = e2" using Cons.prems(2) by (auto split: if_splits)
  then show ?case using Cons.IH [OF Cons.prems(1) s [symmetric]] b q by (metis order.trans order.strict_trans1 order.strict_trans2)
qed simp

lemma rc_removes_budget:
  "rc_bounded mu hnd \<Longrightarrow> (evs, threw, r', e') = rc_removes hnd live is r e \<Longrightarrow>
   mu e' \<le> mu e \<and> (rc_pending r' \<noteq> rc_pending r \<longrightarrow> mu e' < mu e)"
proof (induction "is" arbitrary: r e evs threw r' e')
  case (Cons i "is")
  obtain reqs th e1 where h: "hnd (OnRemove i) e = (reqs, th, e1)" by (metis prod_cases3)
  have b: "mu e1 \<le> mu e \<and> (reqs \<noteq> [] \<longrightarrow> mu e1 < mu e)"
    by (rule rc_boundedD [OF Cons.prems(1) h])
  let ?r = "rc_reenter reqs (r\<lparr>rc_ids := js_del i (rc_ids r)\<rparr>)"
  obtain evs2 th2 r2 e2 where s: "rc_removes hnd live is ?r e1 = (evs2, th2, r2, e2)" by (metis prod_cases4)
  show ?case
  proof (cases "i \<in> live")
    case True
    then show ?thesis using Cons.IH [OF Cons.prems(1), of evs threw r' e' r e] Cons.prems(2) by simp
  next
    case False
    have q: "rc_pending ?r \<noteq> rc_pending r \<Longrightarrow> mu e1 < mu e" using b by (auto simp: rc_reenter_def split: if_splits)
    have "rc_removes hnd live (i # is) r e = (if th then ([OnRemove i], True, ?r, e1) else (OnRemove i # evs2, th2, r2, e2))"
      using h s False by (auto simp: Let_def)
    then have "r' = ?r \<and> e' = e1 \<or> r' = r2 \<and> e' = e2" using Cons.prems(2) by (auto split: if_splits)
    then show ?thesis using Cons.IH [OF Cons.prems(1) s [symmetric]] b q by (metis order.trans order.strict_trans1 order.strict_trans2)
  qed
qed simp

lemma rc_apply_budget:
  assumes "rc_bounded mu hnd" "(evs, threw, r', e') = rc_apply hnd nodes allow r e"
  shows "mu e' \<le> mu e \<and> (rc_pending r' \<noteq> rc_pending r \<longrightarrow> mu e' < mu e)"
proof -
  obtain evs1 th1 r1 e1 where n: "rc_nodes hnd nodes r e = (evs1, th1, r1, e1)" by (metis prod_cases4)
  obtain evs2 th2 r2 e2 where m: "rc_removes hnd (node_ids nodes) (rc_ids r1) r1 e1 = (evs2, th2, r2, e2)"
    by (metis prod_cases4)
  show ?thesis
    using rc_nodes_budget [OF assms(1) n [symmetric]] rc_removes_budget [OF assms(1) m [symmetric]] assms(2) n m
    by (auto simp: rc_apply_def split: if_splits)
qed

lemma rc_sync_total:
  assumes "rc_bounded mu hnd" "\<not> rc_syncing r" "distinct (rc_ids r)" "rc_pending r = None"
  shows "\<exists>evs threw r' e'. rc_sync hnd nodes allow r e = Some (evs, threw, r', e') \<and>
    rc_replay evs (set (rc_ids r)) = Some (set (rc_ids r')) \<and> \<not> rc_syncing r' \<and> distinct (rc_ids r') \<and>
    (\<not> threw \<longrightarrow> rc_pending r' = None)"
  using assms(2-)
proof (induction "mu e" arbitrary: nodes allow r e rule: less_induct)
  case less
  obtain evs threw r1 e1 where a: "rc_apply hnd nodes allow (r\<lparr>rc_syncing := True\<rparr>) e = (evs, threw, r1, e1)"
    by (metis prod_cases4)
  note R = rc_apply_replay [OF a [symmetric]] and B = rc_apply_budget [OF assms(1) a [symmetric]]
  show ?case
  proof (cases "threw \<or> rc_pending r1 = None")
    case True
    then show ?thesis
      using R less.prems a by (subst rc_sync.simps) (cases threw; auto simp: Let_def)
  next
    case False
    then obtain ns al where p: "rc_pending r1 = Some (ns, al)" by auto
    let ?r2 = "r1\<lparr>rc_syncing := False, rc_pending := None\<rparr>"
    have "mu e1 < mu e" using B p less.prems(3) by simp
    moreover have "\<not> rc_syncing ?r2" "distinct (rc_ids ?r2)" "rc_pending ?r2 = None" using R less.prems by auto
    ultimately obtain evs' threw' r' e' where
      s: "rc_sync hnd ns al ?r2 e1 = Some (evs', threw', r', e')" "rc_replay evs' (set (rc_ids ?r2)) = Some (set (rc_ids r'))"
         "\<not> rc_syncing r'" "distinct (rc_ids r')" "\<not> threw' \<longrightarrow> rc_pending r' = None"
      using less.hyps by blast
    then show ?thesis
      using False R less.prems a p by (subst rc_sync.simps) (auto simp: rc_replay_append Let_def)
  qed
qed

text \<open>Handlers that neither re-enter nor throw.\<close>

definition rc_calm :: "'e rc_handler \<Rightarrow> bool" where
  "rc_calm hnd \<longleftrightarrow> (\<forall>ev e. fst (hnd ev e) = [] \<and> \<not> fst (snd (hnd ev e)))"

lemma rc_calmE:
  assumes "rc_calm hnd"
  obtains e' where "hnd ev e = ([], False, e')"
  using assms unfolding rc_calm_def by (metis prod.collapse)

lemma rc_calm_nodes:
  assumes "rc_calm hnd"
  shows "\<exists>evs r' e'. rc_nodes hnd ns r e = (evs, False, r', e') \<and> rc_pending r' = rc_pending r"
proof (induction ns arbitrary: r e)
  case (Cons n ns)
  obtain e1 where "hnd (if ni_id n \<in> set (rc_ids r) then OnUpdate n else OnAdd n) e = ([], False, e1)" by (rule rc_calmE [OF assms])
  then show ?case
    using Cons.IH [of "if ni_id n \<in> set (rc_ids r) then r else r\<lparr>rc_ids := js_add (ni_id n) (rc_ids r)\<rparr>" e1]
    by (auto simp: rc_reenter_def split: if_splits)
qed simp

lemma rc_calm_removes:
  assumes "rc_calm hnd"
  shows "\<exists>evs r' e'. rc_removes hnd live is r e = (evs, False, r', e') \<and> rc_pending r' = rc_pending r"
proof (induction "is" arbitrary: r e)
  case (Cons i "is")
  obtain e1 where "hnd (OnRemove i) e = ([], False, e1)" by (rule rc_calmE [OF assms])
  then show ?case
    using Cons.IH [of r e] Cons.IH [of "r\<lparr>rc_ids := js_del i (rc_ids r)\<rparr>" e1] by (auto simp: rc_reenter_def)
qed simp

lemma rc_calm_apply:
  assumes "rc_calm hnd"
  shows "\<exists>evs r' e'. rc_apply hnd nodes allow r e = (evs, False, r', e') \<and> rc_pending r' = rc_pending r"
proof -
  obtain evs r1 e1 where n: "rc_nodes hnd nodes r e = (evs, False, r1, e1)" "rc_pending r1 = rc_pending r"
    using rc_calm_nodes [OF assms] by blast
  obtain evs' r2 e2 where "rc_removes hnd (node_ids nodes) (rc_ids r1) r1 e1 = (evs', False, r2, e2)" "rc_pending r2 = rc_pending r1"
    using rc_calm_removes [OF assms] by blast
  with n show ?thesis by (auto simp: rc_apply_def)
qed

lemma rc_calm_sync:
  assumes "rc_calm hnd" "\<not> rc_syncing r" "distinct (rc_ids r)" "rc_pending r = None"
  shows "\<exists>evs r' e'. rc_sync hnd nodes True r e = Some (evs, False, r', e') \<and> set (rc_ids r') = node_ids nodes \<and>
    \<not> rc_syncing r' \<and> distinct (rc_ids r') \<and> rc_pending r' = None"
proof -
  obtain evs r1 e1 where a: "rc_apply hnd nodes True (r\<lparr>rc_syncing := True\<rparr>) e = (evs, False, r1, e1)" "rc_pending r1 = None"
    using rc_calm_apply [OF assms(1), of nodes True "r\<lparr>rc_syncing := True\<rparr>" e] assms(4) by auto
  show ?thesis
    using rc_apply_replay [OF a(1) [symmetric]] a assms by (subst rc_sync.simps) (simp add: Let_def)
qed

text \<open>
  (C18) Exactness under re-entrancy: handlers may throw and may change the membership, and so re-enter
  \<^verbatim>\<open>_sync\<close>, as long as they stop doing so eventually. Then \<^verbatim>\<open>_sync\<close> returns, and its callbacks read as a
  consistent log from the ids tracked before to the ids tracked after: no node is added twice, none
  is updated or removed that was not tracked, none is lost.
\<close>

theorem rc_sync_exact:
  assumes "rc_bounded mu hnd" "\<not> rc_syncing r" "distinct (rc_ids r)" "rc_pending r = None"
  shows "\<exists>evs threw r' e'. rc_sync hnd nodes allow r e = Some (evs, threw, r', e') \<and>
    rc_replay evs (set (rc_ids r)) = Some (set (rc_ids r')) \<and> \<not> rc_syncing r' \<and> (\<not> threw \<longrightarrow> rc_pending r' = None)"
  using rc_sync_total [OF assms] by blast

definition rc_example_node :: "string \<Rightarrow> node_info" where
  "rc_example_node i = \<lparr>ni_id = i, ni_region = None, ni_address = None, ni_metadata = None\<rparr>"

text \<open>A handler that, on the first callback, removes every node again; and one that also throws.\<close>

definition rc_example_once :: "nat rc_handler" where
  "rc_example_once ev e = (if e = 0 then ([], False, 0) else ([([], True)], False, e - 1))"

definition rc_example_throw :: "unit rc_handler" where
  "rc_example_throw ev e = ([([], True)], True, e)"

theorem rc_sync_exact_witness:
  "\<exists>evs threw r' e'. rc_sync rc_example_once [rc_example_node ''a''] True rc_new 1 = Some (evs, threw, r', e') \<and>
     rc_replay evs (set (rc_ids rc_new)) = Some (set (rc_ids r')) \<and> \<not> rc_syncing r' \<and> (\<not> threw \<longrightarrow> rc_pending r' = None)"
  by (rule rc_sync_exact [where mu = id]) (auto simp: rc_bounded_def rc_example_once_def rc_new_def)

text \<open>
  A snapshot left over from a failed pass overrides newer ones: when a handler re-enters \<^verbatim>\<open>_sync\<close> and
  then throws, the pending snapshot stays behind, and the next \<^verbatim>\<open>_sync\<close> applies its own snapshot first
  and the stale one after it, so the tracked ids end up those of the older snapshot.
\<close>

lemma rc_stale_snapshot_wins:
  assumes "rc_calm hnd" "\<not> rc_syncing r" "distinct (rc_ids r)" "rc_pending r = Some (old, True)"
  shows "\<exists>evs r' e'. rc_sync hnd nodes True r e = Some (evs, False, r', e') \<and> set (rc_ids r') = node_ids old"
proof -
  obtain evs r1 e1 where a: "rc_apply hnd nodes True (r\<lparr>rc_syncing := True\<rparr>) e = (evs, False, r1, e1)" "rc_pending r1 = Some (old, True)"
    using rc_calm_apply [OF assms(1), of nodes True "r\<lparr>rc_syncing := True\<rparr>" e] assms(4) by auto
  have "distinct (rc_ids r1)" using rc_apply_replay [OF a(1) [symmetric]] assms(3) by simp
  then obtain evs' r' e' where "rc_sync hnd old True (r1\<lparr>rc_syncing := False, rc_pending := None\<rparr>) e1 = Some (evs', False, r', e')"
      "set (rc_ids r') = node_ids old"
    using rc_calm_sync [OF assms(1), of "r1\<lparr>rc_syncing := False, rc_pending := None\<rparr>" old e1] by auto
  with a assms(2) show ?thesis by (subst rc_sync.simps) (auto simp: Let_def)
qed

section \<open>Following a membership\<close>

text \<open>
  A reconciler subscribed to a provider: each notification for it runs \<^verbatim>\<open>_sync\<close> with its handlers, over their
  environment. An exception of a handler leaves the provider's operation as well: the result is \<^const>\<open>None\<close>.
\<close>

fun rc_deliver :: "'e rc_handler \<Rightarrow> watcher \<Rightarrow> notification list \<Rightarrow> reconciler \<Rightarrow> 'e \<Rightarrow> (reconciler \<times> 'e) option" where
  "rc_deliver hnd w [] r e = Some (r, e)"
| "rc_deliver hnd w ((w', ns) # calls) r e =
     (if w' = w
      then (case rc_onWatch hnd ns r e of Some (evs, False, r', e') \<Rightarrow> rc_deliver hnd w calls r' e' | _ \<Rightarrow> None)
      else rc_deliver hnd w calls r e)"

fun rc_follow ::
  "'e rc_handler \<Rightarrow> ('x \<Rightarrow> 's \<Rightarrow> 's \<times> notification list) \<Rightarrow> watcher \<Rightarrow> 'x list \<Rightarrow> 's \<Rightarrow> reconciler \<Rightarrow> 'e \<Rightarrow> ('s \<times> reconciler \<times> 'e) option" where
  "rc_follow hnd step w [] s r e = Some (s, r, e)"
| "rc_follow hnd step w (x # xs) s r e =
     (let (s', calls) = step x s
      in case rc_deliver hnd w calls r e of None \<Rightarrow> None | Some (r', e') \<Rightarrow> rc_follow hnd step w xs s' r' e')"

definition rc_idle :: "reconciler \<Rightarrow> bool" where
  "rc_idle r \<longleftrightarrow> \<not> rc_syncing r \<and> distinct (rc_ids r) \<and> rc_pending r = None"

context membership_feed
begin

lemma deliver_tracks:
  "rc_calm hnd \<Longrightarrow> rc_idle r \<Longrightarrow> set (rc_ids r) = node_ids prev \<Longrightarrow>
   \<exists>r' e'. rc_deliver hnd w calls r e = Some (r', e') \<and> rc_idle r' \<and> set (rc_ids r') = node_ids (seen_after w prev calls)"
proof (induction calls arbitrary: r e prev)
  case (Cons c calls)
  obtain w' ns where c: "c = (w', ns)" by fastforce
  show ?case
  proof (cases "w' = w")
    case True
    obtain evs r1 e1 where "rc_sync hnd ns True (r\<lparr>rc_seen := True\<rparr>) e = Some (evs, False, r1, e1)"
        "set (rc_ids r1) = node_ids ns" "rc_idle r1"
      using rc_calm_sync [OF Cons.prems(1), of "r\<lparr>rc_seen := True\<rparr>" ns e] Cons.prems(2) by (auto simp: rc_idle_def)
    with True c show ?thesis
      using Cons.IH [OF Cons.prems(1), of r1 ns e1] by (simp add: rc_onWatch_def seen_after_def)
  next
    case False
    with c show ?thesis using Cons.IH [of r prev e] Cons.prems by (simp add: seen_after_def)
  qed
qed (simp add: seen_after_def)

lemma follow_tracks:
  "rc_calm hnd \<Longrightarrow> rc_idle r \<Longrightarrow> set (rc_ids r) = node_ids prev \<Longrightarrow>
   \<exists>r' e'. rc_follow hnd step w xs s r e = Some (fst (run_feed w xs s prev), r', e') \<and>
     set (rc_ids r') = node_ids (snd (run_feed w xs s prev))"
proof (induction xs arbitrary: s r e prev)
  case (Cons x xs)
  obtain r1 e1 where "rc_deliver hnd w (snd (step x s)) r e = Some (r1, e1)" "rc_idle r1"
      "set (rc_ids r1) = node_ids (seen_after w prev (snd (step x s)))"
    using deliver_tracks [OF Cons.prems, of w "snd (step x s)" e] by blast
  then show ?case using Cons.IH [OF Cons.prems(1), of r1] by (simp add: split_def Let_def)
qed simp

lemma follow_live:
  assumes "rc_calm hnd" "ok s" "watching s w" "rc_idle r" "set (rc_ids r) = node_ids (live s)"
  shows "\<exists>s' r' e'. rc_follow hnd step w xs s r e = Some (s', r', e') \<and>
    set (rc_ids r') - quiet s = node_ids (live s') - quiet s"
  using follow_tracks [OF assms(1,4,5), of w xs s e] feed_tracks_live [OF assms(2,3) refl, of xs] by fastforce

end

text \<open>
  (C17) A reconciler subscribed to gossip membership stays in step with it: once its tracked ids are those gossip holds
  alive, and as long as its handlers neither throw nor change the membership, they are so after any sequence of
  received messages, ticks, listings, registrations, departures, starts and stops, the node's own id excepted (which
  \<^verbatim>\<open>stop\<close> and refutation change without notifying watchers).
\<close>

theorem rc_follows_gossip:
  assumes "rc_calm hnd" "gs_wf s" "w \<in> set (gs_watchers s)" "rc_idle r" "set (rc_ids r) = node_ids (gs_aliveInfos s)"
  shows "\<exists>s' r' e'. rc_follow hnd gs_feed w xs s r e = Some (s', r', e') \<and>
    set (rc_ids r') - {ni_id (gs_self s)} = node_ids (gs_aliveInfos s') - {ni_id (gs_self s)}"
  using assms by (rule gsf.follow_live)

text \<open>Handlers that count their calls.\<close>

definition rc_example_count :: "nat rc_handler" where
  "rc_example_count ev e = ([], False, e + 1)"

theorem rc_follows_gossip_witness:
  "\<exists>s' r' e'. rc_follow rc_example_count gs_feed 7
      [GReceive 3 (gs_wire (gs_message (gs_example ''b''))), GTimer 5000 (\<lambda>_. 0), GStop (\<lambda>_. 0)] (gs_watch 7 (gs_example ''a''))
      (rc_new\<lparr>rc_ids := [''a'']\<rparr>) 0 = Some (s', r', e') \<and>
    set (rc_ids r') - {''a''} = node_ids (gs_aliveInfos s') - {''a''}"
proof -
  let ?s = "gs_watch 7 (gs_example ''a'')"
  have "rc_calm rc_example_count" by (simp add: rc_calm_def rc_example_count_def)
  moreover have "gs_wf ?s" using gs_example_wf [of "''a''"] by (simp add: gs_watch_def gs_wf_def)
  moreover have "7 \<in> set (gs_watchers ?s)" by (simp add: gs_watch_def)
  moreover have "rc_idle (rc_new\<lparr>rc_ids := [''a'']\<rparr>)" by (simp add: rc_idle_def rc_new_def)
  moreover have "set (rc_ids (rc_new\<lparr>rc_ids := [''a'']\<rparr>)) = node_ids (gs_aliveInfos ?s)"
    by (simp add: gs_watch_def gs_aliveInfos_def gs_example_defs)
  ultimately have "\<exists>s' r' e'. rc_follow rc_example_count gs_feed 7 xs ?s (rc_new\<lparr>rc_ids := [''a'']\<rparr>) 0 = Some (s', r', e') \<and>
      set (rc_ids r') - {ni_id (gs_self ?s)} = node_ids (gs_aliveInfos s') - {ni_id (gs_self ?s)}" for xs
    by (rule rc_follows_gossip)
  moreover have "ni_id (gs_self ?s) = ''a''" by (simp add: gs_watch_def)
  ultimately show ?thesis by metis
qed

text \<open>The same for the in-memory registry, with no exception.\<close>

lemma rc_follows_memory:
  assumes "rc_calm hnd" "mm_wf s" "w \<in> set (mm_watchers s)" "rc_idle r" "set (rc_ids r) = node_ids (mm_snapshot s)"
  shows "\<exists>s' r' e'. rc_follow hnd mm_step w xs s r e = Some (s', r', e') \<and> set (rc_ids r') = node_ids (mm_snapshot s')"
  using mmf.follow_live [OF assms, of xs e] by simp

end
