(* ===== verification/RateLimiter.thy ===== *)
theory RateLimiter
  imports Prelude
begin

text \<open>
  \<^verbatim>\<open>packages/signaling/src/RateLimiter.ts\<close>: the sliding-window limiter a peer's inbound frames pass
  through. \<open>rl_allow\<close> is one call of \<^verbatim>\<open>allow(now)\<close>; \<open>rl_run\<close> a sequence of calls and the times it
  let through.
\<close>

record rate_limiter =
  rl_hits :: "int list"
  rl_maxPerWindow :: int
  rl_windowMs :: int

definition rl_new :: "int \<Rightarrow> int \<Rightarrow> rate_limiter" where
  "rl_new maxPerWindow windowMs = \<lparr>rl_hits = [], rl_maxPerWindow = maxPerWindow, rl_windowMs = windowMs\<rparr>"

text \<open>The \<^verbatim>\<open>while\<close> loop that counts the expired hits at the front of the array.\<close>

fun rl_expired :: "int \<Rightarrow> int list \<Rightarrow> nat" where
  "rl_expired cutoff [] = 0"
| "rl_expired cutoff (h # hs) = (if h \<le> cutoff then Suc (rl_expired cutoff hs) else 0)"

definition rl_allow :: "rate_limiter \<Rightarrow> int \<Rightarrow> bool \<times> rate_limiter" where
  "rl_allow rl now =
     (let cutoff = now - rl_windowMs rl;
          hits = drop (rl_expired cutoff (rl_hits rl)) (rl_hits rl)
      in if int (length hits) \<ge> rl_maxPerWindow rl then (False, rl\<lparr>rl_hits := hits\<rparr>)
         else (True, rl\<lparr>rl_hits := hits @ [now]\<rparr>))"

fun rl_run :: "rate_limiter \<Rightarrow> int list \<Rightarrow> int list \<times> rate_limiter" where
  "rl_run rl [] = ([], rl)"
| "rl_run rl (t # ts) =
     (let (ok, rl') = rl_allow rl t; (acc, rl'') = rl_run rl' ts
      in ((if ok then t # acc else acc), rl''))"

section \<open>What the limiter retains\<close>

lemma rl_expired_dropWhile: "drop (rl_expired c hs) hs = dropWhile (\<lambda>h. h \<le> c) hs"
  by (induction hs) auto

lemma dropWhile_sorted_filter:
  "sorted hs \<Longrightarrow> dropWhile (\<lambda>h. h \<le> (c::int)) hs = filter (\<lambda>h. c < h) hs"
proof (induction hs)
  case (Cons h hs)
  show ?case
  proof (cases "h \<le> c")
    case False
    with Cons.prems have "\<forall>x \<in> set hs. c < x" by auto
    with False show ?thesis by (simp add: filter_id_conv)
  qed (use Cons in simp)
qed simp

text \<open>
  \<open>rl_inv acc now rl\<close>: with \<open>acc\<close> the times accepted so far and \<open>now\<close> the time of the last call,
  the retained hits are the accepted times younger than some cutoff that is at least a window old.
\<close>

definition rl_inv :: "int list \<Rightarrow> int \<Rightarrow> rate_limiter \<Rightarrow> bool" where
  "rl_inv acc now rl \<longleftrightarrow> sorted acc \<and> (\<forall>a \<in> set acc. a \<le> now) \<and> 0 < rl_windowMs rl \<and>
     (\<exists>c \<le> now - rl_windowMs rl. rl_hits rl = filter (\<lambda>h. c < h) acc)"

lemma rl_allow_hits:
  assumes "rl_inv acc now rl" "now \<le> t"
  shows "drop (rl_expired (t - rl_windowMs rl) (rl_hits rl)) (rl_hits rl) =
    filter (\<lambda>h. t - rl_windowMs rl < h) acc"
proof -
  from assms(1) obtain c where c: "c \<le> now - rl_windowMs rl" "rl_hits rl = filter (\<lambda>h. c < h) acc"
    and srt: "sorted acc" by (auto simp: rl_inv_def)
  have "sorted (rl_hits rl)" using c srt by (simp add: sorted_wrt_filter)
  then have "drop (rl_expired (t - rl_windowMs rl) (rl_hits rl)) (rl_hits rl) =
      filter (\<lambda>h. t - rl_windowMs rl < h) (rl_hits rl)"
    by (simp add: rl_expired_dropWhile dropWhile_sorted_filter)
  also have "\<dots> = filter (\<lambda>h. t - rl_windowMs rl < h) acc"
    unfolding c(2) filter_filter
    by (rule filter_cong [OF refl]) (use c(1) assms(2) in auto)
  finally show ?thesis .
qed

lemma rl_allow_inv:
  assumes "rl_inv acc now rl" "now \<le> t" "rl_allow rl t = (ok, rl')"
  shows "ok \<longleftrightarrow> int (length (filter (\<lambda>h. t - rl_windowMs rl < h) acc)) < rl_maxPerWindow rl"
    and "rl_inv (if ok then acc @ [t] else acc) t rl'"
    and "rl_windowMs rl' = rl_windowMs rl" "rl_maxPerWindow rl' = rl_maxPerWindow rl"
proof -
  let ?w = "rl_windowMs rl"
  have hits: "drop (rl_expired (t - ?w) (rl_hits rl)) (rl_hits rl) = filter (\<lambda>h. t - ?w < h) acc"
    by (rule rl_allow_hits [OF assms(1,2)])
  have allow: "rl_allow rl t =
      (if int (length (filter (\<lambda>h. t - ?w < h) acc)) \<ge> rl_maxPerWindow rl
       then (False, rl\<lparr>rl_hits := filter (\<lambda>h. t - ?w < h) acc\<rparr>)
       else (True, rl\<lparr>rl_hits := filter (\<lambda>h. t - ?w < h) acc @ [t]\<rparr>))"
    by (simp only: rl_allow_def Let_def hits)
  have inv: "sorted acc" "\<forall>a \<in> set acc. a \<le> t" "0 < ?w"
    using assms(1,2) by (auto simp: rl_inv_def)
  show "ok \<longleftrightarrow> int (length (filter (\<lambda>h. t - ?w < h) acc)) < rl_maxPerWindow rl"
    and "rl_windowMs rl' = ?w" and "rl_maxPerWindow rl' = rl_maxPerWindow rl"
    using assms(3) by (auto simp: allow split: if_splits)
  show "rl_inv (if ok then acc @ [t] else acc) t rl'"
  proof (cases ok)
    case True
    then have "rl' = rl\<lparr>rl_hits := filter (\<lambda>h. t - ?w < h) (acc @ [t])\<rparr>"
      using assms(3) inv by (auto simp: allow split: if_splits)
    then show ?thesis using inv True by (auto simp: rl_inv_def sorted_append)
  next
    case False
    then have "rl' = rl\<lparr>rl_hits := filter (\<lambda>h. t - ?w < h) acc\<rparr>"
      using assms(3) by (auto simp: allow split: if_splits)
    then show ?thesis using inv False by (auto simp: rl_inv_def)
  qed
qed

lemma rl_inv_new: "0 < w \<Longrightarrow> rl_inv [] now (rl_new m w)"
  by (auto simp: rl_inv_def rl_new_def)

section \<open>The reference and the window bound\<close>

text \<open>The reference: a call is let through iff fewer than \<open>m\<close> were let through in the window before it.\<close>

fun rl_ref :: "int \<Rightarrow> int \<Rightarrow> int list \<Rightarrow> int list \<Rightarrow> int list" where
  "rl_ref m w acc [] = []"
| "rl_ref m w acc (t # ts) =
     (if int (length (filter (\<lambda>h. t - w < h) acc)) < m then t # rl_ref m w (acc @ [t]) ts
      else rl_ref m w acc ts)"

lemma rl_run_ref:
  "rl_inv acc now rl \<Longrightarrow> sorted (now # ts) \<Longrightarrow>
     fst (rl_run rl ts) = rl_ref (rl_maxPerWindow rl) (rl_windowMs rl) acc ts"
proof (induction ts arbitrary: acc now rl)
  case (Cons t ts)
  obtain ok rl' where step: "rl_allow rl t = (ok, rl')" by (cases "rl_allow rl t")
  have le: "now \<le> t" and srt: "sorted (t # ts)" using Cons.prems(2) by auto
  note inv = rl_allow_inv [OF Cons.prems(1) le step]
  have "fst (rl_run rl' ts) =
      rl_ref (rl_maxPerWindow rl) (rl_windowMs rl) (if ok then acc @ [t] else acc) ts"
    using Cons.IH [OF inv(2) srt] inv(3,4) by simp
  then show ?case using inv(1) step by (simp add: split_def)
qed simp

definition rl_window_ok :: "int \<Rightarrow> int \<Rightarrow> int list \<Rightarrow> bool" where
  "rl_window_ok m w acc \<longleftrightarrow> (\<forall>u. int (length (filter (\<lambda>x. u - w < x \<and> x \<le> u) acc)) \<le> max 0 m)"

lemma rl_window_ok_snoc:
  assumes "rl_window_ok m w acc" "int (length (filter (\<lambda>h. t - w < h) acc)) < m"
  shows "rl_window_ok m w (acc @ [t])"
  unfolding rl_window_ok_def
proof
  fix u
  show "int (length (filter (\<lambda>x. u - w < x \<and> x \<le> u) (acc @ [t]))) \<le> max 0 m"
  proof (cases "u - w < t \<and> t \<le> u")
    case True
    have "length (filter (\<lambda>x. u - w < x \<and> x \<le> u) acc) \<le> length (filter (\<lambda>h. t - w < h) acc)"
      using True by (induction acc) auto
    then show ?thesis using True assms(2) by simp
  next
    case False
    then show ?thesis using assms(1) by (auto simp: rl_window_ok_def)
  qed
qed

lemma rl_ref_window: "rl_window_ok m w acc \<Longrightarrow> rl_window_ok m w (acc @ rl_ref m w acc ts)"
proof (induction ts arbitrary: acc)
  case (Cons t ts)
  show ?case
  proof (cases "int (length (filter (\<lambda>h. t - w < h) acc)) < m")
    case True
    then have "rl_window_ok m w (acc @ [t])" using Cons.prems by (intro rl_window_ok_snoc)
    from Cons.IH [OF this] True show ?thesis by simp
  next
    case False
    then show ?thesis using Cons by simp
  qed
qed simp

text \<open>
  (C14) On a clock that does not go backwards the limiter is exact: it lets a frame through iff
  fewer than \<^verbatim>\<open>maxPerWindow\<close> frames were let through in the window before it, and therefore no
  window of \<^verbatim>\<open>windowMs\<close> milliseconds, wherever it is placed, holds more than \<^verbatim>\<open>maxPerWindow\<close>
  accepted frames.
\<close>

theorem rl_sliding_window:
  assumes "sorted ts" "0 < w"
  shows "fst (rl_run (rl_new m w) ts) = rl_ref m w [] ts \<and>
    int (length (filter (\<lambda>x. u - w < x \<and> x \<le> u) (fst (rl_run (rl_new m w) ts)))) \<le> max 0 m"
proof -
  have "\<exists>now. sorted (now # ts)" using assms(1) by (intro exI [of _ "hd (ts @ [0])"]) (cases ts; simp)
  then have eq: "fst (rl_run (rl_new m w) ts) = rl_ref m w [] ts"
    using rl_run_ref [OF rl_inv_new [OF assms(2)], of _ ts m] by (auto simp: rl_new_def)
  moreover have "rl_window_ok m w ([] @ rl_ref m w [] ts)"
    by (rule rl_ref_window) (simp add: rl_window_ok_def)
  ultimately show ?thesis by (simp add: rl_window_ok_def)
qed

theorem rl_sliding_window_witness:
  "fst (rl_run (rl_new 2 10) [0, 1, 2, 9, 10, 11]) = [0, 1, 10, 11] \<and>
   length (filter (\<lambda>x. 11 - 10 < x \<and> x \<le> 11) (fst (rl_run (rl_new 2 10) [0, 1, 2, 9, 10, 11]))) \<le> 2"
  using rl_sliding_window [of "[0, 1, 2, 9, 10, 11]" 10 2 11] by simp

end
