(* ===== verification/Peer.thy ===== *)
theory Peer
  imports RateLimiter "HOL-Library.Sublist"
begin

text \<open>
  \<^verbatim>\<open>packages/signaling/src/Peer.ts\<close>, with the message and close constants of \<^verbatim>\<open>protocol.ts\<close> and
  \<^verbatim>\<open>types.ts\<close>. A peer is known by its connection (a number); the sockets (the \<^verbatim>\<open>ws\<close> package) are a
  parameter \<open>ws_env\<close>: whether a socket is open, how many bytes it buffers and whether a send fails, as
  functions of the actions performed so far. Operations return the log of actions, extended.
\<close>

type_synonym conn = nat

section \<open>Constants and messages\<close>

definition CloseCode_Normal :: nat where "CloseCode_Normal = 1000"
definition CloseCode_GoingAway :: nat where "CloseCode_GoingAway = 1001"
definition CloseCode_PolicyViolation :: nat where "CloseCode_PolicyViolation = 1008"

datatype CloseReason =
    ReplacedByReconnection
  | HeartbeatTimeout
  | MissingRoomOrPeer
  | InvalidAuthPayload
  | AuthFailed
  | ServerStopping
  | KickedReason
  | RoomFull
  | RoomClosing
  | ServerAtCapacity
  | SendBufferOverflow
  | WrongNode

fun close_reason :: "CloseReason \<Rightarrow> utf16" where
  "close_reason ReplacedByReconnection = u16 ''Replaced by reconnection''"
| "close_reason HeartbeatTimeout = u16 ''Heartbeat timeout''"
| "close_reason MissingRoomOrPeer = u16 ''Missing roomId or peerId''"
| "close_reason InvalidAuthPayload = u16 ''Invalid auth payload''"
| "close_reason AuthFailed = u16 ''Auth failed''"
| "close_reason ServerStopping = u16 ''Server stopping''"
| "close_reason KickedReason = u16 ''Kicked from room''"
| "close_reason RoomFull = u16 ''Room is full''"
| "close_reason RoomClosing = u16 ''Room is closing''"
| "close_reason ServerAtCapacity = u16 ''Server at capacity''"
| "close_reason SendBufferOverflow = u16 ''Send buffer overflow''"
| "close_reason WrongNode = u16 ''Room owned by another node '' @ [0x2014] @ u16 '' reconnect to owner''"

type_synonym metadata = "(string, string) jsmap"

text \<open>\<^verbatim>\<open>ClientMessage\<close> and \<^verbatim>\<open>ServerMessage\<close>; an opaque payload that may be absent is a \<open>json option\<close>.\<close>

datatype client_message =
    CSignal string "json option"
  | CPong
  | CBroadcast string "json option"

datatype server_message =
    SRoomJoined nat string string "string list" "(string \<times> string) list" "(string \<times> metadata) list"
      "string option" "json option"
  | SPeerJoined string string metadata
  | SPeerLeft string
  | SPresenceOnline string
  | SPresenceOffline string
  | SKicked string "utf16 option"
  | SSignal string "json option"
  | SBroadcast string string json int
  | SError string string
  | SPing
  | SRoleChanged string string

definition PROTOCOL_VERSION :: nat where "PROTOCOL_VERSION = 1"

text \<open>Actions: socket operations and the events of peers and rooms (rooms by instance).\<close>

datatype sig_out =
    WsSend conn server_message
  | WsClose conn nat utf16
  | PeerError conn
  | PeerRateLimited conn
  | PeerPong conn
  | RoomPeerJoined nat conn
  | RoomPeerLeft nat conn
  | RoomClosed nat
  | RoomPeerError nat string
  | RoomPeerKicked nat string "utf16 option"
  | ServerRoomCreated nat
  | ServerRoomClosed string
  | AuditLog string string "string option"
  | MetricAdd string
  | Redirected string string "string option"

type_synonym log = "sig_out list"

section \<open>Close reasons\<close>

definition is_high :: "16 word \<Rightarrow> bool" where
  "is_high c \<longleftrightarrow> 0xd800 \<le> c \<and> c \<le> 0xdbff"

definition is_low :: "16 word \<Rightarrow> bool" where
  "is_low c \<longleftrightarrow> 0xdc00 \<le> c \<and> c \<le> 0xdfff"

text \<open>
  \<^verbatim>\<open>Buffer.byteLength(s, 'utf8')\<close>: a surrogate pair takes four bytes, a lone surrogate is encoded as the
  replacement character in three.
\<close>

fun byteLength :: "utf16 \<Rightarrow> nat" where
  "byteLength [] = 0"
| "byteLength [c] = (if c < 0x80 then 1 else if c < 0x800 then 2 else 3)"
| "byteLength (c # d # s) =
     (if is_high c \<and> is_low d then 4 + byteLength s
      else (if c < 0x80 then 1 else if c < 0x800 then 2 else 3) + byteLength (d # s))"

function trunc_loop :: "nat \<Rightarrow> utf16 \<Rightarrow> utf16" where
  "trunc_loop maxBytes out = (if byteLength out > maxBytes then trunc_loop maxBytes (butlast out) else out)"
  by pat_completeness auto
termination
proof (relation "measure (\<lambda>(m, out). length out)")
  fix m out
  assume "m < byteLength out"
  then have "out \<noteq> []" by auto
  then show "((m, butlast out), (m, out)) \<in> measure (\<lambda>(m, out). length out)" by simp
qed simp

declare trunc_loop.simps [simp del]

definition truncateUtf8 :: "utf16 \<Rightarrow> nat \<Rightarrow> utf16" where
  "truncateUtf8 s maxBytes =
     (if byteLength s \<le> maxBytes then s
      else (let out = trunc_loop maxBytes s
            in if length out > 0 \<and> is_high (last out) then butlast out else out))"

section \<open>Peers\<close>

record peer =
  pr_id :: string
  pr_role :: string
  pr_metadata :: metadata
  pr_lastPong :: int
  pr_admitted :: bool
  pr_rateLimiter :: "rate_limiter option"
  pr_maxBufferedBytes :: int

record ws_env =
  ws_open :: "log \<Rightarrow> conn \<Rightarrow> bool"
  ws_buffered :: "log \<Rightarrow> conn \<Rightarrow> int"
  ws_sendFails :: "log \<Rightarrow> conn \<Rightarrow> bool"

text \<open>The peers by connection: room and connection handler share the object.\<close>

type_synonym peers = "conn \<Rightarrow> peer"

definition DEFAULT_MAX_BUFFERED_BYTES :: int where
  "DEFAULT_MAX_BUFFERED_BYTES = 16 * 1024 * 1024"

definition peer_new :: "int \<Rightarrow> string \<Rightarrow> string option \<Rightarrow> metadata option \<Rightarrow> int option \<Rightarrow> int option \<Rightarrow> peer" where
  "peer_new now i role metadata maxMessagesPerSecond maxBufferedBytes =
     \<lparr>pr_id = i, pr_role = (case role of Some r \<Rightarrow> r | None \<Rightarrow> ''''),
      pr_metadata = (case metadata of Some m \<Rightarrow> m | None \<Rightarrow> []),
      pr_lastPong = now, pr_admitted = False,
      pr_rateLimiter = map_option (\<lambda>n. rl_new n 1000) maxMessagesPerSecond,
      pr_maxBufferedBytes = (case maxBufferedBytes of Some b \<Rightarrow> b | None \<Rightarrow> DEFAULT_MAX_BUFFERED_BYTES)\<rparr>"

definition peer_setRole :: "string \<Rightarrow> peer \<Rightarrow> peer" where
  "peer_setRole role p = p\<lparr>pr_role := role\<rparr>"

definition peer_admit :: "peer \<Rightarrow> peer" where
  "peer_admit p = p\<lparr>pr_admitted := True\<rparr>"

definition peer_isAlive :: "int \<Rightarrow> peer \<Rightarrow> bool" where
  "peer_isAlive deadline p \<longleftrightarrow> pr_lastPong p \<ge> deadline"

definition peer_disconnect :: "conn \<Rightarrow> nat \<Rightarrow> utf16 \<Rightarrow> log \<Rightarrow> log" where
  "peer_disconnect c code reason l = l @ [WsClose c code (truncateUtf8 reason 123)]"

text \<open>\<^verbatim>\<open>send\<close>: whether it throws, and the log.\<close>

definition peer_send :: "ws_env \<Rightarrow> peers \<Rightarrow> conn \<Rightarrow> server_message \<Rightarrow> log \<Rightarrow> bool \<times> log" where
  "peer_send w ps c msg l =
     (if \<not> ws_open w l c then (True, l)
      else if ws_buffered w l c > pr_maxBufferedBytes (ps c)
        then (False, peer_disconnect c CloseCode_PolicyViolation (close_reason SendBufferOverflow) (l @ [PeerError c]))
      else if ws_sendFails w l c then (True, l @ [PeerError c])
      else (False, l @ [WsSend c msg]))"

definition peer_ping :: "ws_env \<Rightarrow> peers \<Rightarrow> conn \<Rightarrow> log \<Rightarrow> log" where
  "peer_ping w ps c l = snd (peer_send w ps c SPing l)"

text \<open>
  \<^verbatim>\<open>handleMessage\<close>. What \<^verbatim>\<open>JSON.parse\<close> and the message schema make of a frame is a parameter; the result
  says what the connection's callbacks are to do.
\<close>

datatype decoded = BadJson | BadSchema | Decoded client_message

datatype peer_action = NoAction | DoError | DoRateLimited | DoSignal string "json option" | DoPong | DoBroadcast string json

definition nullish_null :: "json option \<Rightarrow> json" where
  "nullish_null d = (case d of None \<Rightarrow> JNull | Some j \<Rightarrow> j)"

definition peer_handleMessage :: "(utf16 \<Rightarrow> decoded) \<Rightarrow> int \<Rightarrow> utf16 \<Rightarrow> peer \<Rightarrow> peer_action \<times> peer" where
  "peer_handleMessage decode now raw p =
     (let (allowed, rl) = (case pr_rateLimiter p of
                             None \<Rightarrow> (True, None)
                           | Some r \<Rightarrow> (let (ok, r') = rl_allow r now in (ok, Some r')));
          p1 = p\<lparr>pr_rateLimiter := rl\<rparr>
      in if \<not> allowed then (DoRateLimited, p1)
         else (let p2 = p1\<lparr>pr_lastPong := now\<rparr>
               in case decode raw of
                    BadJson \<Rightarrow> (DoError, p2)
                  | BadSchema \<Rightarrow> (DoError, p2)
                  | Decoded (CSignal to d) \<Rightarrow> if \<not> pr_admitted p2 then (NoAction, p2) else (DoSignal to d, p2)
                  | Decoded CPong \<Rightarrow> (DoPong, p2\<lparr>pr_lastPong := now\<rparr>)
                  | Decoded (CBroadcast ch d) \<Rightarrow>
                      if \<not> pr_admitted p2 then (NoAction, p2) else (DoBroadcast ch (nullish_null d), p2)))"

section \<open>Close reasons fit\<close>











section \<open>Inbound frames\<close>

text \<open>
  A frame refused by the rate limiter changes nothing but the limiter, and a peer that has not been
  admitted relays nothing.
\<close>

lemma peer_handleMessage_gate:
  "\<not> pr_admitted p \<Longrightarrow> fst (peer_handleMessage decode now raw p) \<in> {NoAction, DoError, DoRateLimited, DoPong}"
  by (auto simp: peer_handleMessage_def Let_def split_def split: decoded.splits client_message.splits option.splits)

lemma peer_handleMessage_frame:
  "pr_id (snd (peer_handleMessage decode now raw p)) = pr_id p"
  "pr_role (snd (peer_handleMessage decode now raw p)) = pr_role p"
  "pr_metadata (snd (peer_handleMessage decode now raw p)) = pr_metadata p"
  "pr_admitted (snd (peer_handleMessage decode now raw p)) = pr_admitted p"
  by (auto simp: peer_handleMessage_def Let_def split_def split: decoded.splits client_message.splits option.splits)

lemma peer_send_shape:
  "snd (peer_send w ps c msg l) = l \<and> fst (peer_send w ps c msg l) \<or>
   (\<exists>xs. snd (peer_send w ps c msg l) = l @ xs \<and>
      xs \<in> {[WsSend c msg], [PeerError c],
            [PeerError c, WsClose c CloseCode_PolicyViolation (truncateUtf8 (close_reason SendBufferOverflow) 123)]})"
  by (simp add: peer_send_def peer_disconnect_def)

end
