(* ===== verification/Room.thy ===== *)
theory Room
  imports Peer
begin

text \<open>
  \<^verbatim>\<open>packages/signaling/src/Room.ts\<close>: the life cycle of a room, joining (with replacement of an earlier
  connection of the same peer), kicking, relaying, broadcasting, expiry. A room holds connections; the
  peer objects are in the heap \<open>ps\<close>. Every operation takes the action log and returns it extended.
  Timers are recorded as armed or not; their callbacks are \<open>rm_forceClose\<close>.
\<close>

datatype RoomState = Creating | Active | Closing | Closed

fun LEGAL_TRANSITIONS :: "RoomState \<Rightarrow> RoomState list" where
  "LEGAL_TRANSITIONS Creating = [Active, Closing, Closed]"
| "LEGAL_TRANSITIONS Active = [Closing, Closed]"
| "LEGAL_TRANSITIONS Closing = [Closed]"
| "LEGAL_TRANSITIONS Closed = []"

definition room_move :: "RoomState \<Rightarrow> RoomState \<Rightarrow> RoomState \<times> bool" where
  "room_move s next =
     (if s = next then (s, False) else if next \<notin> set (LEGAL_TRANSITIONS s) then (s, False) else (next, True))"

record room =
  rm_id :: string
  rm_inst :: nat
  rm_state :: RoomState
  rm_peers :: "(string, conn) jsmap"
  rm_maxPeers :: "int option"
  rm_peerMeta :: "(string, metadata) jsmap"
  rm_idleTimeoutMs :: "int option"
  rm_durationTimer :: bool
  rm_idleTimer :: bool
  rm_keepAliveOnEmpty :: bool

record room_opts =
  ro_maxPeers :: "int option"
  ro_maxDurationMs :: "int option"
  ro_idleTimeoutMs :: "int option"
  ro_keepAliveOnEmpty :: "bool option"

definition rm_new :: "nat \<Rightarrow> string \<Rightarrow> room_opts \<Rightarrow> room" where
  "rm_new inst i opts =
     \<lparr>rm_id = i, rm_inst = inst, rm_state = Creating, rm_peers = [], rm_maxPeers = ro_maxPeers opts, rm_peerMeta = [],
      rm_idleTimeoutMs = ro_idleTimeoutMs opts, rm_durationTimer = (ro_maxDurationMs opts \<noteq> None), rm_idleTimer = False,
      rm_keepAliveOnEmpty = (case ro_keepAliveOnEmpty opts of Some b \<Rightarrow> b | None \<Rightarrow> False)\<rparr>"

definition rm_transitionTo :: "RoomState \<Rightarrow> room \<Rightarrow> room" where
  "rm_transitionTo next r = r\<lparr>rm_state := fst (room_move (rm_state r) next)\<rparr>"

definition rm_clearTimers :: "room \<Rightarrow> room" where
  "rm_clearTimers r = r\<lparr>rm_durationTimer := False, rm_idleTimer := False\<rparr>"

definition rm_resetIdleTimer :: "room \<Rightarrow> room" where
  "rm_resetIdleTimer r =
     (if rm_idleTimeoutMs r = None \<or> rm_state r \<noteq> Active then r else r\<lparr>rm_idleTimer := True\<rparr>)"

definition rm_getPeers :: "room \<Rightarrow> conn list" where
  "rm_getPeers r = jm_values (rm_peers r)"

definition rm_getPeerCount :: "room \<Rightarrow> nat" where
  "rm_getPeerCount r = length (rm_peers r)"

section \<open>Sending\<close>

fun rm_send_loop ::
  "ws_env \<Rightarrow> peers \<Rightarrow> nat \<Rightarrow> server_message \<Rightarrow> string option \<Rightarrow> (string \<times> conn) list \<Rightarrow> log \<Rightarrow> string list \<times> log" where
  "rm_send_loop w ps inst msg excl [] l = ([], l)"
| "rm_send_loop w ps inst msg excl ((i, c) # es) l =
     (if excl = Some i then rm_send_loop w ps inst msg excl es l
      else (let (threw, l1) = peer_send w ps c msg l in
            if threw
            then (let (failed, l2) = rm_send_loop w ps inst msg excl es (l1 @ [RoomPeerError inst i]) in (i # failed, l2))
            else rm_send_loop w ps inst msg excl es l1))"

definition rm_sendToAll ::
  "ws_env \<Rightarrow> peers \<Rightarrow> server_message \<Rightarrow> string option \<Rightarrow> room \<times> log \<Rightarrow> string list \<times> room \<times> log" where
  "rm_sendToAll w ps msg excl rl =
     (let (r, l) = rl; r1 = rm_resetIdleTimer r;
          (failed, l1) = rm_send_loop w ps (rm_inst r1) msg excl (rm_peers r1) l
      in (failed, r1, l1))"

definition rm_broadcast :: "ws_env \<Rightarrow> peers \<Rightarrow> server_message \<Rightarrow> room \<times> log \<Rightarrow> string list \<times> room \<times> log" where
  "rm_broadcast w ps msg rl = rm_sendToAll w ps msg None rl"

definition rm_broadcastExcept ::
  "ws_env \<Rightarrow> peers \<Rightarrow> string \<Rightarrow> server_message \<Rightarrow> room \<times> log \<Rightarrow> string list \<times> room \<times> log" where
  "rm_broadcastExcept w ps excl msg rl = rm_sendToAll w ps msg (Some excl) rl"

definition rm_relay ::
  "ws_env \<Rightarrow> peers \<Rightarrow> string \<Rightarrow> string \<Rightarrow> json option \<Rightarrow> room \<times> log \<Rightarrow> bool \<times> room \<times> log" where
  "rm_relay w ps fromId toId d rl =
     (let (r, l) = rl; r1 = rm_resetIdleTimer r
      in case jm_get (rm_peers r1) toId of
           None \<Rightarrow> (False, r1, l)
         | Some c \<Rightarrow>
             (let (threw, l1) = peer_send w ps c (SSignal fromId d) l
              in if threw then (False, r1, l1 @ [RoomPeerError (rm_inst r1) toId]) else (True, r1, l1)))"

section \<open>Joining\<close>

datatype add_result = Added | Refused | AddThrew

definition rm_refuse :: "conn \<Rightarrow> CloseReason \<Rightarrow> room \<times> log \<Rightarrow> add_result \<times> room \<times> log" where
  "rm_refuse c reason rl =
     (Refused, fst rl, peer_disconnect c CloseCode_PolicyViolation (close_reason reason) (snd rl))"

text \<open>The \<^verbatim>\<open>room-joined\<close> message for a peer already in the map.\<close>

definition rm_joined_message :: "peers \<Rightarrow> conn \<Rightarrow> json list option \<Rightarrow> room \<Rightarrow> server_message" where
  "rm_joined_message ps c ice r =
     (let others = filter (\<lambda>(i, p). i \<noteq> pr_id (ps c)) (rm_peers r)
      in SRoomJoined PROTOCOL_VERSION (rm_id r) (pr_id (ps c)) (map fst others)
           (map (\<lambda>(i, p). (i, pr_role (ps p))) (filter (\<lambda>(i, p). pr_role (ps p) \<noteq> '''') others))
           (rm_peerMeta r)
           (if pr_role (ps c) \<noteq> '''' then Some (pr_role (ps c)) else None)
           (case ice of Some xs \<Rightarrow> if length xs > 0 then Some (JArray xs) else None | None \<Rightarrow> None))"

text \<open>Entering the map: an earlier connection of the same peer is closed and reported as left.\<close>

definition rm_enter :: "peers \<Rightarrow> conn \<Rightarrow> room \<times> log \<Rightarrow> room \<times> log" where
  "rm_enter ps c rl =
     (let (r, l) = rl; i = pr_id (ps c);
          l1 = (case jm_get (rm_peers r) i of
                  Some old \<Rightarrow> peer_disconnect old CloseCode_Normal (close_reason ReplacedByReconnection) l @ [RoomPeerLeft (rm_inst r) old]
                | None \<Rightarrow> l)
      in (r\<lparr>rm_peers := jm_set i c (rm_peers r),
            rm_peerMeta := (if length (pr_metadata (ps c)) > 0 then jm_set i (pr_metadata (ps c)) (rm_peerMeta r)
                            else jm_delete i (rm_peerMeta r))\<rparr>, l1))"

text \<open>After the \<^verbatim>\<open>room-joined\<close> message went out.\<close>

definition rm_welcome :: "ws_env \<Rightarrow> peers \<Rightarrow> conn \<Rightarrow> bool \<Rightarrow> room \<times> log \<Rightarrow> room \<times> log" where
  "rm_welcome w ps c existing rl =
     (let i = pr_id (ps c);
          rl1 = (if existing then rl
                 else snd (rm_broadcastExcept w ps i (SPresenceOnline i)
                        (snd (rm_broadcastExcept w ps i (SPeerJoined i (pr_role (ps c)) (pr_metadata (ps c))) rl))));
          r2 = rm_resetIdleTimer (rm_transitionTo Active (fst rl1))
      in (r2, snd rl1 @ [RoomPeerJoined (rm_inst r2) c]))"

definition rm_addPeer :: "ws_env \<Rightarrow> peers \<Rightarrow> conn \<Rightarrow> json list option \<Rightarrow> room \<times> log \<Rightarrow> add_result \<times> room \<times> log" where
  "rm_addPeer w ps c ice rl =
     (let r = fst rl; i = pr_id (ps c); existing = jm_has (rm_peers r) i in
      if rm_state r = Closing \<or> rm_state r = Closed then rm_refuse c RoomClosing rl
      else if \<not> existing \<and> (case rm_maxPeers r of Some m \<Rightarrow> int (length (rm_peers r)) \<ge> m | None \<Rightarrow> False)
        then rm_refuse c RoomFull rl
      else (let (r1, l1) = rm_enter ps c rl;
                (threw, l2) = peer_send w ps c (rm_joined_message ps c ice r1) l1
            in if threw
               then (AddThrew, r1\<lparr>rm_peers := jm_delete i (rm_peers r1), rm_peerMeta := jm_delete i (rm_peerMeta r1)\<rparr>, l2)
               else (let (r3, l3) = rm_welcome w ps c existing (r1, l2) in (Added, r3, l3))))"

section \<open>Leaving\<close>

definition rm_removePeer :: "ws_env \<Rightarrow> peers \<Rightarrow> string \<Rightarrow> room \<times> log \<Rightarrow> room \<times> log" where
  "rm_removePeer w ps i rl =
     (case jm_get (rm_peers (fst rl)) i of
        None \<Rightarrow> rl
      | Some c \<Rightarrow>
          (let (r, l) = rl; r1 = r\<lparr>rm_peers := jm_delete i (rm_peers r), rm_peerMeta := jm_delete i (rm_peerMeta r)\<rparr>
           in if length (rm_peers r1) = 0 \<and> \<not> rm_keepAliveOnEmpty r1
              then (let r2 = rm_transitionTo Closing (rm_clearTimers r1); l2 = l @ [RoomPeerLeft (rm_inst r2) c];
                        r3 = rm_transitionTo Closed r2
                    in (r3, l2 @ [RoomClosed (rm_inst r3)]))
              else (let rl2 = snd (rm_broadcastExcept w ps i (SPresenceOffline i)
                                (snd (rm_broadcastExcept w ps i (SPeerLeft i) (r1, l))))
                    in (fst rl2, snd rl2 @ [RoomPeerLeft (rm_inst (fst rl2)) c]))))"

definition rm_kickPeer :: "ws_env \<Rightarrow> peers \<Rightarrow> string \<Rightarrow> utf16 option \<Rightarrow> room \<times> log \<Rightarrow> bool \<times> room \<times> log" where
  "rm_kickPeer w ps i reason rl =
     (case jm_get (rm_peers (fst rl)) i of
        None \<Rightarrow> (False, rl)
      | Some c \<Rightarrow>
          (let l1 = snd (peer_send w ps c (SKicked i reason) (snd rl));
               l2 = peer_disconnect c CloseCode_PolicyViolation
                      (case reason of Some x \<Rightarrow> x | None \<Rightarrow> close_reason KickedReason) l1;
               (r3, l3) = rm_removePeer w ps i (fst rl, l2)
           in (True, r3, l3 @ [RoomPeerKicked (rm_inst r3) i reason])))"

definition rm_disconnectAndRemove :: "ws_env \<Rightarrow> peers \<Rightarrow> string \<Rightarrow> nat \<Rightarrow> utf16 \<Rightarrow> room \<times> log \<Rightarrow> bool \<times> room \<times> log" where
  "rm_disconnectAndRemove w ps i code reason rl =
     (case jm_get (rm_peers (fst rl)) i of
        None \<Rightarrow> (False, rl)
      | Some c \<Rightarrow> (True, rm_removePeer w ps i (fst rl, peer_disconnect c code reason (snd rl))))"

text \<open>The \<^verbatim>\<open>Disconnected\<close> callback \<^verbatim>\<open>addPeer\<close> installs: only the current connection counts.\<close>

definition rm_onDisconnected :: "ws_env \<Rightarrow> peers \<Rightarrow> conn \<Rightarrow> room \<times> log \<Rightarrow> room \<times> log" where
  "rm_onDisconnected w ps c rl =
     (if jm_get (rm_peers (fst rl)) (pr_id (ps c)) = Some c then rm_removePeer w ps (pr_id (ps c)) rl else rl)"

section \<open>Other operations\<close>

definition rm_markActivity :: "room \<Rightarrow> room" where
  "rm_markActivity r = rm_resetIdleTimer r"

definition rm_getPeerMetadata :: "string \<Rightarrow> room \<Rightarrow> metadata option" where
  "rm_getPeerMetadata i r = jm_get (rm_peerMeta r) i"

definition rm_setPeerRole :: "ws_env \<Rightarrow> peers \<Rightarrow> string \<Rightarrow> string \<Rightarrow> room \<times> log \<Rightarrow> bool \<times> peers \<times> room \<times> log" where
  "rm_setPeerRole w ps i newRole rl =
     (case jm_get (rm_peers (fst rl)) i of
        None \<Rightarrow> (False, ps, rl)
      | Some c \<Rightarrow>
          (let ps1 = ps(c := peer_setRole newRole (ps c))
           in (True, ps1, snd (rm_broadcast w ps1 (SRoleChanged i newRole) rl))))"

definition rm_dispose :: "room \<Rightarrow> room" where
  "rm_dispose r = (rm_transitionTo Closed (rm_clearTimers r))\<lparr>rm_peers := [], rm_peerMeta := []\<rparr>"

fun rm_expel :: "nat \<Rightarrow> conn list \<Rightarrow> log \<Rightarrow> log" where
  "rm_expel inst [] l = l"
| "rm_expel inst (c # cs) l =
     rm_expel inst cs (peer_disconnect c CloseCode_Normal (u16 ''Room expired'') l @ [RoomPeerLeft inst c])"

definition rm_forceClose :: "ws_env \<Rightarrow> peers \<Rightarrow> room \<times> log \<Rightarrow> room \<times> log" where
  "rm_forceClose w ps rl =
     (if rm_state (fst rl) \<noteq> Active \<and> rm_state (fst rl) \<noteq> Creating then rl
      else (let r1 = rm_clearTimers (rm_transitionTo Closing (fst rl));
                (failed, r2, l2) = rm_broadcast w ps (SError ''ROOM_EXPIRED'' ''Room expired'') (r1, snd rl);
                cs = rm_getPeers r2;
                r3 = r2\<lparr>rm_peers := [], rm_peerMeta := []\<rparr>;
                l3 = rm_expel (rm_inst r3) cs l2;
                r4 = rm_transitionTo Closed r3
            in (r4, l3 @ [RoomClosed (rm_inst r4)])))"

section \<open>The life cycle\<close>

fun room_rank :: "RoomState \<Rightarrow> nat" where
  "room_rank Creating = 0"
| "room_rank Active = 1"
| "room_rank Closing = 2"
| "room_rank Closed = 3"

interpretation room_life: ranked_lifecycle room_move "\<lambda>s n. n \<in> set (LEGAL_TRANSITIONS s)" "\<lambda>s. s = Closed" room_rank
proof unfold_locales
  fix s n
  show "fst (room_move s n) = s \<or> fst (room_move s n) = n \<and> n \<in> set (LEGAL_TRANSITIONS s)"
    by (simp add: room_move_def)
  show "s = Closed \<Longrightarrow> n \<notin> set (LEGAL_TRANSITIONS s)" by simp
  show "n \<in> set (LEGAL_TRANSITIONS s) \<Longrightarrow> room_rank s < room_rank n" by (cases s) auto
qed

lemma room_move_simps [simp]:
  "fst (room_move s s) = s" "fst (room_move Closed n) = Closed" "fst (room_move s Closed) = Closed"
  "fst (room_move Creating Active) = Active" "fst (room_move Active Closing) = Closing"
  "fst (room_move Creating Closing) = Closing"
  by (auto simp: room_move_def) (cases s; simp)+

section \<open>What the helpers change\<close>

lemma rm_resetIdleTimer_simps [simp]:
  "rm_id (rm_resetIdleTimer r) = rm_id r" "rm_inst (rm_resetIdleTimer r) = rm_inst r"
  "rm_state (rm_resetIdleTimer r) = rm_state r" "rm_peers (rm_resetIdleTimer r) = rm_peers r"
  "rm_maxPeers (rm_resetIdleTimer r) = rm_maxPeers r" "rm_peerMeta (rm_resetIdleTimer r) = rm_peerMeta r"
  "rm_durationTimer (rm_resetIdleTimer r) = rm_durationTimer r"
  "rm_keepAliveOnEmpty (rm_resetIdleTimer r) = rm_keepAliveOnEmpty r"
  "rm_state r \<noteq> Active \<Longrightarrow> rm_resetIdleTimer r = r"
  by (simp_all add: rm_resetIdleTimer_def)

lemma rm_transitionTo_simps [simp]:
  "rm_id (rm_transitionTo n r) = rm_id r" "rm_inst (rm_transitionTo n r) = rm_inst r"
  "rm_state (rm_transitionTo n r) = fst (room_move (rm_state r) n)" "rm_peers (rm_transitionTo n r) = rm_peers r"
  "rm_maxPeers (rm_transitionTo n r) = rm_maxPeers r" "rm_peerMeta (rm_transitionTo n r) = rm_peerMeta r"
  "rm_durationTimer (rm_transitionTo n r) = rm_durationTimer r" "rm_idleTimer (rm_transitionTo n r) = rm_idleTimer r"
  "rm_keepAliveOnEmpty (rm_transitionTo n r) = rm_keepAliveOnEmpty r"
  by (simp_all add: rm_transitionTo_def)

lemma rm_clearTimers_simps [simp]:
  "rm_id (rm_clearTimers r) = rm_id r" "rm_inst (rm_clearTimers r) = rm_inst r"
  "rm_state (rm_clearTimers r) = rm_state r" "rm_peers (rm_clearTimers r) = rm_peers r"
  "rm_maxPeers (rm_clearTimers r) = rm_maxPeers r" "rm_peerMeta (rm_clearTimers r) = rm_peerMeta r"
  "\<not> rm_durationTimer (rm_clearTimers r)" "\<not> rm_idleTimer (rm_clearTimers r)"
  "rm_keepAliveOnEmpty (rm_clearTimers r) = rm_keepAliveOnEmpty r"
  by (simp_all add: rm_clearTimers_def)

lemma rm_sendToAll_room [simp]: "fst (snd (rm_sendToAll w ps msg excl rl)) = rm_resetIdleTimer (fst rl)"
  by (simp add: rm_sendToAll_def split_def Let_def)

lemma rm_broadcast_room [simp]:
  "fst (snd (rm_broadcast w ps msg rl)) = rm_resetIdleTimer (fst rl)"
  "fst (snd (rm_broadcastExcept w ps i msg rl)) = rm_resetIdleTimer (fst rl)"
  by (simp_all add: rm_broadcast_def rm_broadcastExcept_def)

text \<open>How often a room has announced its end.\<close>

definition closed_count :: "nat \<Rightarrow> log \<Rightarrow> nat" where
  "closed_count inst l = length (filter (\<lambda>x. x = RoomClosed inst) l)"

lemma closed_count_append [simp]: "closed_count inst (l @ l') = closed_count inst l + closed_count inst l'"
  by (simp add: closed_count_def)

lemma closed_count_simps [simp]:
  "closed_count inst [] = 0" "closed_count inst (RoomClosed k # l) = (if k = inst then Suc (closed_count inst l) else closed_count inst l)"
  "closed_count inst (WsSend c m # l) = closed_count inst l" "closed_count inst (WsClose c x y # l) = closed_count inst l"
  "closed_count inst (PeerError c # l) = closed_count inst l" "closed_count inst (RoomPeerJoined k c # l) = closed_count inst l"
  "closed_count inst (RoomPeerLeft k c # l) = closed_count inst l" "closed_count inst (RoomPeerError k i # l) = closed_count inst l"
  "closed_count inst (RoomPeerKicked k i u # l) = closed_count inst l"
  by (simp_all add: closed_count_def)

lemma closed_count_send [simp]:
  "closed_count inst (snd (peer_send w ps c msg l)) = closed_count inst l"
  "closed_count inst (peer_disconnect c code reason l) = closed_count inst l"
  by (simp_all add: peer_send_def peer_disconnect_def)

lemma closed_count_loop [simp]: "closed_count inst (snd (rm_send_loop w ps k msg excl es l)) = closed_count inst l"
proof (induction es arbitrary: l)
  case (Cons e es)
  then show ?case by (cases e) (auto simp: split_def Let_def)
qed simp

lemma closed_count_broadcast [simp]:
  "closed_count inst (snd (snd (rm_broadcast w ps msg rl))) = closed_count inst (snd rl)"
  "closed_count inst (snd (snd (rm_broadcastExcept w ps i msg rl))) = closed_count inst (snd rl)"
  by (simp_all add: rm_broadcast_def rm_broadcastExcept_def rm_sendToAll_def split_def Let_def)

lemma closed_count_expel [simp]: "closed_count inst (rm_expel k cs l) = closed_count inst l"
  by (induction k cs l rule: rm_expel.induct) simp_all

section \<open>The invariant\<close>

definition rm_inv :: "(conn \<Rightarrow> string) \<Rightarrow> room \<Rightarrow> bool" where
  "rm_inv idof r \<longleftrightarrow>
     jm_wf (rm_peers r) \<and> (\<forall>i c. jm_get (rm_peers r) i = Some c \<longrightarrow> idof c = i) \<and>
     (\<forall>m. rm_maxPeers r = Some m \<longrightarrow> int (length (rm_peers r)) \<le> max 0 m) \<and>
     rm_state r \<noteq> Closing \<and> (rm_state r \<noteq> Active \<longrightarrow> rm_peers r = []) \<and>
     (rm_state r = Closed \<longrightarrow> \<not> rm_durationTimer r \<and> \<not> rm_idleTimer r) \<and>
     set (jm_keys (rm_peerMeta r)) \<subseteq> set (jm_keys (rm_peers r))"

text \<open>With the log: the end is announced at most once, and only by a closed room.\<close>

definition rm_good :: "(conn \<Rightarrow> string) \<Rightarrow> room \<times> log \<Rightarrow> bool" where
  "rm_good idof rl \<longleftrightarrow> rm_inv idof (fst rl) \<and>
     closed_count (rm_inst (fst rl)) (snd rl) \<le> (if rm_state (fst rl) = Closed then 1 else 0)"

lemma rm_inv_resetIdle [simp]: "rm_inv idof (rm_resetIdleTimer r) \<longleftrightarrow> rm_inv idof r"
  by (cases "rm_state r = Active") (simp_all add: rm_inv_def)

lemma rm_delete_length: "int (length m) \<le> k \<Longrightarrow> int (length (jm_delete i m)) \<le> k"
  using jm_size_delete_le [of i m] by simp

lemma rm_enter_room:
  assumes "pr_id (ps c) = i"
  shows "rm_peers (fst (rm_enter ps c rl)) = jm_set i c (rm_peers (fst rl))"
    "rm_state (fst (rm_enter ps c rl)) = rm_state (fst rl)" "rm_inst (fst (rm_enter ps c rl)) = rm_inst (fst rl)"
    "rm_maxPeers (fst (rm_enter ps c rl)) = rm_maxPeers (fst rl)"
    "rm_keepAliveOnEmpty (fst (rm_enter ps c rl)) = rm_keepAliveOnEmpty (fst rl)"
    "set (jm_keys (rm_peerMeta (fst (rm_enter ps c rl)))) \<subseteq> insert i (set (jm_keys (rm_peerMeta (fst rl))))"
    "closed_count k (snd (rm_enter ps c rl)) = closed_count k (snd rl)"
  by (auto simp: rm_enter_def split_def Let_def assms jm_keys_set jm_keys_delete split: option.splits)

lemma rm_welcome_room:
  "rm_peers (fst (rm_welcome w ps c ex rl)) = rm_peers (fst rl)" "rm_inst (fst (rm_welcome w ps c ex rl)) = rm_inst (fst rl)"
  "rm_state (fst (rm_welcome w ps c ex rl)) = fst (room_move (rm_state (fst rl)) Active)"
  "rm_maxPeers (fst (rm_welcome w ps c ex rl)) = rm_maxPeers (fst rl)"
  "rm_peerMeta (fst (rm_welcome w ps c ex rl)) = rm_peerMeta (fst rl)"
  "closed_count k (snd (rm_welcome w ps c ex rl)) = closed_count k (snd rl)"
  by (simp_all add: rm_welcome_def Let_def)

text \<open>The three ways \<^verbatim>\<open>addPeer\<close> ends.\<close>

lemma rm_addPeer_cases:
  obtains (refused) reason where "rm_addPeer w ps c ice rl = rm_refuse c reason rl"
  | (threw) l2 where "rm_state (fst rl) \<in> {Creating, Active}" "fst (rm_addPeer w ps c ice rl) = AddThrew"
      "snd (rm_addPeer w ps c ice rl) =
         ((fst (rm_enter ps c rl))\<lparr>rm_peers := jm_delete (pr_id (ps c)) (rm_peers (fst (rm_enter ps c rl))),
            rm_peerMeta := jm_delete (pr_id (ps c)) (rm_peerMeta (fst (rm_enter ps c rl)))\<rparr>, l2)"
      "\<And>k. closed_count k l2 = closed_count k (snd rl)"
  | (added) l2 where "rm_state (fst rl) \<in> {Creating, Active}" "fst (rm_addPeer w ps c ice rl) = Added"
      "jm_has (rm_peers (fst rl)) (pr_id (ps c)) \<or> (\<forall>m. rm_maxPeers (fst rl) = Some m \<longrightarrow> int (length (rm_peers (fst rl))) < m)"
      "snd (rm_addPeer w ps c ice rl) = rm_welcome w ps c (jm_has (rm_peers (fst rl)) (pr_id (ps c))) (fst (rm_enter ps c rl), l2)"
      "\<And>k. closed_count k l2 = closed_count k (snd rl)"
proof -
  let ?l2 = "snd (peer_send w ps c (rm_joined_message ps c ice (fst (rm_enter ps c rl))) (snd (rm_enter ps c rl)))"
  let ?i = "pr_id (ps c)" and ?r = "fst rl"
  have cc: "closed_count k ?l2 = closed_count k (snd rl)" for k by (simp add: rm_enter_room(7) [OF refl])
  show thesis
  proof (cases "rm_state ?r = Closing \<or> rm_state ?r = Closed")
    case True
    then have "rm_addPeer w ps c ice rl = rm_refuse c RoomClosing rl" by (simp add: rm_addPeer_def Let_def)
    then show ?thesis by (rule refused)
  next
    case False
    then have st: "rm_state ?r \<in> {Creating, Active}" by (cases "rm_state ?r") auto
    show ?thesis
    proof (cases "\<not> jm_has (rm_peers ?r) ?i \<and> (case rm_maxPeers ?r of Some m \<Rightarrow> int (length (rm_peers ?r)) \<ge> m | None \<Rightarrow> False)")
      case True
      with False have "rm_addPeer w ps c ice rl = rm_refuse c RoomFull rl" by (simp add: rm_addPeer_def Let_def)
      then show ?thesis by (rule refused)
    next
      case room: False
      then have cap: "jm_has (rm_peers ?r) ?i \<or> (\<forall>m. rm_maxPeers ?r = Some m \<longrightarrow> int (length (rm_peers ?r)) < m)" by auto
      show ?thesis
      proof (cases "fst (peer_send w ps c (rm_joined_message ps c ice (fst (rm_enter ps c rl))) (snd (rm_enter ps c rl)))")
        case True
        with False room show ?thesis
          by (intro threw [of ?l2] st cc) (simp_all only: rm_addPeer_def Let_def split_def fst_conv snd_conv if_True if_False simp_thms)
      next
        case send: False
        with False room show ?thesis
          by (intro added [of ?l2] st cc cap) (simp_all only: rm_addPeer_def Let_def split_def fst_conv snd_conv if_True if_False simp_thms prod.collapse)
      qed
    qed
  qed
qed

lemma rm_inv_shrink:
  assumes "rm_inv idof r" "rm_peers r' = jm_delete i (rm_peers r)" "rm_state r' = rm_state r" "rm_maxPeers r' = rm_maxPeers r"
    "rm_state r \<noteq> Closed" "set (jm_keys (rm_peerMeta r')) \<subseteq> set (jm_keys (rm_peers r)) - {i}"
  shows "rm_inv idof r'"
  using assms by (auto simp: rm_inv_def jm_keys_delete intro!: rm_delete_length split: if_splits)

lemma rm_addPeer_good:
  assumes "rm_good idof rl" "\<And>c. pr_id (ps c) = idof c"
  shows "rm_good idof (snd (rm_addPeer w ps c ice rl))"
proof (cases rule: rm_addPeer_cases [of w ps c ice rl])
  case (refused reason)
  then show ?thesis using assms by (simp add: rm_refuse_def rm_good_def)
next
  case (threw l2)
  have "rm_inv idof (fst (snd (rm_addPeer w ps c ice rl)))"
  proof (rule rm_inv_shrink [of idof "fst rl" _ "idof c"])
    show "rm_inv idof (fst rl)" using assms(1) by (simp add: rm_good_def)
    then have "fst ` set (rm_peerMeta (fst rl)) \<subseteq> fst ` set (rm_peers (fst rl))" by (simp add: rm_inv_def)
    then show "set (jm_keys (rm_peerMeta (fst (snd (rm_addPeer w ps c ice rl))))) \<subseteq> set (jm_keys (rm_peers (fst rl))) - {idof c}"
      using rm_enter_room(6) [of ps c "idof c" rl] assms(2) by (simp add: threw(3)) blast
  qed (use threw(1) assms(2) rm_enter_room(1,2,4) [of ps c "idof c" rl] in \<open>auto simp: threw(3)\<close>)
  then show ?thesis
    using assms threw rm_enter_room(2,3) [of ps c "idof c" rl] by (auto simp: rm_good_def)
next
  case (added l2)
  have cap: "int (length (jm_set (idof c) c (rm_peers (fst rl)))) \<le> max 0 m" if "rm_maxPeers (fst rl) = Some m" for m
    using added(3) that assms by (auto simp: jm_size_set rm_good_def rm_inv_def max_def)
  have "fst ` set (rm_peerMeta (fst rl)) \<subseteq> fst ` set (rm_peers (fst rl))"
    using assms(1) by (simp add: rm_good_def rm_inv_def)
  then have meta: "fst ` set (rm_peerMeta (fst (rm_enter ps c rl))) \<subseteq> insert (idof c) (fst ` set (rm_peers (fst rl)))"
    using rm_enter_room(6) [of ps c "idof c" rl] assms(2) by simp blast
  have "rm_inv idof (fst (snd (rm_addPeer w ps c ice rl)))"
    unfolding rm_inv_def
    using assms added(1) cap meta rm_enter_room(1,2,4) [of ps c "idof c" rl]
    by (simp add: added(4) rm_welcome_room rm_good_def rm_inv_def) (auto split: if_splits)
  then show ?thesis
    using assms added rm_enter_room(2,3) [of ps c "idof c" rl] by (auto simp: rm_welcome_room rm_good_def)
qed

lemma rm_removePeer_good:
  assumes "rm_good idof rl"
  shows "rm_good idof (rm_removePeer w ps i rl)"
proof (cases "jm_get (rm_peers (fst rl)) i")
  case None
  then show ?thesis using assms by (simp add: rm_removePeer_def)
next
  case (Some c)
  then have act: "rm_state (fst rl) = Active" using assms by (auto simp: rm_good_def rm_inv_def)
  show ?thesis
  proof (cases "length (jm_delete i (rm_peers (fst rl))) = 0 \<and> \<not> rm_keepAliveOnEmpty (fst rl)")
    case True
    then have "jm_delete i (rm_peerMeta (fst rl)) = []"
      using assms jm_delete_subset_empty [of i "rm_peers (fst rl)"] by (auto simp: rm_good_def rm_inv_def)
    with True show ?thesis
      using assms Some act by (auto simp: rm_removePeer_def split_def Let_def rm_good_def rm_inv_def)
  next
    case False
    have "rm_inv idof (fst (rm_removePeer w ps i rl))"
    proof (rule rm_inv_shrink [of idof "fst rl" _ i])
      show "rm_inv idof (fst rl)" using assms by (simp add: rm_good_def)
      then have "fst ` set (rm_peerMeta (fst rl)) \<subseteq> fst ` set (rm_peers (fst rl))" by (simp add: rm_inv_def)
      then show "set (jm_keys (rm_peerMeta (fst (rm_removePeer w ps i rl)))) \<subseteq> set (jm_keys (rm_peers (fst rl))) - {i}"
        using Some False by (auto simp: rm_removePeer_def split_def Let_def)
    qed (use Some False act in \<open>auto simp: rm_removePeer_def split_def Let_def\<close>)
    then show ?thesis
      using assms Some act False by (auto simp: rm_removePeer_def split_def Let_def rm_good_def)
  qed
qed

lemma rm_forceClose_good: "rm_good idof rl \<Longrightarrow> rm_good idof (rm_forceClose w ps rl)"
  by (cases "rm_state (fst rl)") (auto simp: rm_forceClose_def split_def Let_def rm_good_def rm_inv_def)

section \<open>Every reachable room\<close>

datatype room_op =
    OpAdd conn "json list option"
  | OpKick string "utf16 option"
  | OpPrune string nat utf16
  | OpDisconnected conn
  | OpRelay string string "json option"
  | OpBroadcast server_message
  | OpBroadcastExcept string server_message
  | OpSetRole string string
  | OpMarkActivity
  | OpExpire
  | OpDispose

definition rm_exec :: "ws_env \<Rightarrow> peers \<Rightarrow> room_op \<Rightarrow> room \<times> log \<Rightarrow> room \<times> log" where
  "rm_exec w ps x rl =
     (case x of
        OpAdd c ice \<Rightarrow> snd (rm_addPeer w ps c ice rl)
      | OpKick i reason \<Rightarrow> snd (rm_kickPeer w ps i reason rl)
      | OpPrune i code reason \<Rightarrow> snd (rm_disconnectAndRemove w ps i code reason rl)
      | OpDisconnected c \<Rightarrow> rm_onDisconnected w ps c rl
      | OpRelay f t d \<Rightarrow> snd (rm_relay w ps f t d rl)
      | OpBroadcast msg \<Rightarrow> snd (rm_broadcast w ps msg rl)
      | OpBroadcastExcept i msg \<Rightarrow> snd (rm_broadcastExcept w ps i msg rl)
      | OpSetRole i role \<Rightarrow> snd (snd (rm_setPeerRole w ps i role rl))
      | OpMarkActivity \<Rightarrow> (rm_markActivity (fst rl), snd rl)
      | OpExpire \<Rightarrow> rm_forceClose w ps rl
      | OpDispose \<Rightarrow> (rm_dispose (fst rl), snd rl))"

text \<open>One operation, with any behaviour of the sockets and any peer objects with these ids.\<close>

inductive room_step :: "(conn \<Rightarrow> string) \<Rightarrow> room \<times> log \<Rightarrow> room \<times> log \<Rightarrow> bool" for idof where
  step: "(\<And>c. pr_id (ps c) = idof c) \<Longrightarrow> room_step idof rl (rm_exec w ps x rl)"

inductive_cases room_stepE: "room_step idof rl rl'"

lemma rm_good_log: "rm_good idof (r, l) \<Longrightarrow> closed_count (rm_inst r) l' = closed_count (rm_inst r) l \<Longrightarrow> rm_good idof (r, l')"
  by (simp add: rm_good_def)

lemma rm_good_resetIdle:
  "rm_good idof rl \<Longrightarrow> closed_count (rm_inst (fst rl)) l' = closed_count (rm_inst (fst rl)) (snd rl) \<Longrightarrow>
   rm_good idof (rm_resetIdleTimer (fst rl), l')"
  by (simp add: rm_good_def)

lemma rm_kick_good:
  assumes "rm_good idof rl"
  shows "rm_good idof (snd (rm_kickPeer w ps i reason rl))"
proof (cases "jm_get (rm_peers (fst rl)) i")
  case (Some c)
  define l2 where "l2 = peer_disconnect c CloseCode_PolicyViolation
    (case reason of Some x \<Rightarrow> x | None \<Rightarrow> close_reason KickedReason) (snd (peer_send w ps c (SKicked i reason) (snd rl)))"
  have "rm_good idof (fst rl, l2)" using assms rm_good_log [of idof "fst rl" "snd rl" l2] by (simp add: l2_def)
  from rm_removePeer_good [OF this, of w ps i] show ?thesis
    using Some by (simp add: rm_kickPeer_def split_def Let_def l2_def [symmetric] rm_good_def)
qed (simp add: rm_kickPeer_def assms)

lemma rm_prune_good:
  assumes "rm_good idof rl"
  shows "rm_good idof (snd (rm_disconnectAndRemove w ps i code reason rl))"
proof (cases "jm_get (rm_peers (fst rl)) i")
  case (Some c)
  have "rm_good idof (fst rl, peer_disconnect c code reason (snd rl))"
    using assms rm_good_log [of idof "fst rl" "snd rl"] by simp
  from rm_removePeer_good [OF this, of w ps i] show ?thesis
    using Some by (simp add: rm_disconnectAndRemove_def)
qed (simp add: rm_disconnectAndRemove_def assms)

lemma rm_broadcast_good:
  "rm_good idof rl \<Longrightarrow> rm_good idof (snd (rm_broadcast w ps msg rl))"
  "rm_good idof rl \<Longrightarrow> rm_good idof (snd (rm_broadcastExcept w ps i msg rl))"
  by (simp_all add: rm_good_def)

lemma rm_relay_good: "rm_good idof rl \<Longrightarrow> rm_good idof (snd (rm_relay w ps f t d rl))"
  by (auto simp: rm_relay_def split_def Let_def rm_good_def split: option.splits if_splits)

lemma rm_setPeerRole_good: "rm_good idof rl \<Longrightarrow> rm_good idof (snd (snd (rm_setPeerRole w ps i role rl)))"
  by (simp add: rm_setPeerRole_def Let_def rm_broadcast_good split: option.splits)

lemma rm_dispose_good: "rm_good idof (r, l) \<Longrightarrow> rm_good idof (rm_dispose r, l)"
  by (auto simp: rm_good_def rm_inv_def rm_dispose_def split: if_splits)

lemma rm_exec_good:
  assumes "rm_good idof rl" "\<And>c. pr_id (ps c) = idof c"
  shows "rm_good idof (rm_exec w ps x rl)"
  using assms rm_dispose_good [of idof "fst rl" "snd rl"]
  by (cases x) (simp_all add: rm_exec_def rm_addPeer_good rm_kick_good rm_prune_good rm_onDisconnected_def rm_removePeer_good
      rm_relay_good rm_broadcast_good rm_setPeerRole_good rm_markActivity_def rm_good_resetIdle rm_forceClose_good)

interpretation room_safe: safety "\<lambda>rl. \<exists>inst i opts. rl = (rm_new inst i opts, [])" "room_step idof" "rm_good idof" for idof
proof unfold_locales
  fix s t
  show "rm_good idof s" if "\<exists>inst i opts. s = (rm_new inst i opts, [])"
    using that by (auto simp: rm_new_def rm_good_def rm_inv_def)
  show "rm_good idof t" if "rm_good idof s" "room_step idof s t"
    using that(2) by (rule room_stepE) (auto intro: rm_exec_good that(1))
qed

text \<open>
  (C9) Room safety. Whatever sequence of joins, kicks, prunes, disconnections, relays, broadcasts, role
  changes, expiries and disposals a room goes through, and however the sockets behave: it never
  holds more peers than its capacity, holds a peer only under that peer's id and only while it is
  active, keeps metadata only of peers it holds, is never left half closed, has no timer armed once
  closed, and announces its end at most once and only when it has closed.
\<close>

theorem room_safety:
  assumes "(room_step idof)\<^sup>*\<^sup>* (rm_new inst i opts, []) (r, l)"
  shows "(\<forall>m. rm_maxPeers r = Some m \<longrightarrow> int (rm_getPeerCount r) \<le> max 0 m) \<and>
    (\<forall>j c. jm_get (rm_peers r) j = Some c \<longrightarrow> idof c = j) \<and>
    (rm_state r \<noteq> Active \<longrightarrow> rm_getPeerCount r = 0) \<and> rm_state r \<noteq> Closing \<and>
    (rm_state r = Closed \<longrightarrow> \<not> rm_durationTimer r \<and> \<not> rm_idleTimer r) \<and>
    (\<forall>j. rm_getPeerMetadata j r \<noteq> None \<longrightarrow> jm_has (rm_peers r) j) \<and>
    closed_count (rm_inst r) l \<le> (if rm_state r = Closed then 1 else 0)"
proof -
  have "rm_good idof (r, l)" using room_safe.reachable_good [OF _ assms] by blast
  then show ?thesis
    by (auto simp: rm_good_def rm_inv_def rm_getPeerCount_def rm_getPeerMetadata_def jm_has_iff map_of_eq_None_iff)
qed

text \<open>Sockets that are open until the server closes them and take every message.\<close>

definition ws_fine :: ws_env where
  "ws_fine = \<lparr>ws_open = (\<lambda>l c. \<forall>code u. WsClose c code u \<notin> set l), ws_buffered = (\<lambda>l c. 0), ws_sendFails = (\<lambda>l c. False)\<rparr>"

definition example_peer :: "string \<Rightarrow> peer" where
  "example_peer i = peer_new 0 i None None None None"

definition example_opts :: "int \<Rightarrow> room_opts" where
  "example_opts m = \<lparr>ro_maxPeers = Some m, ro_maxDurationMs = None, ro_idleTimeoutMs = None, ro_keepAliveOnEmpty = None\<rparr>"

theorem room_safety_witness:
  "let r = fst (rm_exec ws_fine (\<lambda>_. example_peer ''p'') (OpAdd 1 None) (rm_new 0 ''room'' (example_opts 1), []))
   in rm_getPeerCount r = 1 \<and> (\<forall>m. rm_maxPeers r = Some m \<longrightarrow> int (rm_getPeerCount r) \<le> max 0 m)"
proof -
  let ?rl = "rm_exec ws_fine (\<lambda>_. example_peer ''p'') (OpAdd 1 None) (rm_new 0 ''room'' (example_opts 1), [])"
  have "room_step (\<lambda>_. ''p'') (rm_new 0 ''room'' (example_opts 1), []) ?rl"
    by (rule room_step.step) (simp add: example_peer_def peer_new_def)
  then have "(room_step (\<lambda>_. ''p''))\<^sup>*\<^sup>* (rm_new 0 ''room'' (example_opts 1), []) (fst ?rl, snd ?rl)" by simp
  from room_safety [OF this] have "\<forall>m. rm_maxPeers (fst ?rl) = Some m \<longrightarrow> int (rm_getPeerCount (fst ?rl)) \<le> max 0 m" by blast
  moreover have "rm_getPeerCount (fst ?rl) = 1"
    by (simp add: rm_exec_def rm_addPeer_def rm_new_def example_opts_def example_peer_def peer_new_def rm_enter_def jm_has_def
        peer_send_def ws_fine_def rm_welcome_def rm_getPeerCount_def Let_def split_def)
  ultimately show ?thesis by simp
qed

section \<open>Forward only\<close>

text \<open>Every operation moves the state only through the guarded transition.\<close>

lemma rm_exec_moves: "\<exists>ns. rm_state (fst (rm_exec w ps x rl)) = run_moves room_move (rm_state (fst rl)) ns"
proof -
  have none: "\<exists>ns. s = run_moves room_move s ns" for s by (rule exI [of _ "[]"]) (simp add: run_moves_def)
  have one: "\<exists>ns. fst (room_move s n) = run_moves room_move s ns" for s n
    by (rule exI [of _ "[n]"]) (simp add: run_moves_def)
  have closed: "\<exists>ns. Closed = run_moves room_move s ns" for s
    by (rule exI [of _ "[Closed]"]) (simp add: run_moves_def)
  have add: "\<exists>ns. rm_state (fst (snd (rm_addPeer w ps c ice rl))) = run_moves room_move (rm_state (fst rl)) ns" for c ice
    by (cases rule: rm_addPeer_cases [of w ps c ice rl])
      (simp_all add: rm_refuse_def rm_enter_room [OF refl] rm_welcome_room none one)
  have rem: "\<exists>ns. rm_state (fst (rm_removePeer w ps i (fst rl, l))) = run_moves room_move (rm_state (fst rl)) ns" for i l
    by (simp add: rm_removePeer_def split_def Let_def none closed split: option.splits)
  show ?thesis
    using add rem none closed rem [of _ "snd rl"]
    by (cases x) (simp_all add: rm_exec_def rm_kickPeer_def rm_disconnectAndRemove_def rm_onDisconnected_def rm_relay_def
        rm_setPeerRole_def rm_markActivity_def rm_forceClose_def rm_dispose_def split_def Let_def split: option.splits)
qed

text \<open>
  (C23) The room's life cycle only advances: along any sequence of operations the state moves through
  \<^verbatim>\<open>creating\<close>, \<^verbatim>\<open>active\<close>, \<^verbatim>\<open>closing\<close>, \<^verbatim>\<open>closed\<close> without ever going back, a closed room stays closed, and
  refuses every join by closing the new connection.
\<close>

theorem room_forward_only:
  assumes "(room_step idof)\<^sup>*\<^sup>* (r, l) (r', l')"
  shows "room_rank (rm_state r) \<le> room_rank (rm_state r') \<and> (rm_state r = Closed \<longrightarrow> rm_state r' = Closed) \<and>
    (rm_state r = Closed \<longrightarrow> fst (rm_addPeer w ps c ice (r', l')) = Refused \<and>
       snd (snd (rm_addPeer w ps c ice (r', l'))) =
         l' @ [WsClose c CloseCode_PolicyViolation (truncateUtf8 (close_reason RoomClosing) 123)])"
proof -
  have st: "room_rank (rm_state (fst a)) \<le> room_rank (rm_state (fst b)) \<and> (rm_state (fst a) = Closed \<longrightarrow> rm_state (fst b) = Closed)"
    if "room_step idof a b" for a b
    using that
  proof (rule room_stepE)
    fix ps w x
    assume b: "b = rm_exec w ps x a"
    obtain ns where "rm_state (fst b) = run_moves room_move (rm_state (fst a)) ns"
      using rm_exec_moves [of w ps x a] b by blast
    then show ?thesis
      using room_life.run_moves_rank [of "rm_state (fst a)" ns] room_life.terminal_absorbing [of "rm_state (fst a)" ns] by simp
  qed
  have "room_rank (rm_state (fst (r, l))) \<le> room_rank (rm_state (fst (r', l'))) \<and>
      (rm_state (fst (r, l)) = Closed \<longrightarrow> rm_state (fst (r', l')) = Closed)"
    using assms by (induction rule: rtranclp_induct) (auto dest!: st)
  then show ?thesis by (simp add: rm_addPeer_def rm_refuse_def peer_disconnect_def)
qed

theorem room_forward_only_witness:
  "let rl = (rm_dispose (rm_new 0 ''room'' (example_opts 1)), [])
   in fst (rm_addPeer ws_fine (\<lambda>_. example_peer ''p'') 1 None rl) = Refused"
  using room_forward_only [of "\<lambda>_. ''p''" "rm_dispose (rm_new 0 ''room'' (example_opts 1))" "[]"
      "rm_dispose (rm_new 0 ''room'' (example_opts 1))" "[]" ws_fine "\<lambda>_. example_peer ''p''" 1 None]
  by (simp add: rm_dispose_def rm_new_def)

section \<open>Who hears what\<close>

text \<open>The sockets of these connections take every message until they are closed.\<close>

definition ws_takes :: "ws_env \<Rightarrow> peers \<Rightarrow> conn set \<Rightarrow> bool" where
  "ws_takes w ps cs \<longleftrightarrow>
     (\<forall>l c. c \<in> cs \<longrightarrow> (\<forall>code u. WsClose c code u \<notin> set l) \<longrightarrow>
        ws_open w l c \<and> ws_buffered w l c \<le> pr_maxBufferedBytes (ps c) \<and> \<not> ws_sendFails w l c)"

definition no_close :: "conn set \<Rightarrow> log \<Rightarrow> bool" where
  "no_close cs l \<longleftrightarrow> (\<forall>c \<in> cs. \<forall>code u. WsClose c code u \<notin> set l)"

lemma peer_send_takes:
  assumes "ws_takes w ps cs" "no_close cs l" "c \<in> cs"
  shows "peer_send w ps c msg l = (False, l @ [WsSend c msg])"
proof -
  have "ws_open w l c \<and> ws_buffered w l c \<le> pr_maxBufferedBytes (ps c) \<and> \<not> ws_sendFails w l c"
    using assms unfolding ws_takes_def no_close_def by blast
  then show ?thesis by (simp add: peer_send_def not_less)
qed

lemma no_close_simps [simp]:
  "no_close cs []" "no_close cs (l @ l') \<longleftrightarrow> no_close cs l \<and> no_close cs l'"
  "no_close cs (WsSend c msg # l) = no_close cs l" "no_close cs (map (\<lambda>(j, d). WsSend d msg) es)"
  by (auto simp: no_close_def)

lemma rm_send_loop_takes:
  "ws_takes w ps cs \<Longrightarrow> no_close cs l \<Longrightarrow> snd ` set es \<subseteq> cs \<Longrightarrow>
   rm_send_loop w ps k msg excl es l = ([], l @ map (\<lambda>(j, d). WsSend d msg) (filter (\<lambda>(j, d). excl \<noteq> Some j) es))"
proof (induction es arbitrary: l)
  case (Cons e es)
  obtain j d where e: "e = (j, d)" by fastforce
  have "peer_send w ps d msg l = (False, l @ [WsSend d msg])" using Cons.prems e by (intro peer_send_takes) auto
  with Cons e show ?case by auto
qed simp

lemma rm_broadcastExcept_takes:
  "ws_takes w ps cs \<Longrightarrow> no_close cs l \<Longrightarrow> snd ` set (rm_peers r) \<subseteq> cs \<Longrightarrow>
   rm_broadcastExcept w ps i msg (r, l) =
     ([], rm_resetIdleTimer r, l @ map (\<lambda>(j, d). WsSend d msg) (filter (\<lambda>(j, d). i \<noteq> j) (rm_peers r)))"
  using rm_send_loop_takes [of w ps cs l "rm_peers r" "rm_inst r" msg "Some i"]
  by (simp add: rm_broadcastExcept_def rm_sendToAll_def)

text \<open>
  (C24) Joining: a new peer is admitted to an open room with a free place, receives \<^verbatim>\<open>room-joined\<close> with
  exactly the ids of the peers already there, and each of those receives \<^verbatim>\<open>peer-joined\<close> and then
  \<^verbatim>\<open>presence-online\<close>, nobody else anything; the room becomes active and holds the peer under its id.
\<close>

theorem room_join_announced:
  assumes "rm_state r \<in> {Creating, Active}" "\<not> jm_has (rm_peers r) i" "pr_id (ps c) = i"
    and "\<forall>m. rm_maxPeers r = Some m \<longrightarrow> int (length (rm_peers r)) < m"
    and "ws_takes w ps (insert c (snd ` set (rm_peers r)))" "no_close (insert c (snd ` set (rm_peers r))) l"
  shows "\<exists>r' roles metas lr icej.
    rm_addPeer w ps c ice (r, l) = (Added, r',
      l @ [WsSend c (SRoomJoined PROTOCOL_VERSION (rm_id r) i (jm_keys (rm_peers r)) roles metas lr icej)]
        @ map (\<lambda>(j, d). WsSend d (SPeerJoined i (pr_role (ps c)) (pr_metadata (ps c)))) (rm_peers r)
        @ map (\<lambda>(j, d). WsSend d (SPresenceOnline i)) (rm_peers r) @ [RoomPeerJoined (rm_inst r) c]) \<and>
    rm_state r' = Active \<and> rm_peers r' = rm_peers r @ [(i, c)]"
proof -
  let ?cs = "insert c (snd ` set (rm_peers r))"
  have i: "i \<notin> fst ` set (rm_peers r)" using assms(2) by (simp add: jm_has_iff)
  then have keep: "filter (\<lambda>(j, d). j \<noteq> i) (rm_peers r) = rm_peers r" "filter (\<lambda>(j, d). i \<noteq> j) (rm_peers r) = rm_peers r"
    by (force simp: filter_id_conv)+
  obtain r1 where r1: "rm_enter ps c (r, l) = (r1, l)" "rm_peers r1 = rm_peers r @ [(i, c)]" "rm_id r1 = rm_id r"
      "rm_inst r1 = rm_inst r" "rm_state r1 = rm_state r"
    using assms(2,3) i by (auto simp: rm_enter_def Let_def jm_has_def jm_set_absent)
  obtain roles metas lr icej where
    msg: "rm_joined_message ps c ice r1 = SRoomJoined PROTOCOL_VERSION (rm_id r) i (jm_keys (rm_peers r)) roles metas lr icej"
    using r1 keep assms(3) by (simp add: rm_joined_message_def Let_def)
  let ?l2 = "l @ [WsSend c (rm_joined_message ps c ice r1)]"
  have send: "peer_send w ps c m l = (False, l @ [WsSend c m])" for m using assms(5,6) by (intro peer_send_takes) auto
  have bc: "rm_broadcastExcept w ps i m (q, l') = ([], rm_resetIdleTimer q, l' @ map (\<lambda>(j, d). WsSend d m) (rm_peers r))"
    if "rm_peers q = rm_peers r1" "no_close ?cs l'" for q l' m
    using rm_broadcastExcept_takes [OF assms(5) that(2), of q i m] that(1) r1(2) keep by simp
  have "rm_addPeer w ps c ice (r, l) =
      (let (r3, l3) = rm_welcome w ps c False (r1, ?l2) in (Added, r3, l3))"
    using assms(1-4) r1(1) send by (auto simp: rm_addPeer_def Let_def split: option.splits)
  moreover have "rm_welcome w ps c False (r1, ?l2) =
      (rm_resetIdleTimer (rm_transitionTo Active (rm_resetIdleTimer (rm_resetIdleTimer r1))),
       ?l2 @ map (\<lambda>(j, d). WsSend d (SPeerJoined i (pr_role (ps c)) (pr_metadata (ps c)))) (rm_peers r)
           @ map (\<lambda>(j, d). WsSend d (SPresenceOnline i)) (rm_peers r) @ [RoomPeerJoined (rm_inst r) c])"
    using assms(3,6) r1(4) by (simp add: rm_welcome_def Let_def bc)
  ultimately show ?thesis
    using assms(1) r1 msg by auto
qed

definition example_room :: "string \<Rightarrow> conn \<Rightarrow> room" where
  "example_room i c = (rm_new 0 ''room'' (example_opts 2))\<lparr>rm_state := Active, rm_peers := [(i, c)]\<rparr>"

theorem room_join_announced_witness:
  "\<exists>r' roles metas lr icej.
    rm_addPeer ws_fine (\<lambda>c. example_peer (if c = 1 then ''a'' else ''b'')) 2 None (example_room ''a'' 1, []) = (Added, r',
      [WsSend 2 (SRoomJoined PROTOCOL_VERSION ''room'' ''b'' [''a''] roles metas lr icej),
       WsSend 1 (SPeerJoined ''b'' [] []), WsSend 1 (SPresenceOnline ''b''), RoomPeerJoined 0 2]) \<and>
    rm_state r' = Active \<and> rm_peers r' = [(''a'', 1), (''b'', 2)]"
proof -
  let ?ps = "\<lambda>c :: nat. example_peer (if c = 1 then ''a'' else ''b'')" and ?r = "example_room ''a'' 1"
  have p: "pr_id (?ps 2) = ''b''" "pr_role (?ps 2) = []" "pr_metadata (?ps 2) = []"
    by (simp_all add: example_peer_def peer_new_def)
  have r: "rm_peers ?r = [(''a'', 1)]" "rm_state ?r = Active" "rm_maxPeers ?r = Some 2" "rm_id ?r = ''room''" "rm_inst ?r = 0"
    by (simp_all add: example_room_def rm_new_def example_opts_def)
  have "ws_takes ws_fine ?ps (insert 2 (snd ` set (rm_peers ?r)))"
    by (simp add: ws_takes_def ws_fine_def example_peer_def peer_new_def DEFAULT_MAX_BUFFERED_BYTES_def)
  then show ?thesis
    using room_join_announced [of ?r "''b''" ?ps 2 ws_fine "[]" None] p r by (simp add: jm_has_def no_close_def)
qed

text \<open>
  A reconnection that fails: the earlier connection is closed and forgotten, the new one is rolled
  back, and the room stays active with nobody in it; neither connection's later \<^verbatim>\<open>close\<close> event closes it.
\<close>

lemma rm_failed_reconnect_empties:
  assumes "rm_state r = Active" "rm_peers r = [(i, old)]" "pr_id (ps c) = i" "pr_id (ps old) = i" "\<And>l. \<not> ws_open w l c"
  shows "\<exists>r' l'. rm_addPeer w ps c ice (r, l) = (AddThrew, r', l') \<and> rm_state r' = Active \<and> rm_peers r' = [] \<and>
    rm_inst r' = rm_inst r \<and> closed_count (rm_inst r) l' = closed_count (rm_inst r) l \<and>
    (\<forall>d k. rm_onDisconnected w ps d (r', k) = (r', k))"
  using assms
  by (auto simp: rm_addPeer_def rm_enter_def peer_send_def Let_def split_def jm_has_def rm_onDisconnected_def split: option.splits)

end
