(* ===== verification/Server.thy ===== *)
theory Server
  imports Room
begin

text \<open>
  \<^verbatim>\<open>RoomRegistry.ts\<close>, \<^verbatim>\<open>HeartbeatMonitor.ts\<close>, \<^verbatim>\<open>Authenticator.ts\<close> and \<^verbatim>\<open>SignalingServer.ts\<close> of
  \<^verbatim>\<open>packages/signaling/src\<close>. A connection handler is cut at its awaits (authentication, then the ICE
  server hook), so handlers of different connections interleave: \<open>sv_phase\<close> records where each is.
  Room objects live in a heap by instance; the registry maps room ids to instances. What the host
  delivers (frames, close events, timers, results of hooks) are events; the sockets are a parameter.
\<close>

section \<open>Authenticator\<close>

record resolved_auth =
  ra_roomId :: string
  ra_peerId :: string
  ra_role :: string
  ra_metadata :: "metadata option"

datatype auth_result = AuthOk resolved_auth | AuthNo nat utf16

text \<open>What the application's \<^verbatim>\<open>auth\<close> callback did: threw, or returned a value that the payload schema accepts or not.\<close>

datatype auth_outcome = AuthThrew | AuthInvalid | AuthPayload resolved_auth

definition is_ws :: "char \<Rightarrow> bool" where
  "is_ws c \<longleftrightarrow> c \<in> set [CHR '' '', CHR 0x09, CHR 0x0A, CHR 0x0B, CHR 0x0C, CHR 0x0D, CHR 0xA0]"

definition js_trim :: "string \<Rightarrow> string" where
  "js_trim s = rev (dropWhile is_ws (rev (dropWhile is_ws s)))"

text \<open>The token: the query parameter, else a bearer header.\<close>

definition auth_token :: "string option \<Rightarrow> string option \<Rightarrow> string" where
  "auth_token query header =
     (let token = (case query of Some t \<Rightarrow> t | None \<Rightarrow> '''')
      in if token = ''''
         then (case header of
                 Some h \<Rightarrow> if prefix ''Bearer '' h then js_trim (drop (length ''Bearer '') h) else token
               | None \<Rightarrow> token)
         else token)"

definition MAX_ID_LENGTH :: nat where "MAX_ID_LENGTH = 256"

definition au_resolve ::
  "(string \<Rightarrow> auth_outcome) option \<Rightarrow> string option \<Rightarrow> string option \<Rightarrow> string option \<Rightarrow> string option \<Rightarrow> string option
     \<Rightarrow> auth_result" where
  "au_resolve auth queryToken header queryRoom queryPeer assignedId =
     (case auth of
        Some f \<Rightarrow>
          (case f (auth_token queryToken header) of
             AuthThrew \<Rightarrow> AuthNo CloseCode_PolicyViolation (close_reason AuthFailed)
           | AuthInvalid \<Rightarrow> AuthNo CloseCode_PolicyViolation (close_reason InvalidAuthPayload)
           | AuthPayload a \<Rightarrow>
               AuthOk (case assignedId of Some u \<Rightarrow> a\<lparr>ra_peerId := u\<rparr> | None \<Rightarrow> a))
      | None \<Rightarrow>
          (case (queryRoom, queryPeer) of
             (Some r, Some p) \<Rightarrow>
               if r = '''' \<or> p = '''' \<or> length r > MAX_ID_LENGTH \<or> length p > MAX_ID_LENGTH
               then AuthNo CloseCode_PolicyViolation (close_reason MissingRoomOrPeer)
               else AuthOk \<lparr>ra_roomId = r, ra_peerId = (case assignedId of Some u \<Rightarrow> u | None \<Rightarrow> p),
                            ra_role = '''', ra_metadata = None\<rparr>
           | _ \<Rightarrow> AuthNo CloseCode_PolicyViolation (close_reason MissingRoomOrPeer)))"

section \<open>State\<close>

record server_opts =
  so_maxConnections :: "int option"
  so_maxRooms :: "int option"
  so_maxPeersPerRoom :: "int option"
  so_roomMaxDurationMs :: "int option"
  so_roomIdleTimeoutMs :: "int option"
  so_maxMessagesPerSecond :: "int option"
  so_pongTimeout :: "int option"
  so_allowedOrigins :: "string list option"
  so_iceServersHook :: bool

text \<open>The constructor's defaults.\<close>

definition sv_maxConnections :: "server_opts \<Rightarrow> int" where
  "sv_maxConnections opts = (case so_maxConnections opts of Some n \<Rightarrow> n | None \<Rightarrow> 10000)"

definition sv_maxRooms :: "server_opts \<Rightarrow> int" where
  "sv_maxRooms opts = (case so_maxRooms opts of Some n \<Rightarrow> n | None \<Rightarrow> 10000)"

definition sv_rateLimit :: "server_opts \<Rightarrow> int option" where
  "sv_rateLimit opts = (case so_maxMessagesPerSecond opts of None \<Rightarrow> Some 100 | Some rl \<Rightarrow> if rl > 0 then Some rl else None)"

definition sv_roomOpts :: "server_opts \<Rightarrow> room_opts" where
  "sv_roomOpts opts =
     \<lparr>ro_maxPeers = Some (case so_maxPeersPerRoom opts of Some n \<Rightarrow> n | None \<Rightarrow> 100),
      ro_maxDurationMs = so_roomMaxDurationMs opts, ro_idleTimeoutMs = so_roomIdleTimeoutMs opts, ro_keepAliveOnEmpty = None\<rparr>"

definition sv_pongTimeout :: "server_opts \<Rightarrow> int" where
  "sv_pongTimeout opts = (case so_pongTimeout opts of Some n \<Rightarrow> n | None \<Rightarrow> 60000)"

text \<open>Where a connection's handler is; \<open>Joined\<close> also stands for the callbacks a joined peer leaves behind.\<close>

datatype phase = NoConn | Authenticating | AwaitingIce nat bool | Joined nat | Finished

record server =
  sv_rooms :: "(string, nat) jsmap"
  sv_room :: "nat \<Rightarrow> room"
  sv_nextInst :: nat
  sv_peers :: peers
  sv_connections :: int
  sv_counted :: "conn list"
  sv_phase :: "conn \<Rightarrow> phase"
  sv_stopped :: bool
  sv_log :: log

definition sv_new :: server where
  "sv_new = \<lparr>sv_rooms = [], sv_room = (\<lambda>_. undefined), sv_nextInst = 0, sv_peers = (\<lambda>_. undefined),
     sv_connections = 0, sv_counted = [], sv_phase = (\<lambda>_. NoConn), sv_stopped = False, sv_log = []\<rparr>"

definition sv_emit :: "log \<Rightarrow> server \<Rightarrow> server" where
  "sv_emit xs s = s\<lparr>sv_log := sv_log s @ xs\<rparr>"

definition sv_setPhase :: "conn \<Rightarrow> phase \<Rightarrow> server \<Rightarrow> server" where
  "sv_setPhase c p s = s\<lparr>sv_phase := (sv_phase s)(c := p)\<rparr>"

section \<open>RoomRegistry\<close>

definition rg_getOrCreate :: "server_opts \<Rightarrow> string \<Rightarrow> server \<Rightarrow> nat \<times> bool \<times> server" where
  "rg_getOrCreate opts roomId s =
     (case jm_get (sv_rooms s) roomId of
        Some inst \<Rightarrow> (inst, False, s)
      | None \<Rightarrow>
          (let inst = sv_nextInst s
           in (inst, True, s\<lparr>sv_nextInst := inst + 1, sv_room := (sv_room s)(inst := rm_new inst roomId (sv_roomOpts opts)),
                             sv_rooms := jm_set roomId inst (sv_rooms s)\<rparr>)))"

text \<open>The registry's \<^verbatim>\<open>Closed\<close> listener, then the server's \<^verbatim>\<open>onRoomClosed\<close>.\<close>

definition rg_onClosed :: "nat \<Rightarrow> server \<Rightarrow> server" where
  "rg_onClosed inst s =
     (let roomId = rm_id (sv_room s inst);
          s1 = (if jm_get (sv_rooms s) roomId = Some inst then s\<lparr>sv_rooms := jm_delete roomId (sv_rooms s)\<rparr> else s)
      in sv_emit [ServerRoomClosed roomId, MetricAdd ''rooms_closed'', AuditLog ''room-closed'' roomId None] s1)"

definition rg_rollbackIfEmpty :: "string \<Rightarrow> bool \<Rightarrow> server \<Rightarrow> server" where
  "rg_rollbackIfEmpty roomId wasNew s =
     (case jm_get (sv_rooms s) roomId of
        None \<Rightarrow> s
      | Some inst \<Rightarrow>
          if wasNew \<and> rm_getPeerCount (sv_room s inst) = 0
          then s\<lparr>sv_room := (sv_room s)(inst := rm_dispose (sv_room s inst)), sv_rooms := jm_delete roomId (sv_rooms s)\<rparr>
          else s)"

definition rg_totalPeers :: "server \<Rightarrow> nat" where
  "rg_totalPeers s = sum_list (map (\<lambda>(i, inst). rm_getPeerCount (sv_room s inst)) (sv_rooms s))"

text \<open>Storing what a room operation returned, with the listeners of \<^verbatim>\<open>Closed\<close> run if it was emitted.\<close>

definition sv_store :: "nat \<Rightarrow> room \<times> log \<Rightarrow> server \<Rightarrow> server" where
  "sv_store inst rl s =
     (let s1 = s\<lparr>sv_room := (sv_room s)(inst := fst rl), sv_log := snd rl\<rparr>
      in if closed_count inst (snd rl) \<noteq> closed_count inst (sv_log s) then rg_onClosed inst s1 else s1)"

definition sv_rl :: "nat \<Rightarrow> server \<Rightarrow> room \<times> log" where
  "sv_rl inst s = (sv_room s inst, sv_log s)"

definition sv_exec :: "ws_env \<Rightarrow> nat \<Rightarrow> room_op \<Rightarrow> server \<Rightarrow> server" where
  "sv_exec w inst x s = sv_store inst (rm_exec w (sv_peers s) x (sv_rl inst s)) s"

section \<open>Connections\<close>

definition sv_onConnection :: "server_opts \<Rightarrow> conn \<Rightarrow> string option \<Rightarrow> server \<Rightarrow> server" where
  "sv_onConnection opts c origin s =
     (if (case (so_allowedOrigins opts, origin) of (Some allowed, Some x) \<Rightarrow> x \<notin> set allowed | _ \<Rightarrow> False)
      then sv_setPhase c Finished (sv_emit [WsClose c CloseCode_PolicyViolation (close_reason AuthFailed)] s)
      else if sv_connections s \<ge> sv_maxConnections opts
      then sv_setPhase c Finished (sv_emit [WsClose c CloseCode_PolicyViolation (close_reason ServerAtCapacity)] s)
      else sv_setPhase c Authenticating
             (s\<lparr>sv_connections := sv_connections s + 1, sv_counted := c # sv_counted s\<rparr>))"

text \<open>The handler's \<^verbatim>\<open>catch\<close>.\<close>

definition sv_fail :: "conn \<Rightarrow> server \<Rightarrow> server" where
  "sv_fail c s = sv_setPhase c Finished (sv_emit [WsClose c CloseCode_PolicyViolation (u16 ''Internal error'')] s)"

text \<open>The end of \<^verbatim>\<open>handleConnection\<close>, from \<^verbatim>\<open>addPeer\<close> on.\<close>

definition sv_finish :: "ws_env \<Rightarrow> conn \<Rightarrow> nat \<Rightarrow> bool \<Rightarrow> json list option \<Rightarrow> server \<Rightarrow> server" where
  "sv_finish w c inst isNew ice s =
     (let (res, rl) = rm_addPeer w (sv_peers s) c ice (sv_rl inst s);
          s1 = sv_store inst rl s; roomId = rm_id (sv_room s inst); peerId = pr_id (sv_peers s c)
      in case res of
           AddThrew \<Rightarrow> sv_fail c (rg_rollbackIfEmpty roomId isNew s1)
         | Refused \<Rightarrow> sv_setPhase c Finished (rg_rollbackIfEmpty roomId isNew s1)
         | Added \<Rightarrow>
             sv_setPhase c (Joined inst)
               (sv_emit ([AuditLog ''peer-joined'' roomId (Some peerId), MetricAdd ''peers_connected''] @
                         (if isNew then [MetricAdd ''rooms_created'', ServerRoomCreated inst, AuditLog ''room-created'' roomId None] else []))
                 (s1\<lparr>sv_peers := (sv_peers s1)(c := peer_admit (sv_peers s1 c))\<rparr>)))"

text \<open>
  From the authentication result to the hook. \<open>route\<close> is \<^verbatim>\<open>this.router?.route(roomId)\<close>: \<open>None\<close> without a
  cluster, else whether the room is local and its owner.
\<close>

definition sv_onAuth ::
  "server_opts \<Rightarrow> (string \<Rightarrow> (bool \<times> string option) option) \<Rightarrow> ws_env \<Rightarrow> int \<Rightarrow> conn \<Rightarrow> auth_result \<Rightarrow> server \<Rightarrow> server" where
  "sv_onAuth opts route w now c res s =
     (case res of
        AuthNo code reason \<Rightarrow> sv_setPhase c Finished (sv_emit [WsClose c code reason] s)
      | AuthOk a \<Rightarrow>
          (case route (ra_roomId a) of
             Some (False, owner) \<Rightarrow>
               sv_setPhase c Finished
                 (sv_emit [MetricAdd ''signals_relayed'', Redirected (ra_peerId a) (ra_roomId a) owner,
                           WsClose c CloseCode_PolicyViolation (close_reason WrongNode)] s)
           | _ \<Rightarrow>
               if \<not> jm_has (sv_rooms s) (ra_roomId a) \<and> int (length (sv_rooms s)) \<ge> sv_maxRooms opts
               then sv_setPhase c Finished (sv_emit [WsClose c CloseCode_PolicyViolation (close_reason ServerAtCapacity)] s)
               else (let (inst, isNew, s1) = rg_getOrCreate opts (ra_roomId a) s;
                         p = peer_new now (ra_peerId a) (Some (ra_role a)) (ra_metadata a) (sv_rateLimit opts) None;
                         s2 = s1\<lparr>sv_peers := (sv_peers s1)(c := p)\<rparr>
                     in if so_iceServersHook opts then sv_setPhase c (AwaitingIce inst isNew) s2
                        else sv_finish w c inst isNew None s2)))"

text \<open>The hook's result: a list of servers or nothing, or \<^verbatim>\<open>None\<close> when it threw.\<close>

definition sv_onIce :: "ws_env \<Rightarrow> conn \<Rightarrow> json list option option \<Rightarrow> server \<Rightarrow> server" where
  "sv_onIce w c hook s =
     (case sv_phase s c of
        AwaitingIce inst isNew \<Rightarrow>
          (case hook of
             None \<Rightarrow> sv_fail c (rg_rollbackIfEmpty (rm_id (sv_room s inst)) isNew s)
           | Some ice \<Rightarrow> sv_finish w c inst isNew ice s)
      | _ \<Rightarrow> s)"

text \<open>The room a connection's callbacks refer to, once its \<^verbatim>\<open>Peer\<close> exists.\<close>

fun phase_room :: "phase \<Rightarrow> nat option" where
  "phase_room (AwaitingIce inst isNew) = Some inst"
| "phase_room (Joined inst) = Some inst"
| "phase_room _ = None"

definition sv_onFrame :: "(utf16 \<Rightarrow> decoded) \<Rightarrow> ws_env \<Rightarrow> int \<Rightarrow> conn \<Rightarrow> utf16 \<Rightarrow> server \<Rightarrow> server" where
  "sv_onFrame decode w now c raw s =
     (case phase_room (sv_phase s c) of
        None \<Rightarrow> s
      | Some inst \<Rightarrow>
          (let (act, p) = peer_handleMessage decode now raw (sv_peers s c);
               s1 = s\<lparr>sv_peers := (sv_peers s)(c := p)\<rparr>
           in case act of
                NoAction \<Rightarrow> s1
              | DoError \<Rightarrow> sv_emit [PeerError c] s1
              | DoRateLimited \<Rightarrow> sv_emit [PeerRateLimited c] s1
              | DoSignal to d \<Rightarrow>
                  (let s2 = sv_exec w inst (OpRelay (pr_id p) to d) s1
                   in if fst (rm_relay w (sv_peers s1) (pr_id p) to d (sv_rl inst s1)) then sv_emit [MetricAdd ''signals_relayed''] s2 else s2)
              | DoPong \<Rightarrow> sv_emit [PeerPong c] (sv_exec w inst OpMarkActivity s1)
              | DoBroadcast ch d \<Rightarrow>
                  sv_emit [MetricAdd ''broadcasts_relayed'']
                    (sv_exec w inst (OpBroadcastExcept (pr_id p) (SBroadcast (pr_id p) ch d now)) s1)))"

text \<open>The socket's \<^verbatim>\<open>close\<close> event: the connection counter, then the peer's listeners.\<close>

definition sv_onClose :: "ws_env \<Rightarrow> conn \<Rightarrow> server \<Rightarrow> server" where
  "sv_onClose w c s =
     (let s1 = (if c \<in> set (sv_counted s)
                then s\<lparr>sv_connections := sv_connections s - 1, sv_counted := remove1 c (sv_counted s)\<rparr> else s)
      in case sv_phase s1 c of
           Joined inst \<Rightarrow>
             (let s2 = sv_exec w inst (OpDisconnected c) s1
              in sv_setPhase c Finished
                   (sv_emit [MetricAdd ''peers_disconnected'', AuditLog ''peer-left'' (rm_id (sv_room s1 inst)) (Some (pr_id (sv_peers s1 c)))] s2))
         | _ \<Rightarrow> s1)"

section \<open>Timers, heartbeat, API and shutdown\<close>

definition sv_onRoomTimer :: "ws_env \<Rightarrow> nat \<Rightarrow> server \<Rightarrow> server" where
  "sv_onRoomTimer w inst s =
     (if inst < sv_nextInst s \<and> (rm_durationTimer (sv_room s inst) \<or> rm_idleTimer (sv_room s inst))
      then sv_exec w inst OpExpire s else s)"

fun hb_peers :: "ws_env \<Rightarrow> int \<Rightarrow> nat \<Rightarrow> conn list \<Rightarrow> server \<Rightarrow> server" where
  "hb_peers w deadline inst [] s = s"
| "hb_peers w deadline inst (c # cs) s =
     hb_peers w deadline inst cs
       (if \<not> peer_isAlive deadline (sv_peers s c)
        then sv_exec w inst (OpPrune (pr_id (sv_peers s c)) CloseCode_GoingAway (close_reason HeartbeatTimeout)) s
        else s\<lparr>sv_log := peer_ping w (sv_peers s) c (sv_log s)\<rparr>)"

fun hb_rooms :: "ws_env \<Rightarrow> int \<Rightarrow> nat list \<Rightarrow> server \<Rightarrow> server" where
  "hb_rooms w deadline [] s = s"
| "hb_rooms w deadline (inst # insts) s =
     hb_rooms w deadline insts (hb_peers w deadline inst (rm_getPeers (sv_room s inst)) s)"

definition hb_tick :: "server_opts \<Rightarrow> ws_env \<Rightarrow> int \<Rightarrow> server \<Rightarrow> server" where
  "hb_tick opts w now s = hb_rooms w (now - sv_pongTimeout opts) (jm_values (sv_rooms s)) s"

definition sv_kick :: "ws_env \<Rightarrow> string \<Rightarrow> string \<Rightarrow> utf16 option \<Rightarrow> server \<Rightarrow> server" where
  "sv_kick w roomId peerId reason s =
     (case jm_get (sv_rooms s) roomId of
        None \<Rightarrow> s
      | Some inst \<Rightarrow>
          (let s1 = sv_exec w inst (OpKick peerId reason) s
           in if jm_has (rm_peers (sv_room s inst)) peerId
              then sv_emit [MetricAdd ''peers_kicked'', AuditLog ''peer-kicked'' roomId (Some peerId)] s1 else s1))"

fun rg_disconnectPeers :: "conn list \<Rightarrow> log \<Rightarrow> log" where
  "rg_disconnectPeers [] l = l"
| "rg_disconnectPeers (c # cs) l =
     rg_disconnectPeers cs (peer_disconnect c CloseCode_Normal (close_reason ServerStopping) l)"

fun rg_disconnectAll :: "nat list \<Rightarrow> server \<Rightarrow> server" where
  "rg_disconnectAll [] s = s\<lparr>sv_rooms := []\<rparr>"
| "rg_disconnectAll (inst # insts) s =
     rg_disconnectAll insts
       (s\<lparr>sv_log := rg_disconnectPeers (rm_getPeers (sv_room s inst)) (sv_log s),
          sv_room := (sv_room s)(inst := rm_dispose (sv_room s inst))\<rparr>)"

definition sv_stop :: "server \<Rightarrow> server" where
  "sv_stop s =
     (if sv_stopped s then s else rg_disconnectAll (jm_values (sv_rooms s)) (s\<lparr>sv_stopped := True\<rparr>))"

section \<open>Events\<close>

datatype sv_event =
    EvConnect conn "string option"
  | EvAuth int conn auth_result
  | EvIce conn "json list option option"
  | EvFrame int conn utf16
  | EvClose conn
  | EvRoomTimer nat
  | EvHeartbeat int
  | EvKick string string "utf16 option"
  | EvStop

text \<open>An event happens only where the host can deliver it: a handler's continuation once, in its phase.\<close>

fun sv_enabled :: "sv_event \<Rightarrow> server \<Rightarrow> bool" where
  "sv_enabled (EvConnect c origin) s \<longleftrightarrow> sv_phase s c = NoConn \<and> \<not> sv_stopped s"
| "sv_enabled (EvAuth now c res) s \<longleftrightarrow> sv_phase s c = Authenticating"
| "sv_enabled (EvIce c hook) s \<longleftrightarrow> (\<exists>inst isNew. sv_phase s c = AwaitingIce inst isNew)"
| "sv_enabled (EvHeartbeat now) s \<longleftrightarrow> \<not> sv_stopped s"
| "sv_enabled _ s \<longleftrightarrow> True"

definition sv_step ::
  "server_opts \<Rightarrow> (string \<Rightarrow> (bool \<times> string option) option) \<Rightarrow> (utf16 \<Rightarrow> decoded) \<Rightarrow> ws_env \<Rightarrow> sv_event \<Rightarrow> server \<Rightarrow> server" where
  "sv_step opts route decode w ev s =
     (case ev of
        EvConnect c origin \<Rightarrow> sv_onConnection opts c origin s
      | EvAuth now c res \<Rightarrow> sv_onAuth opts route w now c res s
      | EvIce c hook \<Rightarrow> sv_onIce w c hook s
      | EvFrame now c raw \<Rightarrow> sv_onFrame decode w now c raw s
      | EvClose c \<Rightarrow> sv_onClose w c s
      | EvRoomTimer inst \<Rightarrow> sv_onRoomTimer w inst s
      | EvHeartbeat now \<Rightarrow> hb_tick opts w now s
      | EvKick roomId peerId reason \<Rightarrow> sv_kick w roomId peerId reason s
      | EvStop \<Rightarrow> sv_stop s)"

inductive server_step :: "server_opts \<Rightarrow> server \<Rightarrow> server \<Rightarrow> bool" for opts where
  event: "sv_enabled ev s \<Longrightarrow> server_step opts s (sv_step opts route decode w ev s)"

inductive_cases server_stepE: "server_step opts s s'"

section \<open>Room operations seen from outside\<close>

lemma rm_frame_simps [simp]:
  "rm_id (fst (rm_enter ps c rl)) = rm_id (fst rl)" "rm_id (fst (rm_welcome w ps c ex rl)) = rm_id (fst rl)"
  "rm_id (rm_dispose r) = rm_id r" "rm_inst (rm_dispose r) = rm_inst r" "rm_maxPeers (rm_dispose r) = rm_maxPeers r"
  "rm_peers (rm_dispose r) = []" "rm_state (rm_dispose r) = Closed"
  by (simp_all add: rm_enter_def rm_welcome_def rm_dispose_def split_def Let_def)

lemma rm_removePeer_frame [simp]:
  "rm_id (fst (rm_removePeer w ps i rl)) = rm_id (fst rl)" "rm_inst (fst (rm_removePeer w ps i rl)) = rm_inst (fst rl)"
  "rm_maxPeers (fst (rm_removePeer w ps i rl)) = rm_maxPeers (fst rl)"
  by (simp_all add: rm_removePeer_def split_def Let_def split: option.splits)

lemma rm_removePeer_peers: "rm_peers (fst (rm_removePeer w ps i rl)) = jm_delete i (rm_peers (fst rl))"
  by (auto simp: rm_removePeer_def split_def Let_def delete_id map_of_eq_None_iff split: option.splits)

lemma rm_removePeer_get:
  "jm_get (rm_peers (fst (rm_removePeer w ps i rl))) j = (if j = i then None else jm_get (rm_peers (fst rl)) j)"
  by (simp add: rm_removePeer_peers)

lemma rm_removePeer_closed:
  "rm_inv idof (fst rl) \<Longrightarrow>
   closed_count k (snd (rm_removePeer w ps i rl)) = closed_count k (snd rl) +
     (if k = rm_inst (fst rl) \<and> rm_state (fst rl) \<noteq> Closed \<and> rm_state (fst (rm_removePeer w ps i rl)) = Closed then 1 else 0)"
  by (auto simp: rm_removePeer_def split_def Let_def rm_inv_def split: option.splits)

definition room_op_plain :: "room_op \<Rightarrow> bool" where
  "room_op_plain x \<longleftrightarrow> (case x of OpAdd _ _ \<Rightarrow> False | OpDispose \<Rightarrow> False | _ \<Rightarrow> True)"

lemma rm_exec_frame:
  assumes "room_op_plain x"
  shows "rm_id (fst (rm_exec w ps x rl)) = rm_id (fst rl)" "rm_inst (fst (rm_exec w ps x rl)) = rm_inst (fst rl)"
    "rm_maxPeers (fst (rm_exec w ps x rl)) = rm_maxPeers (fst rl)"
    "jm_get (rm_peers (fst (rm_exec w ps x rl))) j = Some c \<Longrightarrow> jm_get (rm_peers (fst rl)) j = Some c"
  using assms
  by (cases x; auto simp: room_op_plain_def rm_exec_def rm_kickPeer_def rm_disconnectAndRemove_def rm_onDisconnected_def
      rm_relay_def rm_setPeerRole_def rm_markActivity_def rm_forceClose_def rm_removePeer_get split_def Let_def
      split: option.splits if_splits)+

lemma rm_exec_closed:
  assumes "room_op_plain x" "rm_inv idof (fst rl)"
  shows "closed_count k (snd (rm_exec w ps x rl)) = closed_count k (snd rl) +
    (if k = rm_inst (fst rl) \<and> rm_state (fst rl) \<noteq> Closed \<and> rm_state (fst (rm_exec w ps x rl)) = Closed then 1 else 0)"
proof -
  have rem: "closed_count k (snd (rm_removePeer w ps i (fst rl, l))) = closed_count k l +
      (if k = rm_inst (fst rl) \<and> rm_state (fst rl) \<noteq> Closed \<and> rm_state (fst (rm_removePeer w ps i (fst rl, l))) = Closed then 1 else 0)" for i l
    using rm_removePeer_closed [of idof "(fst rl, l)" k w ps i] assms(2) by simp
  show ?thesis
    using assms(1) rem rem [of _ "snd rl"]
    by (cases x) (auto simp: room_op_plain_def rm_exec_def rm_kickPeer_def rm_disconnectAndRemove_def rm_onDisconnected_def
        rm_relay_def rm_setPeerRole_def rm_markActivity_def rm_forceClose_def split_def Let_def split: option.splits)
qed

section \<open>The invariant\<close>

abbreviation sv_idof :: "server \<Rightarrow> conn \<Rightarrow> string" where
  "sv_idof s \<equiv> \<lambda>c. pr_id (sv_peers s c)"

definition sv_conns_ok :: "server_opts \<Rightarrow> server \<Rightarrow> bool" where
  "sv_conns_ok opts s \<longleftrightarrow>
     sv_connections s = int (length (sv_counted s)) \<and> sv_connections s \<le> max 0 (sv_maxConnections opts)"

definition sv_registry_ok :: "server_opts \<Rightarrow> server \<Rightarrow> bool" where
  "sv_registry_ok opts s \<longleftrightarrow>
     jm_wf (sv_rooms s) \<and> int (length (sv_rooms s)) \<le> max 0 (sv_maxRooms opts) \<and>
     (\<forall>i inst. jm_get (sv_rooms s) i = Some inst \<longrightarrow>
        inst < sv_nextInst s \<and> rm_id (sv_room s inst) = i \<and> rm_state (sv_room s inst) \<noteq> Closed)"

definition sv_rooms_ok :: "server_opts \<Rightarrow> server \<Rightarrow> bool" where
  "sv_rooms_ok opts s \<longleftrightarrow>
     (\<forall>inst < sv_nextInst s. rm_good (sv_idof s) (sv_room s inst, sv_log s) \<and> rm_inst (sv_room s inst) = inst \<and>
        rm_maxPeers (sv_room s inst) = ro_maxPeers (sv_roomOpts opts) \<and>
        (\<forall>j c. jm_get (rm_peers (sv_room s inst)) j = Some c \<longrightarrow> sv_phase s c = Joined inst)) \<and>
     (\<forall>inst \<ge> sv_nextInst s. closed_count inst (sv_log s) = 0) \<and>
     (\<forall>c inst. phase_room (sv_phase s c) = Some inst \<longrightarrow> inst < sv_nextInst s)"

definition sv_inv :: "server_opts \<Rightarrow> server \<Rightarrow> bool" where
  "sv_inv opts s \<longleftrightarrow> sv_conns_ok opts s \<and> sv_registry_ok opts s \<and> sv_rooms_ok opts s"

lemmas sv_inv_defs = sv_inv_def sv_conns_ok_def sv_registry_ok_def sv_rooms_ok_def

lemma sv_inv_room:
  assumes "sv_inv opts s" "inst < sv_nextInst s"
  shows "rm_good (sv_idof s) (sv_room s inst, sv_log s)" "rm_inst (sv_room s inst) = inst"
    "rm_maxPeers (sv_room s inst) = ro_maxPeers (sv_roomOpts opts)"
    "jm_get (rm_peers (sv_room s inst)) j = Some c \<Longrightarrow> sv_phase s c = Joined inst"
  using assms by (simp_all add: sv_inv_defs)

lemma sv_inv_reg:
  assumes "sv_inv opts s" "jm_get (sv_rooms s) i = Some inst"
  shows "inst < sv_nextInst s" "rm_id (sv_room s inst) = i" "rm_state (sv_room s inst) \<noteq> Closed"
  using assms by (simp_all add: sv_inv_defs)

lemma sv_inv_phase_room: "sv_inv opts s \<Longrightarrow> phase_room (sv_phase s c) = Some inst \<Longrightarrow> inst < sv_nextInst s"
  unfolding sv_inv_defs by blast

definition quiet_log :: "log \<Rightarrow> bool" where
  "quiet_log xs \<longleftrightarrow> (\<forall>k. closed_count k xs = 0)"

lemma closed_count_server [simp]:
  "closed_count k (ServerRoomCreated j # l) = closed_count k l" "closed_count k (ServerRoomClosed i # l) = closed_count k l"
  "closed_count k (AuditLog a b d # l) = closed_count k l" "closed_count k (MetricAdd m # l) = closed_count k l"
  "closed_count k (Redirected a b d # l) = closed_count k l" "closed_count k (PeerRateLimited c # l) = closed_count k l"
  "closed_count k (PeerPong c # l) = closed_count k l"
  by (simp_all add: closed_count_def)

lemma sv_inv_log:
  assumes "sv_inv opts s" "\<And>k. closed_count k l' = closed_count k (sv_log s)"
  shows "sv_inv opts (s\<lparr>sv_log := l'\<rparr>)"
proof -
  have "rm_good f (r, l') = rm_good f (r, sv_log s)" for f r using assms(2) by (simp add: rm_good_def)
  with assms show ?thesis by (simp add: sv_inv_defs)
qed

lemma sv_inv_emit: "sv_inv opts s \<Longrightarrow> quiet_log xs \<Longrightarrow> sv_inv opts (sv_emit xs s)"
  unfolding sv_emit_def by (rule sv_inv_log) (simp_all add: quiet_log_def)

lemma sv_inv_phase:
  assumes "sv_inv opts s" "\<And>inst. sv_phase s c \<noteq> Joined inst" "\<And>inst. phase_room p = Some inst \<Longrightarrow> inst < sv_nextInst s"
  shows "sv_inv opts (sv_setPhase c p s)"
proof -
  have "jm_get (rm_peers (sv_room s inst)) j \<noteq> Some c" if "inst < sv_nextInst s" for inst j
    using sv_inv_room(4) [OF assms(1) that, of j c] assms(2) [of inst] by blast
  with assms(1,3) show ?thesis by (auto simp: sv_inv_defs sv_setPhase_def)
qed

lemma rm_inv_cong:
  "rm_inv f r \<Longrightarrow> (\<And>j c. jm_get (rm_peers r) j = Some c \<Longrightarrow> g c = f c) \<Longrightarrow> rm_inv g r"
  by (auto simp: rm_inv_def)

lemma sv_inv_peer:
  assumes "sv_inv opts s" "pr_id p = pr_id (sv_peers s c) \<or> (\<forall>inst. sv_phase s c \<noteq> Joined inst)"
  shows "sv_inv opts (s\<lparr>sv_peers := (sv_peers s)(c := p)\<rparr>)"
proof -
  let ?g = "\<lambda>d. pr_id (((sv_peers s)(c := p)) d)"
  have "rm_good ?g (sv_room s inst, sv_log s)" if "inst < sv_nextInst s" for inst
  proof -
    have "rm_inv ?g (sv_room s inst)"
    proof (rule rm_inv_cong)
      show "rm_inv (sv_idof s) (sv_room s inst)" using sv_inv_room(1) [OF assms(1) that] by (simp add: rm_good_def)
      show "?g d = sv_idof s d" if "jm_get (rm_peers (sv_room s inst)) j = Some d" for j d
        using sv_inv_room(4) [OF assms(1) \<open>inst < sv_nextInst s\<close> that] assms(2) by auto
    qed
    then show ?thesis using sv_inv_room(1) [OF assms(1) that] by (simp add: rm_good_def)
  qed
  with assms(1) show ?thesis by (simp add: sv_inv_defs)
qed

lemma sv_store_frame [simp]:
  "sv_phase (sv_store inst rl s) = sv_phase s" "sv_nextInst (sv_store inst rl s) = sv_nextInst s"
  "sv_peers (sv_store inst rl s) = sv_peers s" "sv_stopped (sv_store inst rl s) = sv_stopped s"
  "sv_room (sv_store inst rl s) = (sv_room s)(inst := fst rl)"
  by (simp_all add: sv_store_def rg_onClosed_def sv_emit_def Let_def)

lemma rg_onClosed_inv:
  assumes "sv_conns_ok opts s" "sv_rooms_ok opts s" "jm_wf (sv_rooms s)" "int (length (sv_rooms s)) \<le> max 0 (sv_maxRooms opts)"
    and "\<forall>i k. jm_get (sv_rooms s) i = Some k \<longrightarrow> k < sv_nextInst s \<and> rm_id (sv_room s k) = i \<and> (k \<noteq> inst \<longrightarrow> rm_state (sv_room s k) \<noteq> Closed)"
  shows "sv_inv opts (rg_onClosed inst s)"
proof -
  let ?i = "rm_id (sv_room s inst)"
  let ?s1 = "if jm_get (sv_rooms s) ?i = Some inst then s\<lparr>sv_rooms := jm_delete ?i (sv_rooms s)\<rparr> else s"
  have "sv_conns_ok opts ?s1" "sv_rooms_ok opts ?s1" using assms(1,2) by (simp_all add: sv_conns_ok_def sv_rooms_ok_def)
  moreover have "sv_registry_ok opts ?s1"
  proof (cases "jm_get (sv_rooms s) ?i = Some inst")
    case True
    have "k < sv_nextInst s \<and> rm_id (sv_room s k) = i \<and> rm_state (sv_room s k) \<noteq> Closed"
      if "i \<noteq> ?i" "jm_get (sv_rooms s) i = Some k" for i k using that assms(5) by auto
    with True assms(3,4) show ?thesis by (simp add: sv_registry_ok_def rm_delete_length)
  next
    case False
    have "k < sv_nextInst s \<and> rm_id (sv_room s k) = i \<and> rm_state (sv_room s k) \<noteq> Closed"
      if "jm_get (sv_rooms s) i = Some k" for i k using that assms(5) False by metis
    with False assms(3,4) show ?thesis by (simp add: sv_registry_ok_def)
  qed
  ultimately have "sv_inv opts ?s1" by (simp add: sv_inv_def)
  then show ?thesis
    unfolding rg_onClosed_def Let_def by (rule sv_inv_emit) (simp add: quiet_log_def)
qed

lemma sv_store_inv:
  assumes "sv_inv opts s" "inst < sv_nextInst s" "rm_good (sv_idof s) rl"
    and "rm_id (fst rl) = rm_id (sv_room s inst)" "rm_inst (fst rl) = inst" "rm_maxPeers (fst rl) = rm_maxPeers (sv_room s inst)"
    and "\<And>j c. jm_get (rm_peers (fst rl)) j = Some c \<Longrightarrow> sv_phase s c = Joined inst"
    and "\<And>k. closed_count k (snd rl) = closed_count k (sv_log s) +
      (if k = inst \<and> rm_state (sv_room s inst) \<noteq> Closed \<and> rm_state (fst rl) = Closed then 1 else 0)"
  shows "sv_inv opts (sv_store inst rl s)"
proof -
  let ?s1 = "s\<lparr>sv_room := (sv_room s)(inst := fst rl), sv_log := snd rl\<rparr>"
  have conns: "sv_conns_ok opts ?s1" using assms(1) by (simp add: sv_inv_defs)
  have rooms: "sv_rooms_ok opts ?s1" using assms by (auto simp: sv_inv_defs rm_good_def)
  show ?thesis
  proof (cases "closed_count inst (snd rl) = closed_count inst (sv_log s)")
    case True
    then have "rm_state (sv_room s inst) = Closed \<or> rm_state (fst rl) \<noteq> Closed" using assms(8) [of inst] by (auto split: if_splits)
    then have "sv_registry_ok opts ?s1" using assms(1,4) by (auto simp: sv_inv_defs)
    with conns rooms True show ?thesis by (simp add: sv_store_def sv_inv_def)
  next
    case False
    have "sv_inv opts (rg_onClosed inst ?s1)"
      by (rule rg_onClosed_inv [OF conns rooms]) (use assms(1,4) in \<open>auto simp: sv_inv_defs\<close>)
    with False show ?thesis by (simp add: sv_store_def)
  qed
qed

lemma sv_exec_inv:
  assumes "sv_inv opts s" "inst < sv_nextInst s" "room_op_plain x"
  shows "sv_inv opts (sv_exec w inst x s)"
proof -
  have good: "rm_good (sv_idof s) (sv_rl inst s)" "rm_inst (sv_room s inst) = inst"
    and mem: "\<And>j c. jm_get (rm_peers (sv_room s inst)) j = Some c \<Longrightarrow> sv_phase s c = Joined inst"
    using assms(1,2) by (auto simp: sv_inv_defs sv_rl_def)
  then have inv: "rm_inv (sv_idof s) (fst (sv_rl inst s))" by (simp add: rm_good_def)
  show ?thesis
    unfolding sv_exec_def
  proof (rule sv_store_inv [OF assms(1,2)])
    show "rm_good (sv_idof s) (rm_exec w (sv_peers s) x (sv_rl inst s))" by (rule rm_exec_good [OF good(1)]) simp
  qed (use good(2) mem rm_exec_frame [OF assms(3), of w "sv_peers s" "sv_rl inst s"]
      rm_exec_closed [OF assms(3) inv, of _ w "sv_peers s"] in \<open>auto simp: sv_rl_def\<close>)
qed

section \<open>Every event keeps it\<close>

lemma rm_addPeer_frame:
  shows "rm_id (fst (snd (rm_addPeer w ps c ice rl))) = rm_id (fst rl)" "rm_inst (fst (snd (rm_addPeer w ps c ice rl))) = rm_inst (fst rl)"
    "rm_maxPeers (fst (snd (rm_addPeer w ps c ice rl))) = rm_maxPeers (fst rl)"
    "closed_count k (snd (snd (rm_addPeer w ps c ice rl))) = closed_count k (snd rl)"
    "rm_state (fst (snd (rm_addPeer w ps c ice rl))) = Closed \<longleftrightarrow> rm_state (fst rl) = Closed"
    "jm_get (rm_peers (fst (snd (rm_addPeer w ps c ice rl)))) j = Some d \<Longrightarrow>
       jm_get (rm_peers (fst rl)) j = Some d \<or> d = c \<and> fst (rm_addPeer w ps c ice rl) = Added"
  by (cases rule: rm_addPeer_cases [of w ps c ice rl];
      auto simp: rm_refuse_def rm_enter_room [OF refl] rm_welcome_room split: if_splits)+

lemma sv_add_store_inv:
  fixes w ice
  assumes "sv_inv opts s" "inst < sv_nextInst s" "\<And>k. sv_phase s c \<noteq> Joined k"
  defines "res \<equiv> rm_addPeer w (sv_peers s) c ice (sv_rl inst s)"
  shows "fst res \<noteq> Added \<Longrightarrow> sv_inv opts (sv_store inst (snd res) s)"
    "fst res = Added \<Longrightarrow> sv_inv opts (sv_setPhase c (Joined inst) (sv_store inst (snd res) s))"
proof -
  note fr = rm_addPeer_frame [where w = w and ps = "sv_peers s" and c = c and ice = ice and rl = "sv_rl inst s", folded res_def]
  have good: "rm_good (sv_idof s) (snd res)"
    unfolding res_def by (rule rm_addPeer_good) (use sv_inv_room(1) [OF assms(1,2)] in \<open>simp_all add: sv_rl_def\<close>)
  have keep: "sv_inv opts (sv_store inst (snd res) t)"
    if t: "sv_inv opts t" "sv_nextInst t = sv_nextInst s" "sv_peers t = sv_peers s" "sv_room t = sv_room s" "sv_log t = sv_log s"
      "\<And>j d. jm_get (rm_peers (fst (snd res))) j = Some d \<Longrightarrow> sv_phase t d = Joined inst" for t
    by (rule sv_store_inv [OF t(1)])
      (use good t fr sv_inv_room(2) [OF assms(1,2)] assms(2) in \<open>auto simp: sv_rl_def\<close>)
  show "sv_inv opts (sv_store inst (snd res) s)" if "fst res \<noteq> Added"
    by (rule keep) (use assms(1) fr(6) that sv_inv_room(4) [OF assms(1,2)] in \<open>auto simp: sv_rl_def\<close>)
  show "sv_inv opts (sv_setPhase c (Joined inst) (sv_store inst (snd res) s))" if "fst res = Added"
  proof -
    have "sv_inv opts (sv_setPhase c (Joined inst) s)" using assms(1,2,3) by (intro sv_inv_phase) auto
    then have "sv_inv opts (sv_store inst (snd res) (sv_setPhase c (Joined inst) s))"
      by (rule keep) (use fr(6) sv_inv_room(4) [OF assms(1,2)] in \<open>auto simp: sv_rl_def sv_setPhase_def\<close>)
    moreover have "sv_store inst (snd res) (sv_setPhase c (Joined inst) s) = sv_setPhase c (Joined inst) (sv_store inst (snd res) s)"
      by (simp add: sv_store_def sv_setPhase_def rg_onClosed_def sv_emit_def Let_def)
    ultimately show ?thesis by simp
  qed
qed

lemma rg_rollback_inv:
  assumes "sv_inv opts s"
  shows "sv_inv opts (rg_rollbackIfEmpty i b s)"
proof (cases "jm_get (sv_rooms s) i")
  case (Some inst)
  note reg = sv_inv_reg [OF assms Some]
  show ?thesis
  proof (cases "b \<and> rm_getPeerCount (sv_room s inst) = 0")
    case True
    let ?s1 = "s\<lparr>sv_room := (sv_room s)(inst := rm_dispose (sv_room s inst)), sv_rooms := jm_delete i (sv_rooms s)\<rparr>"
    have "rm_good (sv_idof s) (rm_dispose (sv_room s inst), sv_log s)"
      by (rule rm_dispose_good) (rule sv_inv_room(1) [OF assms reg(1)])
    then have "sv_rooms_ok opts ?s1" using assms by (auto simp: sv_inv_defs)
    moreover have "sv_registry_ok opts ?s1"
    proof -
      have "k \<noteq> inst" if "j \<noteq> i" "jm_get (sv_rooms s) j = Some k" for j k
        using that reg(2) sv_inv_reg(2) [OF assms that(2)] by auto
      with assms show ?thesis by (auto simp: sv_inv_defs intro!: rm_delete_length)
    qed
    moreover have "sv_conns_ok opts ?s1" using assms by (simp add: sv_inv_defs)
    ultimately show ?thesis using Some True by (simp add: rg_rollbackIfEmpty_def sv_inv_def)
  qed (use assms Some in \<open>auto simp: rg_rollbackIfEmpty_def\<close>)
qed (simp add: rg_rollbackIfEmpty_def assms)

lemma rg_rollback_frame [simp]:
  "sv_phase (rg_rollbackIfEmpty i b s) = sv_phase s" "sv_nextInst (rg_rollbackIfEmpty i b s) = sv_nextInst s"
  by (simp_all add: rg_rollbackIfEmpty_def split: option.splits)

lemma sv_emit_frame [simp]:
  "sv_phase (sv_emit xs s) = sv_phase s" "sv_nextInst (sv_emit xs s) = sv_nextInst s" "sv_peers (sv_emit xs s) = sv_peers s"
  "sv_room (sv_emit xs s) = sv_room s" "sv_rooms (sv_emit xs s) = sv_rooms s"
  by (simp_all add: sv_emit_def)

lemma sv_finish_state_inv:
  assumes "sv_inv opts s" "\<And>k. sv_phase s c \<noteq> Joined k" "quiet_log xs"
  shows "sv_inv opts (sv_setPhase c Finished (sv_emit xs s))"
  by (rule sv_inv_phase) (use assms sv_inv_emit in \<open>auto\<close>)

lemma sv_finish_inv:
  assumes "sv_inv opts s" "inst < sv_nextInst s" "\<And>k. sv_phase s c \<noteq> Joined k"
  shows "sv_inv opts (sv_finish w c inst isNew ice s)"
proof -
  let ?res = "rm_addPeer w (sv_peers s) c ice (sv_rl inst s)"
  note store = sv_add_store_inv [OF assms, of w ice]
  show ?thesis
  proof (cases "fst ?res")
    case Added
    let ?p = "peer_admit (sv_peers (sv_store inst (snd ?res) s) c)"
    have "sv_inv opts ((sv_setPhase c (Joined inst) (sv_store inst (snd ?res) s))
        \<lparr>sv_peers := (sv_peers (sv_setPhase c (Joined inst) (sv_store inst (snd ?res) s)))(c := ?p)\<rparr>)"
      by (rule sv_inv_peer) (use store(2) Added in \<open>auto simp: peer_admit_def sv_setPhase_def\<close>)
    then have inv: "sv_inv opts (sv_emit xs ((sv_setPhase c (Joined inst) (sv_store inst (snd ?res) s))
        \<lparr>sv_peers := (sv_peers (sv_setPhase c (Joined inst) (sv_store inst (snd ?res) s)))(c := ?p)\<rparr>))" if "quiet_log xs" for xs
      by (rule sv_inv_emit) (rule that)
    define xs where "xs = [AuditLog ''peer-joined'' (rm_id (sv_room s inst)) (Some (sv_idof s c)), MetricAdd ''peers_connected''] @
      (if isNew then [MetricAdd ''rooms_created'', ServerRoomCreated inst, AuditLog ''room-created'' (rm_id (sv_room s inst)) None] else [])"
    have "quiet_log xs" by (simp add: xs_def quiet_log_def)
    moreover have "sv_finish w c inst isNew ice s =
        sv_setPhase c (Joined inst) (sv_emit xs ((sv_store inst (snd ?res) s)\<lparr>sv_peers := (sv_peers (sv_store inst (snd ?res) s))(c := ?p)\<rparr>))"
      using Added by (simp add: sv_finish_def split_def Let_def xs_def)
    moreover have "sv_setPhase c (Joined inst) (sv_emit xs ((sv_store inst (snd ?res) s)\<lparr>sv_peers := (sv_peers (sv_store inst (snd ?res) s))(c := ?p)\<rparr>)) =
      sv_emit xs ((sv_setPhase c (Joined inst) (sv_store inst (snd ?res) s))
        \<lparr>sv_peers := (sv_peers (sv_setPhase c (Joined inst) (sv_store inst (snd ?res) s)))(c := ?p)\<rparr>)"
      by (rule server.equality) (simp_all add: sv_emit_def sv_setPhase_def)
    ultimately show ?thesis using inv by simp
  next
    case Refused
    then have "sv_inv opts (rg_rollbackIfEmpty (rm_id (sv_room s inst)) isNew (sv_store inst (snd ?res) s))"
      using store(1) by (intro rg_rollback_inv) simp
    with Refused assms(3) show ?thesis
      by (auto simp: sv_finish_def split_def Let_def intro!: sv_inv_phase)
  next
    case AddThrew
    then have "sv_inv opts (rg_rollbackIfEmpty (rm_id (sv_room s inst)) isNew (sv_store inst (snd ?res) s))"
      using store(1) by (intro rg_rollback_inv) simp
    with AddThrew assms(3) show ?thesis
      by (auto simp: sv_finish_def sv_fail_def split_def Let_def quiet_log_def intro!: sv_finish_state_inv)
  qed
qed

lemma rg_getOrCreate_inv:
  assumes "sv_inv opts s" "jm_has (sv_rooms s) i \<or> int (length (sv_rooms s)) < sv_maxRooms opts"
    "rg_getOrCreate opts i s = (inst, isNew, s1)"
  shows "sv_inv opts s1" "inst < sv_nextInst s1" "sv_phase s1 = sv_phase s" "sv_peers s1 = sv_peers s"
proof -
  show "sv_phase s1 = sv_phase s" "sv_peers s1 = sv_peers s"
    using assms(3) by (auto simp: rg_getOrCreate_def Let_def split: option.splits)
  have "sv_inv opts s1 \<and> inst < sv_nextInst s1"
  proof (cases "jm_get (sv_rooms s) i")
    case (Some k)
    then show ?thesis using assms sv_inv_reg(1) [OF assms(1) Some] by (auto simp: rg_getOrCreate_def)
  next
    case None
    let ?n = "sv_nextInst s"
    have s1: "s1 = s\<lparr>sv_nextInst := ?n + 1, sv_room := (sv_room s)(?n := rm_new ?n i (sv_roomOpts opts)), sv_rooms := jm_set i ?n (sv_rooms s)\<rparr>"
      and inst: "inst = ?n" using assms(3) None by (auto simp: rg_getOrCreate_def Let_def)
    have "closed_count ?n (sv_log s) = 0" using assms(1) by (simp add: sv_inv_defs)
    then have new: "rm_good (sv_idof s) (rm_new ?n i (sv_roomOpts opts), sv_log s)"
      by (auto simp: rm_good_def rm_inv_def rm_new_def)
    have "sv_rooms_ok opts s1"
      using assms(1) new by (auto simp: sv_inv_defs s1 rm_new_def less_Suc_eq)
    moreover have "int (length (jm_set i ?n (sv_rooms s))) \<le> max 0 (sv_maxRooms opts)"
      using assms(1,2) None by (auto simp: sv_inv_defs jm_size_set jm_has_def)
    then have "sv_registry_ok opts s1"
      using assms(1) by (auto simp: sv_inv_defs s1 rm_new_def less_SucI)
    moreover have "sv_conns_ok opts s1" using assms(1) by (simp add: sv_inv_defs s1)
    ultimately show ?thesis by (simp add: sv_inv_def inst s1)
  qed
  then show "sv_inv opts s1" "inst < sv_nextInst s1" by auto
qed

lemma sv_onConnection_inv:
  assumes "sv_inv opts s" "sv_phase s c = NoConn"
  shows "sv_inv opts (sv_onConnection opts c origin s)"
proof -
  let ?s1 = "s\<lparr>sv_connections := sv_connections s + 1, sv_counted := c # sv_counted s\<rparr>"
  have "sv_inv opts (sv_setPhase c Authenticating ?s1)" if "sv_connections s < sv_maxConnections opts"
    by (rule sv_inv_phase) (use assms that in \<open>auto simp: sv_inv_defs\<close>)
  then show ?thesis
    using assms by (auto simp: sv_onConnection_def quiet_log_def intro!: sv_finish_state_inv)
qed

lemma sv_onAuth_inv:
  assumes "sv_inv opts s" "sv_phase s c = Authenticating"
  shows "sv_inv opts (sv_onAuth opts route w now c res s)"
proof (cases res)
  case (AuthNo code reason)
  then show ?thesis using assms by (auto simp: sv_onAuth_def quiet_log_def intro!: sv_finish_state_inv)
next
  case (AuthOk a)
  obtain inst isNew s1 where g: "rg_getOrCreate opts (ra_roomId a) s = (inst, isNew, s1)" by (metis prod_cases3)
  define p where "p = peer_new now (ra_peerId a) (Some (ra_role a)) (ra_metadata a) (sv_rateLimit opts) None"
  let ?s2 = "s1\<lparr>sv_peers := (sv_peers s1)(c := p)\<rparr>"
  have enter: "sv_inv opts (if so_iceServersHook opts then sv_setPhase c (AwaitingIce inst isNew) ?s2 else sv_finish w c inst isNew None ?s2)"
    if "jm_has (sv_rooms s) (ra_roomId a) \<or> int (length (sv_rooms s)) < sv_maxRooms opts"
  proof -
    note G = rg_getOrCreate_inv [OF assms(1) that g]
    have "sv_inv opts ?s2" by (rule sv_inv_peer) (use G assms(2) in auto)
    then show ?thesis using G assms(2) by (auto intro!: sv_inv_phase sv_finish_inv)
  qed
  have close: "sv_inv opts (sv_setPhase c Finished (sv_emit xs s))" if "quiet_log xs" for xs
    using assms that by (auto intro!: sv_finish_state_inv)
  show ?thesis
    using AuthOk g enter close
    by (auto simp: sv_onAuth_def Let_def p_def [symmetric] quiet_log_def split: option.splits prod.splits bool.splits)
qed

lemma sv_onIce_inv:
  assumes "sv_inv opts s" "sv_phase s c = AwaitingIce inst isNew"
  shows "sv_inv opts (sv_onIce w c hook s)"
proof -
  have "inst < sv_nextInst s" using sv_inv_phase_room [OF assms(1), of c inst] assms(2) by simp
  then show ?thesis
    using assms rg_rollback_inv [OF assms(1)]
    by (auto simp: sv_onIce_def sv_fail_def quiet_log_def split: option.splits intro!: sv_finish_inv sv_finish_state_inv)
qed

lemma sv_exec_frame [simp]:
  "sv_phase (sv_exec w inst x s) = sv_phase s" "sv_nextInst (sv_exec w inst x s) = sv_nextInst s"
  "sv_peers (sv_exec w inst x s) = sv_peers s"
  by (simp_all add: sv_exec_def)

lemma sv_onFrame_inv:
  assumes "sv_inv opts s"
  shows "sv_inv opts (sv_onFrame decode w now c raw s)"
proof (cases "phase_room (sv_phase s c)")
  case (Some inst)
  have i: "inst < sv_nextInst s" using sv_inv_phase_room [OF assms Some] .
  let ?s1 = "s\<lparr>sv_peers := (sv_peers s)(c := snd (peer_handleMessage decode now raw (sv_peers s c)))\<rparr>"
  have s1: "sv_inv opts ?s1" by (rule sv_inv_peer) (use assms in \<open>simp_all add: peer_handleMessage_frame\<close>)
  have ex: "sv_inv opts (sv_exec w inst x ?s1)" if "room_op_plain x" for x
    by (rule sv_exec_inv) (use s1 i that in auto)
  show ?thesis
    using Some s1 ex
    by (auto simp: sv_onFrame_def split_def Let_def room_op_plain_def quiet_log_def split: peer_action.splits intro!: sv_inv_emit)
qed (simp add: sv_onFrame_def assms)

lemma rm_onDisconnected_gone:
  assumes "rm_inv idof (fst rl)" "pr_id (ps c) = idof c"
  shows "jm_get (rm_peers (fst (rm_onDisconnected w ps c rl))) j \<noteq> Some c"
proof -
  have "jm_get (rm_peers (fst rl)) j = Some c \<Longrightarrow> pr_id (ps c) = j" using assms by (simp add: rm_inv_def)
  then show ?thesis by (cases "jm_get (rm_peers (fst rl)) (pr_id (ps c)) = Some c") (auto simp: rm_onDisconnected_def rm_removePeer_get)
qed

lemma sv_inv_finished:
  assumes "sv_inv opts s" "\<And>inst j. inst < sv_nextInst s \<Longrightarrow> jm_get (rm_peers (sv_room s inst)) j \<noteq> Some c"
  shows "sv_inv opts (sv_setPhase c Finished s)"
proof -
  let ?t = "sv_setPhase c Finished s"
  have t: "sv_room ?t = sv_room s" "sv_nextInst ?t = sv_nextInst s" "sv_peers ?t = sv_peers s" "sv_log ?t = sv_log s"
    "sv_phase ?t = (sv_phase s)(c := Finished)" by (simp_all add: sv_setPhase_def)
  have mem: "sv_phase ?t d = Joined inst" if "inst < sv_nextInst s" "jm_get (rm_peers (sv_room s inst)) j = Some d" for inst j d
  proof -
    have "d \<noteq> c" using assms(2) [OF that(1), of j] that(2) by blast
    then show ?thesis using sv_inv_room(4) [OF assms(1) that] by (simp add: t)
  qed
  have ph: "k < sv_nextInst s" if "phase_room (sv_phase ?t d) = Some k" for d k
    using that sv_inv_phase_room [OF assms(1), of d k] by (simp add: t split: if_splits)
  have "closed_count inst (sv_log s) = 0" if "inst \<ge> sv_nextInst s" for inst using assms(1) that by (simp add: sv_inv_defs)
  then have "sv_rooms_ok opts ?t"
    unfolding sv_rooms_ok_def t(1-4)
    by (intro conjI allI impI) (assumption | rule sv_inv_room(1-3) [OF assms(1)] mem ph | simp)+
  moreover have "sv_conns_ok opts ?t" "sv_registry_ok opts ?t"
    using assms(1) by (simp_all add: sv_inv_def sv_conns_ok_def sv_registry_ok_def sv_setPhase_def)
  ultimately show ?thesis by (simp add: sv_inv_def)
qed

lemma sv_exec_room: "sv_room (sv_exec w inst x s) = (sv_room s)(inst := fst (rm_exec w (sv_peers s) x (sv_rl inst s)))"
  by (simp add: sv_exec_def)

lemma sv_onClose_inv:
  assumes "sv_inv opts s"
  shows "sv_inv opts (sv_onClose w c s)"
proof -
  define s1 where "s1 = (if c \<in> set (sv_counted s)
    then s\<lparr>sv_connections := sv_connections s - 1, sv_counted := remove1 c (sv_counted s)\<rparr> else s)"
  have "sv_counted s \<noteq> []" if "c \<in> set (sv_counted s)" using that by auto
  then have s1: "sv_inv opts s1"
    using assms by (auto simp: s1_def sv_inv_defs length_remove1 of_nat_diff Suc_leI)
  show ?thesis
  proof (cases "\<exists>inst. sv_phase s1 c = Joined inst")
    case True
    then obtain inst where j: "sv_phase s1 c = Joined inst" by blast
    then have i: "inst < sv_nextInst s1" using sv_inv_phase_room [OF s1, of c inst] by simp
    let ?s2 = "sv_exec w inst (OpDisconnected c) s1"
    have s2: "sv_inv opts ?s2" by (rule sv_exec_inv [OF s1 i]) (simp add: room_op_plain_def)
    have rinv: "rm_inv (sv_idof s1) (fst (sv_rl inst s1))" using sv_inv_room(1) [OF s1 i] by (simp add: sv_rl_def rm_good_def)
    have "jm_get (rm_peers (sv_room ?s2 k)) i' \<noteq> Some c" if "k < sv_nextInst s1" for k i'
    proof (cases "k = inst")
      case True
      then show ?thesis using rm_onDisconnected_gone [OF rinv, of "sv_peers s1" c w i'] by (simp add: sv_exec_room rm_exec_def)
    next
      case False
      then show ?thesis using sv_inv_room(4) [OF s1 that, of i' c] j by (auto simp: sv_exec_room)
    qed
    then have "sv_inv opts (sv_setPhase c Finished (sv_emit xs ?s2))" if "quiet_log xs" for xs
      using s2 that by (intro sv_inv_finished sv_inv_emit) auto
    then show ?thesis
      using j by (simp add: sv_onClose_def Let_def s1_def [symmetric] quiet_log_def)
  next
    case False
    then show ?thesis
      using s1 by (auto simp: sv_onClose_def Let_def s1_def [symmetric] split: phase.splits)
  qed
qed

lemma hb_peers_inv: "sv_inv opts s \<Longrightarrow> inst < sv_nextInst s \<Longrightarrow> sv_inv opts (hb_peers w d inst cs s)"
proof (induction cs arbitrary: s)
  case (Cons c cs)
  let ?t = "if \<not> peer_isAlive d (sv_peers s c)
    then sv_exec w inst (OpPrune (pr_id (sv_peers s c)) CloseCode_GoingAway (close_reason HeartbeatTimeout)) s
    else s\<lparr>sv_log := peer_ping w (sv_peers s) c (sv_log s)\<rparr>"
  have "sv_inv opts ?t \<and> inst < sv_nextInst ?t"
    using Cons.prems sv_exec_inv [OF Cons.prems] sv_inv_log [OF Cons.prems(1)] by (simp add: room_op_plain_def peer_ping_def)
  then show ?case using Cons.IH [of ?t] by simp
qed simp

lemma hb_peers_next [simp]: "sv_nextInst (hb_peers w d inst cs s) = sv_nextInst s"
  by (induction cs arbitrary: s) simp_all

lemma hb_rooms_inv: "sv_inv opts s \<Longrightarrow> \<forall>k \<in> set insts. k < sv_nextInst s \<Longrightarrow> sv_inv opts (hb_rooms w d insts s)"
  by (induction insts arbitrary: s) (simp_all add: hb_peers_inv)

lemma hb_tick_inv:
  assumes "sv_inv opts s"
  shows "sv_inv opts (hb_tick opts w now s)"
  unfolding hb_tick_def
proof (rule hb_rooms_inv [OF assms], clarsimp)
  fix i k
  assume "(i, k) \<in> set (sv_rooms s)"
  then have "jm_get (sv_rooms s) i = Some k" using assms by (simp add: sv_inv_defs jm_mem_iff)
  then show "k < sv_nextInst s" by (rule sv_inv_reg(1) [OF assms])
qed

lemma sv_kick_inv:
  assumes "sv_inv opts s"
  shows "sv_inv opts (sv_kick w i j reason s)"
proof (cases "jm_get (sv_rooms s) i")
  case (Some inst)
  have "sv_inv opts (sv_exec w inst (OpKick j reason) s)"
    by (rule sv_exec_inv [OF assms sv_inv_reg(1) [OF assms Some]]) (simp add: room_op_plain_def)
  with Some show ?thesis by (auto simp: sv_kick_def Let_def quiet_log_def intro!: sv_inv_emit)
qed (simp add: sv_kick_def assms)

lemma closed_count_disconnectPeers [simp]: "closed_count k (rg_disconnectPeers cs l) = closed_count k l"
  by (induction cs arbitrary: l) simp_all

lemma rg_disconnectAll_inv:
  "sv_conns_ok opts s \<Longrightarrow> sv_rooms_ok opts s \<Longrightarrow> \<forall>k \<in> set insts. k < sv_nextInst s \<Longrightarrow> sv_inv opts (rg_disconnectAll insts s)"
proof (induction insts arbitrary: s)
  case Nil
  then show ?case by (simp add: sv_inv_defs)
next
  case (Cons inst insts)
  let ?l = "rg_disconnectPeers (rm_getPeers (sv_room s inst)) (sv_log s)"
  let ?t = "s\<lparr>sv_log := ?l, sv_room := (sv_room s)(inst := rm_dispose (sv_room s inst))\<rparr>"
  have log: "rm_good f (r, ?l) = rm_good f (r, sv_log s)" for f r by (simp add: rm_good_def)
  have "rm_good (sv_idof s) (rm_dispose (sv_room s inst), sv_log s)"
    by (rule rm_dispose_good) (use Cons.prems in \<open>auto simp: sv_rooms_ok_def\<close>)
  then have "sv_rooms_ok opts ?t" using Cons.prems(2,3) by (auto simp: sv_rooms_ok_def log)
  moreover have "sv_conns_ok opts ?t" using Cons.prems(1) by (simp add: sv_conns_ok_def)
  ultimately show ?case using Cons.IH [of ?t] Cons.prems(3) by simp
qed

lemma sv_stop_inv:
  assumes "sv_inv opts s"
  shows "sv_inv opts (sv_stop s)"
proof -
  have "\<forall>k \<in> set (jm_values (sv_rooms s)). k < sv_nextInst s"
    using assms sv_inv_reg(1) [OF assms] by (auto simp: sv_inv_defs jm_mem_iff)
  then show ?thesis
    using assms by (auto simp: sv_stop_def intro!: rg_disconnectAll_inv) (simp_all add: sv_inv_defs)
qed

lemma sv_step_inv: "sv_inv opts s \<Longrightarrow> sv_enabled ev s \<Longrightarrow> sv_inv opts (sv_step opts route decode w ev s)"
  by (cases ev) (auto simp: sv_step_def sv_onConnection_inv sv_onAuth_inv sv_onIce_inv sv_onFrame_inv sv_onClose_inv
      sv_onRoomTimer_def sv_exec_inv room_op_plain_def hb_tick_inv sv_kick_inv sv_stop_inv)


interpretation server_safe: safety "\<lambda>s. s = sv_new" "server_step opts" "sv_inv opts" for opts
proof unfold_locales
  show "s = sv_new \<Longrightarrow> sv_inv opts s" for s by (simp add: sv_inv_defs sv_new_def)
  show "sv_inv opts s \<Longrightarrow> server_step opts s t \<Longrightarrow> sv_inv opts t" for s t
    by (auto elim!: server_stepE intro: sv_step_inv)
qed

section \<open>Properties\<close>

text \<open>
  (C1) Limits: however connections, authentication results, hook results, frames, timers, kicks and
  the shutdown interleave, the connection counter is the number of counted open connections and
  within \<^verbatim>\<open>maxConnections\<close>; the registry has at most \<^verbatim>\<open>maxRooms\<close> rooms, each open, under its own
  id and with at most \<^verbatim>\<open>maxPeersPerRoom\<close> peers; and no connection is a member of two rooms.
\<close>

theorem server_within_limits:
  assumes "(server_step opts)\<^sup>*\<^sup>* sv_new s"
  shows "sv_connections s = int (length (sv_counted s)) \<and> sv_connections s \<le> max 0 (sv_maxConnections opts) \<and>
    distinct (jm_keys (sv_rooms s)) \<and> int (length (sv_rooms s)) \<le> max 0 (sv_maxRooms opts) \<and>
    (\<forall>i inst. jm_get (sv_rooms s) i = Some inst \<longrightarrow>
       rm_state (sv_room s inst) \<in> {Creating, Active} \<and> rm_id (sv_room s inst) = i \<and>
       int (rm_getPeerCount (sv_room s inst)) \<le> max 0 (case so_maxPeersPerRoom opts of Some n \<Rightarrow> n | None \<Rightarrow> 100)) \<and>
    (\<forall>i j inst inst' k k' c. jm_get (sv_rooms s) i = Some inst \<longrightarrow> jm_get (sv_rooms s) j = Some inst' \<longrightarrow>
       jm_get (rm_peers (sv_room s inst)) k = Some c \<longrightarrow> jm_get (rm_peers (sv_room s inst')) k' = Some c \<longrightarrow>
       i = j \<and> k = k')"
proof -
  have inv: "sv_inv opts s" using server_safe.reachable_good [OF refl assms] .
  have room: "rm_inv (sv_idof s) (sv_room s inst)" if "jm_get (sv_rooms s) i = Some inst" for i inst
    using sv_inv_room(1) [OF inv sv_inv_reg(1) [OF inv that]] by (simp add: rm_good_def)
  have one: "rm_state (sv_room s inst) \<in> {Creating, Active} \<and> rm_id (sv_room s inst) = i \<and>
       int (rm_getPeerCount (sv_room s inst)) \<le> max 0 (case so_maxPeersPerRoom opts of Some n \<Rightarrow> n | None \<Rightarrow> 100)"
    if "jm_get (sv_rooms s) i = Some inst" for i inst
  proof -
    have "rm_maxPeers (sv_room s inst) = ro_maxPeers (sv_roomOpts opts)"
      by (rule sv_inv_room(3) [OF inv sv_inv_reg(1) [OF inv that]])
    then show ?thesis
      using room [OF that] sv_inv_reg [OF inv that]
      by (cases "rm_state (sv_room s inst)") (auto simp: rm_inv_def rm_getPeerCount_def sv_roomOpts_def)
  qed
  have two: "i = j \<and> k = k'"
    if "jm_get (sv_rooms s) i = Some inst" "jm_get (sv_rooms s) j = Some inst'"
      "jm_get (rm_peers (sv_room s inst)) k = Some c" "jm_get (rm_peers (sv_room s inst')) k' = Some c" for i j inst inst' k k' c
  proof -
    have "inst = inst'"
      using sv_inv_room(4) [OF inv sv_inv_reg(1) [OF inv that(1)] that(3)]
        sv_inv_room(4) [OF inv sv_inv_reg(1) [OF inv that(2)] that(4)] by simp
    moreover have "sv_idof s c = k" using room [OF that(1)] that(3) unfolding rm_inv_def by blast
    moreover have "sv_idof s c = k'" using room [OF that(2)] that(4) unfolding rm_inv_def by blast
    ultimately show ?thesis
      using sv_inv_reg(2) [OF inv that(1)] sv_inv_reg(2) [OF inv that(2)] by simp
  qed
  show ?thesis
    using inv one two unfolding sv_inv_def sv_conns_ok_def sv_registry_ok_def jm_wf_def by blast
qed

fun sv_run ::
  "server_opts \<Rightarrow> (string \<Rightarrow> (bool \<times> string option) option) \<Rightarrow> (utf16 \<Rightarrow> decoded) \<Rightarrow> ws_env \<Rightarrow> sv_event list \<Rightarrow> server \<Rightarrow> server" where
  "sv_run opts route decode w [] s = s"
| "sv_run opts route decode w (ev # evs) s = sv_run opts route decode w evs (sv_step opts route decode w ev s)"

fun sv_runnable ::
  "server_opts \<Rightarrow> (string \<Rightarrow> (bool \<times> string option) option) \<Rightarrow> (utf16 \<Rightarrow> decoded) \<Rightarrow> ws_env \<Rightarrow> sv_event list \<Rightarrow> server \<Rightarrow> bool" where
  "sv_runnable opts route decode w [] s = True"
| "sv_runnable opts route decode w (ev # evs) s \<longleftrightarrow>
     sv_enabled ev s \<and> sv_runnable opts route decode w evs (sv_step opts route decode w ev s)"

lemma sv_run_reachable: "sv_runnable opts route decode w evs s \<Longrightarrow> (server_step opts)\<^sup>*\<^sup>* s (sv_run opts route decode w evs s)"
  by (induction evs arbitrary: s) (auto intro: converse_rtranclp_into_rtranclp server_step.intros)

definition example_server :: "bool \<Rightarrow> server_opts" where
  "example_server hook = \<lparr>so_maxConnections = Some 3, so_maxRooms = Some 1, so_maxPeersPerRoom = Some 2, so_roomMaxDurationMs = None,
     so_roomIdleTimeoutMs = None, so_maxMessagesPerSecond = None, so_pongTimeout = None, so_allowedOrigins = None,
     so_iceServersHook = hook\<rparr>"

definition example_auth :: "string \<Rightarrow> auth_result" where
  "example_auth p = AuthOk \<lparr>ra_roomId = ''r'', ra_peerId = p, ra_role = [], ra_metadata = None\<rparr>"

definition example_events :: "sv_event list" where
  "example_events = [EvConnect 1 None, EvConnect 2 None, EvAuth 0 1 (example_auth ''a''), EvAuth 0 2 (example_auth ''b'')]"

lemmas sv_eval = sv_step_def sv_onConnection_def sv_onAuth_def sv_onIce_def sv_finish_def sv_fail_def sv_store_def sv_rl_def
  sv_emit_def sv_setPhase_def rg_getOrCreate_def rg_rollbackIfEmpty_def rg_onClosed_def sv_exec_def sv_onFrame_def sv_kick_def
  rm_exec_def rm_addPeer_def rm_enter_def rm_welcome_def rm_joined_message_def rm_broadcastExcept_def rm_broadcast_def
  rm_sendToAll_def rm_resetIdleTimer_def rm_transitionTo_def room_move_def rm_new_def rm_refuse_def rm_getPeerCount_def rm_dispose_def
  rm_clearTimers_def rm_kickPeer_def rm_removePeer_def rm_relay_def
  peer_new_def peer_send_def peer_admit_def sv_new_def sv_maxConnections_def sv_maxRooms_def sv_rateLimit_def sv_roomOpts_def
  example_server_def example_auth_def ws_fine_def DEFAULT_MAX_BUFFERED_BYTES_def jm_has_def split_def Let_def

lemma example_run:
  defines "s \<equiv> sv_run (example_server False) (\<lambda>_. None) (\<lambda>_. BadJson) ws_fine example_events sv_new"
  shows "sv_runnable (example_server False) (\<lambda>_. None) (\<lambda>_. BadJson) ws_fine example_events sv_new"
    "sv_rooms s = [(''r'', 0)]" "rm_peers (sv_room s 0) = [(''a'', 1), (''b'', 2)]" "sv_connections s = 2"
    "sv_maxConnections (example_server False) = 3" "pr_lastPong (sv_peers s (Suc 0)) = 0" "pr_lastPong (sv_peers s 2) = 0"
    "sv_pongTimeout (example_server False) = 60000"
  by (simp_all add: sv_pongTimeout_def s_def example_events_def sv_eval)

theorem server_within_limits_witness:
  "\<exists>s. (server_step (example_server False))\<^sup>*\<^sup>* sv_new s \<and> sv_connections s = 2 \<and> sv_connections s \<le> 3 \<and>
     rm_peers (sv_room s 0) = [(''a'', 1), (''b'', 2)] \<and> rm_state (sv_room s 0) \<in> {Creating, Active} \<and>
     int (rm_getPeerCount (sv_room s 0)) \<le> 2"
proof -
  let ?s = "sv_run (example_server False) (\<lambda>_. None) (\<lambda>_. BadJson) ws_fine example_events sv_new"
  have r: "(server_step (example_server False))\<^sup>*\<^sup>* sv_new ?s" by (rule sv_run_reachable [OF example_run(1)])
  have "jm_get (sv_rooms ?s) ''r'' = Some 0" by (simp add: example_run)
  then have "rm_state (sv_room ?s 0) \<in> {Creating, Active}" "int (rm_getPeerCount (sv_room ?s 0)) \<le> max 0 2"
      "sv_connections ?s \<le> max 0 (sv_maxConnections (example_server False))"
    using server_within_limits [OF r] by (simp_all add: example_server_def)
  then show ?thesis using r by (intro exI [of _ ?s]) (simp add: example_run)
qed



section \<open>What frames make the server send\<close>

definition sends_only :: "(conn \<Rightarrow> server_message \<Rightarrow> bool) \<Rightarrow> log \<Rightarrow> bool" where
  "sends_only P l \<longleftrightarrow> (\<forall>d m. WsSend d m \<in> set l \<longrightarrow> P d m)"

lemma sends_only_simps [simp]:
  "sends_only P []" "sends_only P (l @ l') \<longleftrightarrow> sends_only P l \<and> sends_only P l'"
  "sends_only P (WsSend d m # l) \<longleftrightarrow> P d m \<and> sends_only P l" "sends_only P (WsClose d x y # l) = sends_only P l"
  "sends_only P (PeerError d # l) = sends_only P l" "sends_only P (RoomPeerError k i # l) = sends_only P l"
  "sends_only P (PeerPong d # l) = sends_only P l" "sends_only P (PeerRateLimited d # l) = sends_only P l"
  "sends_only P (MetricAdd nm # l) = sends_only P l"
  by (auto simp: sends_only_def)

lemma peer_send_sends: "\<exists>xs. snd (peer_send w ps d m l) = l @ xs \<and> sends_only (\<lambda>e x. e = d \<and> x = m) xs"
  by (simp add: peer_send_def peer_disconnect_def)

lemma rm_send_loop_sends:
  "\<exists>xs. snd (rm_send_loop w ps k m excl es l) = l @ xs \<and> sends_only (\<lambda>d x. d \<in> snd ` set es \<and> x = m) xs"
proof (induction es arbitrary: l)
  case (Cons e es)
  obtain j d where e: "e = (j, d)" by fastforce
  have mono: "sends_only (\<lambda>d x. d \<in> snd ` set es \<and> x = m) xs \<Longrightarrow> sends_only (\<lambda>d x. d \<in> snd ` set (e # es) \<and> x = m) xs" for xs
    by (auto simp: sends_only_def)
  obtain xs where xs: "snd (peer_send w ps d m l) = l @ xs" "sends_only (\<lambda>e x. e = d \<and> x = m) xs"
    using peer_send_sends by blast
  obtain ys where ys: "snd (rm_send_loop w ps k m excl es l) = l @ ys" "sends_only (\<lambda>d x. d \<in> snd ` set es \<and> x = m) ys"
    using Cons.IH by blast
  obtain zs where zs: "snd (rm_send_loop w ps k m excl es (l @ xs)) = (l @ xs) @ zs" "sends_only (\<lambda>d x. d \<in> snd ` set es \<and> x = m) zs"
    using Cons.IH by blast
  obtain us where us: "snd (rm_send_loop w ps k m excl es ((l @ xs) @ [RoomPeerError k j])) = ((l @ xs) @ [RoomPeerError k j]) @ us"
      "sends_only (\<lambda>d x. d \<in> snd ` set es \<and> x = m) us"
    using Cons.IH by blast
  have "sends_only (\<lambda>d x. d \<in> snd ` set (e # es) \<and> x = m) xs" using xs(2) e by (auto simp: sends_only_def)
  with e xs(1) ys zs us show ?case
    by (auto simp: split_def Let_def dest!: mono)
qed simp

lemma sv_exec_log:
  assumes "\<And>k. closed_count k (snd (rm_exec w (sv_peers s) x (sv_rl inst s))) = closed_count k (sv_log s)"
  shows "sv_log (sv_exec w inst x s) = snd (rm_exec w (sv_peers s) x (sv_rl inst s))"
  using assms by (simp add: sv_exec_def sv_store_def Let_def)

lemma rm_relay_sends:
  "\<exists>xs. snd (snd (rm_relay w ps f to d (r, l))) = l @ xs \<and> sends_only (\<lambda>e m. e \<in> set (rm_getPeers r) \<and> m = SSignal f d) xs \<and>
     (\<forall>k. closed_count k xs = 0)"
proof (cases "jm_get (rm_peers r) to")
  case (Some e)
  have "e \<in> set (rm_getPeers r)" using map_of_SomeD [OF Some] by (force simp: rm_getPeers_def)
  with Some show ?thesis
    by (simp add: rm_relay_def peer_send_def peer_disconnect_def Let_def)
qed (simp add: rm_relay_def Let_def)

lemma rm_broadcastExcept_sends:
  "\<exists>xs. snd (snd (rm_broadcastExcept w ps i m (r, l))) = l @ xs \<and> sends_only (\<lambda>e x. e \<in> set (rm_getPeers r) \<and> x = m) xs \<and>
     (\<forall>k. closed_count k xs = 0)"
proof -
  obtain xs where xs: "snd (rm_send_loop w ps (rm_inst r) m (Some i) (rm_peers r) l) = l @ xs"
      "sends_only (\<lambda>d x. d \<in> snd ` set (rm_peers r) \<and> x = m) xs"
    using rm_send_loop_sends by blast
  have "closed_count k xs = 0" for k
    using closed_count_loop [of k w ps "rm_inst r" m "Some i" "rm_peers r" l] xs(1) by simp
  with xs show ?thesis
    by (simp add: rm_broadcastExcept_def rm_sendToAll_def split_def Let_def rm_getPeers_def)
qed

text \<open>
  (C10) Authenticity: whatever a frame of a connection makes the server send carries that
  connection's own peer id as the sender and goes to members of its room only; a frame whose
  connection is not admitted, or that exceeds the rate limit, makes it send nothing.
\<close>

theorem sv_frames_authentic:
  assumes "phase_room (sv_phase s c) = Some inst"
  shows "\<exists>xs. sv_log (sv_onFrame decode w now c raw s) = sv_log s @ xs \<and>
    (\<forall>d m. WsSend d m \<in> set xs \<longrightarrow>
       pr_admitted (sv_peers s c) \<and> fst (peer_handleMessage decode now raw (sv_peers s c)) \<noteq> DoRateLimited \<and>
       d \<in> set (rm_getPeers (sv_room s inst)) \<and>
       ((\<exists>x. m = SSignal (pr_id (sv_peers s c)) x) \<or> (\<exists>ch x. m = SBroadcast (pr_id (sv_peers s c)) ch x now)))"
proof -
  obtain act p where hm: "peer_handleMessage decode now raw (sv_peers s c) = (act, p)" by fastforce
  have pid: "pr_id p = pr_id (sv_peers s c)" using peer_handleMessage_frame(1) [of decode now raw "sv_peers s c"] hm by simp
  have adm: "pr_admitted (sv_peers s c) \<or> act \<in> {NoAction, DoError, DoRateLimited, DoPong}"
    using peer_handleMessage_gate [of "sv_peers s c" decode now raw] hm by auto
  let ?s1 = "s\<lparr>sv_peers := (sv_peers s)(c := p)\<rparr>"
  let ?r = "sv_room s inst" and ?ps = "(sv_peers s)(c := p)"
  have step: "\<exists>ys. sv_log (sv_exec w inst x ?s1) = sv_log s @ ys \<and> sends_only P ys"
    if "\<exists>xs. snd (rm_exec w ?ps x (?r, sv_log s)) = sv_log s @ xs \<and> sends_only P xs \<and> (\<forall>k. closed_count k xs = 0)" for x P
    using that sv_exec_log [of w ?s1 x inst] by (auto simp: sv_rl_def)
  have relay: "\<exists>ys. sv_log (sv_exec w inst (OpRelay f to d) ?s1) = sv_log s @ ys \<and>
      sends_only (\<lambda>e m. e \<in> set (rm_getPeers ?r) \<and> m = SSignal f d) ys" for f to d
    by (rule step) (use rm_relay_sends in \<open>simp add: rm_exec_def\<close>)
  have bc: "\<exists>ys. sv_log (sv_exec w inst (OpBroadcastExcept i m) ?s1) = sv_log s @ ys \<and>
      sends_only (\<lambda>e x. e \<in> set (rm_getPeers ?r) \<and> x = m) ys" for i m
    by (rule step) (use rm_broadcastExcept_sends in \<open>simp add: rm_exec_def\<close>)
  have "sv_log (sv_exec w inst OpMarkActivity ?s1) = sv_log s"
    by (subst sv_exec_log) (simp_all add: rm_exec_def sv_rl_def)
  then have pong: "\<exists>ys. sv_log (sv_exec w inst OpMarkActivity ?s1) = sv_log s @ ys \<and> sends_only (\<lambda>e m. False) ys" by simp
  show ?thesis
  proof (cases act)
    case (DoSignal to d)
    obtain xs where xs: "sv_log (sv_exec w inst (OpRelay (pr_id p) to d) ?s1) = sv_log s @ xs"
        "sends_only (\<lambda>e m. e \<in> set (rm_getPeers ?r) \<and> m = SSignal (pr_id p) d) xs" using relay by blast
    then show ?thesis
      using assms hm pid adm DoSignal by (auto simp: sv_onFrame_def Let_def sv_emit_def sends_only_def)
  next
    case DoPong
    then show ?thesis
      using pong assms hm by (auto simp: sv_onFrame_def Let_def sv_emit_def sends_only_def)
  next
    case (DoBroadcast ch d)
    obtain xs where xs: "sv_log (sv_exec w inst (OpBroadcastExcept (pr_id p) (SBroadcast (pr_id p) ch d now)) ?s1) = sv_log s @ xs"
        "sends_only (\<lambda>e m. e \<in> set (rm_getPeers ?r) \<and> m = SBroadcast (pr_id p) ch d now) xs" using bc by blast
    then show ?thesis
      using assms hm pid adm DoBroadcast by (auto simp: sv_onFrame_def Let_def sv_emit_def sends_only_def) blast
  qed (use assms hm in \<open>auto simp: sv_onFrame_def Let_def sv_emit_def\<close>)
qed


definition example_signal :: "utf16 \<Rightarrow> decoded" where
  "example_signal raw = Decoded (CSignal ''b'' (Some JNull))"

definition example_state :: server where
  "example_state = sv_new\<lparr>sv_rooms := [(''r'', 0)], sv_nextInst := 1,
     sv_room := (\<lambda>_. (rm_new 0 ''r'' (example_opts 2))\<lparr>rm_state := Active, rm_peers := [(''a'', 1), (''b'', 2)]\<rparr>),
     sv_peers := (\<lambda>c. peer_admit (example_peer (if c = 1 then ''a'' else ''b''))), sv_phase := (\<lambda>c. Joined 0)\<rparr>"

lemmas example_state_eval = example_state_def sv_new_def example_peer_def peer_new_def peer_admit_def rm_new_def example_opts_def

theorem sv_frames_authentic_witness:
  "WsSend 2 (SSignal ''a'' (Some JNull)) \<in> set (sv_log (sv_onFrame example_signal ws_fine 5 1 [] example_state)) \<and>
   pr_admitted (sv_peers example_state 1) \<and> 2 \<in> set (rm_getPeers (sv_room example_state 0))"
proof -
  have "WsSend 2 (SSignal ''a'' (Some JNull)) \<in> set (sv_log (sv_onFrame example_signal ws_fine 5 1 [] example_state))"
    by (simp add: example_state_eval sv_onFrame_def peer_handleMessage_def example_signal_def sv_exec_def sv_store_def sv_rl_def
        rm_exec_def rm_relay_def rm_resetIdleTimer_def peer_send_def ws_fine_def DEFAULT_MAX_BUFFERED_BYTES_def sv_emit_def)
  moreover have ph: "phase_room (sv_phase example_state 1) = Some 0" and "sv_log example_state = []"
    by (simp_all add: example_state_def sv_new_def)
  ultimately show ?thesis
    using sv_frames_authentic [OF ph, of example_signal ws_fine 5 "[]"] by (metis append_Nil)
qed

section \<open>Heartbeat\<close>

lemma jm_delete_by_value:
  assumes "\<And>j d. (j, d) \<in> set m \<Longrightarrow> idof d = j" "\<And>d. (idof c, d) \<in> set m \<Longrightarrow> d = c"
  shows "jm_delete (idof c) m = filter (\<lambda>(j, d). d \<noteq> c) m"
  unfolding AList.delete_eq
proof (rule filter_cong [OF refl])
  fix x
  assume x: "x \<in> set m"
  obtain j d where e: "x = (j, d)" by fastforce
  have "idof d = j" using assms(1) x e by blast
  moreover have "idof c = j \<Longrightarrow> d = c" using assms(2) x e by blast
  ultimately show "(case x of (k', uu) \<Rightarrow> idof c \<noteq> k') = (case x of (j, d) \<Rightarrow> d \<noteq> c)" using e by auto
qed

lemma hb_peers_rooms:
  "sv_peers (hb_peers w d inst cs s) = sv_peers s" "k \<noteq> inst \<Longrightarrow> sv_room (hb_peers w d inst cs s) k = sv_room s k"
  by (induction cs arbitrary: s) (simp_all add: sv_exec_room)

lemma hb_peers_exact:
  assumes "\<And>j d. (j, d) \<in> set (rm_peers (sv_room s inst)) \<Longrightarrow> sv_idof s d = j"
    and "\<And>c d. c \<in> set cs \<Longrightarrow> (sv_idof s c, d) \<in> set (rm_peers (sv_room s inst)) \<Longrightarrow> d = c"
  shows "rm_peers (sv_room (hb_peers w dl inst cs s) inst) =
    filter (\<lambda>(j, c). c \<in> set cs \<longrightarrow> peer_isAlive dl (sv_peers s c)) (rm_peers (sv_room s inst))"
  using assms
proof (induction cs arbitrary: s)
  case (Cons c cs)
  let ?m = "rm_peers (sv_room s inst)"
  show ?case
  proof (cases "peer_isAlive dl (sv_peers s c)")
    case True
    let ?t = "s\<lparr>sv_log := peer_ping w (sv_peers s) c (sv_log s)\<rparr>"
    have "rm_peers (sv_room (hb_peers w dl inst cs ?t) inst) =
        filter (\<lambda>(j, c). c \<in> set cs \<longrightarrow> peer_isAlive dl (sv_peers ?t c)) (rm_peers (sv_room ?t inst))"
      by (rule Cons.IH) (use Cons.prems in auto)
    with True show ?thesis by (auto intro!: filter_cong)
  next
    case False
    let ?t = "sv_exec w inst (OpPrune (pr_id (sv_peers s c)) CloseCode_GoingAway (close_reason HeartbeatTimeout)) s"
    have "rm_peers (sv_room ?t inst) = jm_delete (sv_idof s c) ?m"
      by (auto simp: sv_exec_room rm_exec_def rm_disconnectAndRemove_def rm_removePeer_peers sv_rl_def delete_id
          map_of_eq_None_iff split: option.splits)
    also have "\<dots> = filter (\<lambda>(j, d). d \<noteq> c) ?m"
      by (rule jm_delete_by_value) (use Cons.prems in auto)
    finally have t: "rm_peers (sv_room ?t inst) = filter (\<lambda>(j, d). d \<noteq> c) ?m" .
    have "rm_peers (sv_room (hb_peers w dl inst cs ?t) inst) =
        filter (\<lambda>(j, c). c \<in> set cs \<longrightarrow> peer_isAlive dl (sv_peers ?t c)) (rm_peers (sv_room ?t inst))"
      by (rule Cons.IH) (use Cons.prems t in auto)
    with False t show ?thesis by (auto intro!: filter_cong)
  qed
qed simp

lemma hb_rooms_other: "k \<notin> set insts \<Longrightarrow> sv_room (hb_rooms w d insts s) k = sv_room s k"
  by (induction insts arbitrary: s) (simp_all add: hb_peers_rooms)

lemma hb_rooms_peers [simp]: "sv_peers (hb_rooms w d insts s) = sv_peers s"
  by (induction insts arbitrary: s) (simp_all add: hb_peers_rooms)

lemma hb_rooms_exact:
  assumes "distinct insts" "inst \<in> set insts" "rm_inv (sv_idof s) (sv_room s inst)"
  shows "rm_peers (sv_room (hb_rooms w dl insts s) inst) =
    filter (\<lambda>(j, c). peer_isAlive dl (sv_peers s c)) (rm_peers (sv_room s inst))"
  using assms
proof (induction insts arbitrary: s)
  case (Cons k insts)
  let ?t = "hb_peers w dl k (rm_getPeers (sv_room s k)) s"
  show ?case
  proof (cases "k = inst")
    case True
    have wf: "jm_wf (rm_peers (sv_room s inst))" and ids: "\<And>j d. jm_get (rm_peers (sv_room s inst)) j = Some d \<Longrightarrow> sv_idof s d = j"
      using Cons.prems(3) unfolding rm_inv_def by blast+
    have key: "(j, d) \<in> set (rm_peers (sv_room s inst)) \<Longrightarrow> sv_idof s d = j" for j d
      using ids [of j d] wf by (simp add: jm_mem_iff)
    have "rm_peers (sv_room ?t inst) = filter (\<lambda>(j, c). c \<in> set (rm_getPeers (sv_room s inst)) \<longrightarrow> peer_isAlive dl (sv_peers s c))
        (rm_peers (sv_room s inst))"
      unfolding True
    proof (rule hb_peers_exact [OF key], assumption)
      fix c d
      assume "c \<in> set (rm_getPeers (sv_room s inst))" "(sv_idof s c, d) \<in> set (rm_peers (sv_room s inst))"
      then obtain j where "(j, c) \<in> set (rm_peers (sv_room s inst))" "(sv_idof s c, d) \<in> set (rm_peers (sv_room s inst))"
        by (auto simp: rm_getPeers_def)
      then show "d = c" using key [of j c] wf by (simp add: jm_mem_iff)
    qed
    also have "\<dots> = filter (\<lambda>(j, c). peer_isAlive dl (sv_peers s c)) (rm_peers (sv_room s inst))"
      by (rule filter_cong) (force simp: rm_getPeers_def)+
    finally show ?thesis using Cons.prems(1) True by (simp add: hb_rooms_other)
  next
    case False
    then show ?thesis
      using Cons.IH [of ?t] Cons.prems by (simp add: hb_peers_rooms)
  qed
qed simp

text \<open>
  (C25) Heartbeat: in every reachable state a tick leaves in each registered room exactly the peers
  heard from since the pong deadline, in their order; nobody who answered is dropped and nobody who did
  not is kept.
\<close>

theorem hb_tick_exact:
  assumes "(server_step opts)\<^sup>*\<^sup>* sv_new s" "jm_get (sv_rooms s) i = Some inst"
  shows "rm_peers (sv_room (hb_tick opts w now s) inst) =
    filter (\<lambda>(j, c). pr_lastPong (sv_peers s c) \<ge> now - sv_pongTimeout opts) (rm_peers (sv_room s inst))"
proof -
  have inv: "sv_inv opts s" using server_safe.reachable_good [OF refl assms(1)] .
  then have wf: "jm_wf (sv_rooms s)" by (simp add: sv_inv_defs)
  have "inj_on snd (set (sv_rooms s))"
  proof (rule inj_onI, clarify)
    fix a k b k'
    assume "(a, k) \<in> set (sv_rooms s)" "(b, k') \<in> set (sv_rooms s)" "snd (a, k) = snd (b, k')"
    then have "jm_get (sv_rooms s) a = Some k" "jm_get (sv_rooms s) b = Some k" "k = k'" using wf by (simp_all add: jm_mem_iff)
    then show "a = b \<and> k = k'" using sv_inv_reg(2) [OF inv] by blast
  qed
  then have "distinct (jm_values (sv_rooms s))" using wf by (simp add: distinct_map jm_wf_def)
  moreover have "inst \<in> set (jm_values (sv_rooms s))" using map_of_SomeD [OF assms(2)] by force
  moreover have "rm_inv (sv_idof s) (sv_room s inst)"
    using sv_inv_room(1) [OF inv sv_inv_reg(1) [OF inv assms(2)]] by (simp add: rm_good_def)
  ultimately show ?thesis
    by (simp add: hb_tick_def hb_rooms_exact peer_isAlive_def)
qed


theorem hb_tick_exact_witness:
  "\<exists>s. (server_step (example_server False))\<^sup>*\<^sup>* sv_new s \<and> rm_peers (sv_room s 0) = [(''a'', 1), (''b'', 2)] \<and>
     rm_peers (sv_room (hb_tick (example_server False) ws_fine 60001 s) 0) = []"
proof -
  let ?s = "sv_run (example_server False) (\<lambda>_. None) (\<lambda>_. BadJson) ws_fine example_events sv_new"
  have r: "(server_step (example_server False))\<^sup>*\<^sup>* sv_new ?s" by (rule sv_run_reachable [OF example_run(1)])
  have "jm_get (sv_rooms ?s) ''r'' = Some 0" by (simp add: example_run)
  from hb_tick_exact [OF r this, of ws_fine 60001]
  have "rm_peers (sv_room (hb_tick (example_server False) ws_fine 60001 ?s) 0) = []"
    by (simp add: example_run)
  then show ?thesis using r by (intro exI [of _ ?s]) (simp add: example_run)
qed


section \<open>Races\<close>

text \<open>
  (C33) Two peers are joining a room that the first of them created. When the ICE server hook of the
  first fails, its rollback disposes of the room that is still empty, and the second, whose hook
  succeeded, is refused with "Room is closing" instead of being admitted.
\<close>

theorem sv_rollback_evicts_joiner:
  assumes "sv_phase s c = AwaitingIce inst True" "sv_phase s d = AwaitingIce inst False" "c \<noteq> d"
    and "jm_get (sv_rooms s) (rm_id (sv_room s inst)) = Some inst" "rm_peers (sv_room s inst) = []"
  shows "let t = sv_onIce w d (Some ice) (sv_onIce w c None s)
    in sv_log t = sv_log s @ [WsClose c CloseCode_PolicyViolation (u16 ''Internal error''),
         WsClose d CloseCode_PolicyViolation (truncateUtf8 (close_reason RoomClosing) 123)] \<and>
       sv_phase t d = Finished \<and> jm_get (sv_rooms t) (rm_id (sv_room s inst)) = None"
proof -
  let ?r = "sv_room s inst" and ?m = "WsClose c CloseCode_PolicyViolation (u16 ''Internal error'')"
  have 1: "sv_onIce w c None s = s\<lparr>sv_room := (sv_room s)(inst := rm_dispose ?r), sv_rooms := jm_delete (rm_id ?r) (sv_rooms s),
      sv_log := sv_log s @ [?m], sv_phase := (sv_phase s)(c := Finished)\<rparr>"
    using assms by (simp add: sv_onIce_def sv_fail_def rg_rollbackIfEmpty_def rm_getPeerCount_def sv_emit_def sv_setPhase_def)
  show ?thesis
    unfolding 1
    using assms(2,3) by (simp add: sv_onIce_def sv_finish_def sv_store_def rm_addPeer_def rm_refuse_def sv_rl_def
        rg_rollbackIfEmpty_def sv_setPhase_def peer_disconnect_def)
qed

theorem sv_rollback_evicts_joiner_witness:
  "let s = example_state\<lparr>sv_phase := (\<lambda>c. AwaitingIce 0 (c = 1)),
             sv_room := (\<lambda>_. rm_new 0 ''r'' (example_opts 2))\<rparr>;
       t = sv_onIce ws_fine 2 (Some None) (sv_onIce ws_fine 1 None s)
   in sv_phase t 2 = Finished \<and> sv_rooms s = [(''r'', 0)] \<and> jm_get (sv_rooms t) ''r'' = None"
proof -
  let ?s = "example_state\<lparr>sv_phase := (\<lambda>c. AwaitingIce 0 (c = 1)), sv_room := (\<lambda>_. rm_new 0 ''r'' (example_opts 2))\<rparr>"
  have "sv_phase ?s 1 = AwaitingIce 0 True" "sv_phase ?s 2 = AwaitingIce 0 False"
    "jm_get (sv_rooms ?s) (rm_id (sv_room ?s 0)) = Some 0" "rm_peers (sv_room ?s 0) = []" "sv_rooms ?s = [(''r'', 0)]"
    "rm_id (sv_room ?s 0) = ''r''"
    by (simp_all add: example_state_eval)
  then show ?thesis
    using sv_rollback_evicts_joiner [of ?s 1 0 2 ws_fine None] by (simp add: Let_def)
qed

text \<open>
  A kicked peer keeps its voice until its socket has gone: the callbacks of its connection still
  refer to the room and check the admission flag, not the membership, so a signal it sends after
  \<^verbatim>\<open>kickPeer\<close> is relayed to any peer of the room.
\<close>

lemma sv_kicked_still_relays:
  assumes "sv_phase s c = Joined inst" "pr_admitted (sv_peers s c)" "pr_rateLimiter (sv_peers s c) = None"
    and "jm_get (rm_peers (sv_room s inst)) (pr_id (sv_peers s c)) = None"
    and "jm_get (rm_peers (sv_room s inst)) j = Some d" "d \<noteq> c" "decode raw = Decoded (CSignal j x)"
    and "ws_open w (sv_log s) d" "ws_buffered w (sv_log s) d \<le> pr_maxBufferedBytes (sv_peers s d)" "\<not> ws_sendFails w (sv_log s) d"
  shows "sv_log (sv_onFrame decode w now c raw s) =
    sv_log s @ [WsSend d (SSignal (pr_id (sv_peers s c)) x), MetricAdd ''signals_relayed'']"
  using assms
  by (simp add: sv_onFrame_def peer_handleMessage_def Let_def sv_exec_def sv_store_def rm_exec_def sv_rl_def rm_relay_def
      peer_send_def sv_emit_def not_less)

end
