(* ===== verification/HashRing.thy ===== *)
theory HashRing
  imports Prelude "HOL-Library.Word" "HOL-Library.Multiset"
begin

text \<open>
  \<^verbatim>\<open>packages/core/src/HashRing.ts\<close>: rendezvous hashing. \<open>cyrb53\<close> is the string hash at its 32-bit
  width, \<open>hr_score\<close> the weighted score (\<^verbatim>\<open>Math.log\<close> is the real logarithm), and the ring is the
  \<^verbatim>\<open>Map\<close> from node id to weight. \<open>hr_get\<close> and \<open>hr_getN\<close> take the score function as an argument:
  what is proved of the routing holds for every score function, so it does not depend on how
  the doubles round. Strings are sequences of code units below 256.
\<close>

unbundle bit_operations_syntax

section \<open>The hash\<close>

definition cyrb53_mix :: "32 word \<times> 32 word \<Rightarrow> char \<Rightarrow> 32 word \<times> 32 word" where
  "cyrb53_mix hs c =
     (let ch = of_nat (of_char c) in
      ((fst hs XOR ch) * 2654435761, (snd hs XOR ch) * 1597334677))"

definition cyrb53 :: "string \<Rightarrow> 32 word \<Rightarrow> nat" where
  "cyrb53 str seed =
     (let (h1, h2) = foldl cyrb53_mix (0xdeadbeef XOR seed, 0x41c6ce57 XOR seed) str;
          h1 = (h1 XOR drop_bit 16 h1) * 2246822507;
          h1 = h1 XOR (h2 XOR drop_bit 13 h2) * 3266489909;
          h2 = (h2 XOR drop_bit 16 h2) * 2246822507;
          h2 = h2 XOR (h1 XOR drop_bit 13 h1) * 3266489909
      in 4294967296 * unat (2097151 AND h2) + unat h1)"

definition MAX_HASH :: real where
  "MAX_HASH = 2 ^ 53"

text \<open>\<^verbatim>\<open>Number.MIN_VALUE\<close> is \<open>2 ^ - 1074\<close> and \<^verbatim>\<open>Number.EPSILON\<close> is \<open>2 ^ - 52\<close>.\<close>

definition hr_unit :: "nat \<Rightarrow> real" where
  "hr_unit h =
     (let unit = real h / MAX_HASH;
          unit = (if unit \<le> 0 then 1 / 2 ^ 1074 else unit)
      in if unit \<ge> 1 then 1 - 1 / 2 ^ 52 else unit)"

definition hr_score :: "string \<Rightarrow> string \<Rightarrow> real \<Rightarrow> real" where
  "hr_score key node weight = weight / - ln (hr_unit (cyrb53 (key @ ''|'' @ node) 0))"

section \<open>The ring\<close>

type_synonym ring = "(string, real) jsmap"
type_synonym scorer = "string \<Rightarrow> string \<Rightarrow> real \<Rightarrow> real"

text \<open>The argument of \<^verbatim>\<open>add\<close>: a bare id, or a \<^verbatim>\<open>RingNode\<close> with an optional weight.\<close>

datatype ring_node = RingId string | RingNode string "jsnum option"

datatype ring_error = InvalidWeight jsnum string

definition hr_add :: "ring \<Rightarrow> ring_node \<Rightarrow> ring_error + ring" where
  "hr_add r node =
     (case node of
        RingId nid \<Rightarrow> Inr (jm_set nid 1 r)
      | RingNode nid wopt \<Rightarrow>
          (let weight = (case wopt of None \<Rightarrow> JFin 1 | Some w \<Rightarrow> w) in
           case weight of
             JFin w \<Rightarrow> if w \<le> 0 then Inl (InvalidWeight weight nid) else Inr (jm_set nid w r)
           | _ \<Rightarrow> Inl (InvalidWeight weight nid)))"

fun hr_add_all :: "ring \<Rightarrow> ring_node list \<Rightarrow> ring_error + ring" where
  "hr_add_all r [] = Inr r"
| "hr_add_all r (n # ns) = (case hr_add r n of Inl e \<Rightarrow> Inl e | Inr r' \<Rightarrow> hr_add_all r' ns)"

definition hr_new :: "ring_node list \<Rightarrow> ring_error + ring" where
  "hr_new ns = hr_add_all [] ns"

definition hr_remove :: "ring \<Rightarrow> string \<Rightarrow> bool \<times> ring" where
  "hr_remove r nid = (jm_has r nid, jm_delete nid r)"

definition hr_has :: "ring \<Rightarrow> string \<Rightarrow> bool" where
  "hr_has r nid = jm_has r nid"

definition hr_size :: "ring \<Rightarrow> nat" where
  "hr_size r = length r"

definition hr_nodeIds :: "ring \<Rightarrow> string list" where
  "hr_nodeIds r = jm_keys r"

text \<open>The loop of \<^verbatim>\<open>get\<close>; \<open>None\<close> is \<^verbatim>\<open>bestId === undefined\<close> with \<^verbatim>\<open>bestScore\<close> minus infinity.\<close>

fun hr_best :: "scorer \<Rightarrow> string \<Rightarrow> ring \<Rightarrow> (string \<times> real) option \<Rightarrow> (string \<times> real) option" where
  "hr_best sc key [] best = best"
| "hr_best sc key ((nid, weight) # ns) best =
     (let score = sc key nid weight in
      hr_best sc key ns
        (case best of
           None \<Rightarrow> Some (nid, score)
         | Some (_, bestScore) \<Rightarrow> if score > bestScore then Some (nid, score) else best))"

definition hr_get :: "scorer \<Rightarrow> ring \<Rightarrow> string \<Rightarrow> string option" where
  "hr_get sc r key = map_option fst (hr_best sc key r None)"

text \<open>\<^verbatim>\<open>Array.prototype.sort\<close> is stable, as \<^const>\<open>sort_key\<close> is.\<close>

definition hr_getN :: "scorer \<Rightarrow> ring \<Rightarrow> string \<Rightarrow> int \<Rightarrow> string list" where
  "hr_getN sc r key n =
     (if n \<le> 0 \<or> length r = 0 then []
      else (let scored = map (\<lambda>(nid, weight). (nid, sc key nid weight)) r
            in map fst (take (nat n) (sort_key (\<lambda>s. - snd s) scored))))"

section \<open>Bounds of the hash and of the score\<close>

lemma low21_le: "unat (2097151 AND w :: 32 word) \<le> 2097151"
proof -
  have "2097151 AND w \<le> (2097151 :: 32 word)"
    by (metis and.commute word_and_le1)
  then show ?thesis by (simp add: word_le_nat_alt)
qed

text \<open>The hash always fits in 53 bits, so it is exact as a double.\<close>

lemma cyrb53_bound: "cyrb53 str seed < 2 ^ 53"
proof -
  have "4294967296 * unat (2097151 AND a) + unat b < 2 ^ 53" for a b :: "32 word"
  proof -
    have "unat b < 2 ^ LENGTH(32)" by (rule unsigned_less)
    then show ?thesis using low21_le [of a] by simp
  qed
  then show ?thesis
    by (simp add: cyrb53_def Let_def split_def)
qed

lemma hr_unit_range: "h < 2 ^ 53 \<Longrightarrow> 0 < hr_unit h \<and> hr_unit h < 1"
proof -
  assume "h < 2 ^ 53"
  then have "real h < 2 ^ 53" by (metis of_nat_less_iff of_nat_numeral of_nat_power)
  then show ?thesis
    by (auto simp: hr_unit_def MAX_HASH_def Let_def field_simps)
qed

text \<open>
  Every node of positive weight scores a positive number for every key: the hash stays below
  \<open>2 ^ 53\<close>, so the unit value lies strictly between 0 and 1 and its logarithm is negative.
\<close>

lemma hr_score_pos: "0 < w \<Longrightarrow> 0 < hr_score key node w"
  using hr_unit_range [OF cyrb53_bound, of "key @ ''|'' @ node" 0]
  by (simp add: hr_score_def divide_pos_neg)

section \<open>Routing\<close>

text \<open>
  The reference for \<^verbatim>\<open>get\<close>: node \<open>i\<close> is the first one with the highest score \<open>s\<close>; the nodes
  before it score less, those after it no more.
\<close>

definition hr_first_max :: "scorer \<Rightarrow> string \<Rightarrow> ring \<Rightarrow> string \<Rightarrow> real \<Rightarrow> bool" where
  "hr_first_max sc key r i s \<longleftrightarrow>
     (\<exists>pre w post. r = pre @ (i, w) # post \<and> s = sc key i w \<and>
        (\<forall>(j, v) \<in> set pre. sc key j v < s) \<and> (\<forall>(j, v) \<in> set post. sc key j v \<le> s))"

lemma hr_first_max_le: "hr_first_max sc key r i s \<Longrightarrow> (j, v) \<in> set r \<Longrightarrow> sc key j v \<le> s"
  unfolding hr_first_max_def by fastforce

lemma hr_first_max_mem: "hr_first_max sc key r i s \<Longrightarrow> \<exists>w. (i, w) \<in> set r \<and> s = sc key i w"
  by (auto simp: hr_first_max_def)

lemma hr_first_max_keep:
  "hr_first_max sc key r i s \<Longrightarrow> sc key j v \<le> s \<Longrightarrow> hr_first_max sc key (r @ [(j, v)]) i s"
  unfolding hr_first_max_def by (elim exE) (rule exI, rule exI, rule_tac x = "post @ [(j, v)]" in exI, auto)

lemma hr_first_max_new:
  assumes "\<And>i w. (i, w) \<in> set r \<Longrightarrow> sc key i w < sc key j v"
  shows "hr_first_max sc key (r @ [(j, v)]) j (sc key j v)"
  unfolding hr_first_max_def using assms
  by (intro exI [of _ r] exI [of _ v] exI [of _ "[]"]) auto

lemma hr_best_append: "hr_best sc key (xs @ ys) b = hr_best sc key ys (hr_best sc key xs b)"
  by (induction xs arbitrary: b) (auto simp: Let_def)

lemma hr_best_first_max:
  "r \<noteq> [] \<Longrightarrow> \<exists>i s. hr_best sc key r None = Some (i, s) \<and> hr_first_max sc key r i s"
proof (induction r rule: rev_induct)
  case Nil
  then show ?case by simp
next
  case (snoc p r)
  obtain j v where p: "p = (j, v)" by (cases p)
  show ?case
  proof (cases "r = []")
    case True
    then show ?thesis using hr_first_max_new [of "[]" sc key j v] p by simp
  next
    case False
    with snoc.IH obtain i s where best: "hr_best sc key r None = Some (i, s)"
      and fm: "hr_first_max sc key r i s" by blast
    show ?thesis
    proof (cases "sc key j v > s")
      case True
      then have "hr_first_max sc key (r @ [(j, v)]) j (sc key j v)"
        using hr_first_max_le [OF fm] by (intro hr_first_max_new) fastforce
      then show ?thesis using best True p by (simp add: hr_best_append)
    next
      case False
      then have "hr_first_max sc key (r @ [(j, v)]) i s"
        by (intro hr_first_max_keep [OF fm]) simp
      then show ?thesis using best False p by (simp add: hr_best_append)
    qed
  qed
qed

lemma hr_first_max_unique:
  assumes "jm_wf r" "hr_first_max sc key r i s" "hr_first_max sc key r j t"
  shows "i = j"
proof -
  from assms(2) obtain pre w post where r: "r = pre @ (i, w) # post" and s: "s = sc key i w"
    and pre: "\<forall>(j, v) \<in> set pre. sc key j v < s" by (auto simp: hr_first_max_def)
  from assms(3) obtain pre' w' post' where r': "r = pre' @ (j, w') # post'" and t: "t = sc key j w'"
    and pre': "\<forall>(j, v) \<in> set pre'. sc key j v < t" by (auto simp: hr_first_max_def)
  have "s = t"
    using hr_first_max_le [OF assms(2)] hr_first_max_le [OF assms(3)]
      hr_first_max_mem [OF assms(2)] hr_first_max_mem [OF assms(3)] by (metis order.antisym)
  moreover from r r' have "(i, w) \<in> set pre' \<or> (i, w) = (j, w') \<or> (j, w') \<in> set pre"
    using split_two_cases [of pre "(i, w)" post pre' "(j, w')" post'] by auto
  ultimately show ?thesis using pre pre' s t by auto
qed

lemma hr_get_first_max:
  assumes "jm_wf r"
  shows "hr_get sc r key = Some i \<longleftrightarrow> (\<exists>s. hr_first_max sc key r i s)"
proof (cases "r = []")
  case True
  then show ?thesis by (simp add: hr_get_def hr_first_max_def)
next
  case False
  then obtain j s where "hr_best sc key r None = Some (j, s)" "hr_first_max sc key r j s"
    using hr_best_first_max by blast
  then show ?thesis
    using hr_first_max_unique [OF assms] by (auto simp: hr_get_def)
qed

section \<open>The ring invariant\<close>

definition hr_wf :: "ring \<Rightarrow> bool" where
  "hr_wf r \<longleftrightarrow> jm_wf r \<and> (\<forall>p \<in> set r. 0 < snd p)"

lemma hr_wf_Nil [simp]: "hr_wf []"
  by (simp add: hr_wf_def)

lemma hr_wf_set: "hr_wf r \<Longrightarrow> 0 < w \<Longrightarrow> hr_wf (jm_set nid w r)"
  using set_jm_set_subset [of nid w r] by (auto simp: hr_wf_def)

lemma hr_wf_add: "hr_wf r \<Longrightarrow> hr_add r n = Inr r' \<Longrightarrow> hr_wf r'"
  by (auto simp: hr_add_def Let_def hr_wf_set split: ring_node.splits option.splits jsnum.splits if_splits)

lemma hr_wf_remove: "hr_wf r \<Longrightarrow> hr_wf (snd (hr_remove r nid))"
  by (auto simp: hr_wf_def hr_remove_def set_jm_delete)

lemma hr_wf_add_all: "hr_wf r \<Longrightarrow> hr_add_all r ns = Inr r' \<Longrightarrow> hr_wf r'"
  by (induction ns arbitrary: r) (auto split: sum.splits dest: hr_wf_add)

lemma hr_wf_jm: "hr_wf r \<Longrightarrow> jm_wf r"
  by (simp add: hr_wf_def)

lemma hr_add_Inr_keys:
  "hr_add r (RingNode nid wopt) = Inr r' \<Longrightarrow> \<exists>w. r' = jm_set nid w r"
  by (auto simp: hr_add_def Let_def split: option.splits jsnum.splits if_splits)

section \<open>Consistency of the routing\<close>

lemma hr_first_max_delete:
  assumes "hr_first_max sc key r i s" "x \<noteq> i"
  shows "hr_first_max sc key (jm_delete x r) i s"
proof -
  from assms(1) obtain pre w post where "r = pre @ (i, w) # post" "s = sc key i w"
    "\<forall>(j, v) \<in> set pre. sc key j v < s" "\<forall>(j, v) \<in> set post. sc key j v \<le> s"
    by (auto simp: hr_first_max_def)
  then show ?thesis
    unfolding hr_first_max_def using assms(2)
    by (intro exI [of _ "jm_delete x pre"] exI [of _ w] exI [of _ "jm_delete x post"])
      (auto simp: AList.delete_eq)
qed

lemma hr_get_append_new:
  assumes "jm_wf (r @ [(x, w)])" "hr_get sc r key = Some i"
  shows "hr_get sc (r @ [(x, w)]) key = Some i \<or> hr_get sc (r @ [(x, w)]) key = Some x"
proof -
  have wf: "jm_wf r" using assms(1) by (simp add: jm_wf_def)
  obtain s where fm: "hr_first_max sc key r i s"
    using hr_get_first_max [OF wf] assms(2) by blast
  show ?thesis
  proof (cases "sc key x w \<le> s")
    case True
    then show ?thesis
      using hr_first_max_keep [OF fm] hr_get_first_max [OF assms(1)] by blast
  next
    case False
    then have "hr_first_max sc key (r @ [(x, w)]) x (sc key x w)"
      using hr_first_max_le [OF fm] by (intro hr_first_max_new) fastforce
    then show ?thesis using hr_get_first_max [OF assms(1)] by blast
  qed
qed

text \<open>
  (C8) Minimal disruption. On a ring whose owner of a key is \<open>i\<close>, removing any other node leaves
  the key with \<open>i\<close>, and adding a node that was not on the ring leaves it with \<open>i\<close> or moves it to
  the new node, whatever the score function.
\<close>

theorem hr_minimal_disruption:
  assumes "hr_wf r" and "hr_get sc r key = Some i"
  shows "(x \<noteq> i \<longrightarrow> hr_get sc (snd (hr_remove r x)) key = Some i) \<and>
         (\<not> hr_has r x \<and> hr_add r (RingNode x w) = Inr r' \<longrightarrow>
            hr_get sc r' key = Some i \<or> hr_get sc r' key = Some x)"
proof (intro conjI impI)
  assume "x \<noteq> i"
  moreover obtain s where "hr_first_max sc key r i s"
    using hr_get_first_max [OF hr_wf_jm [OF assms(1)]] assms(2) by blast
  ultimately have "hr_first_max sc key (jm_delete x r) i s"
    by (intro hr_first_max_delete)
  then show "hr_get sc (snd (hr_remove r x)) key = Some i"
    using hr_get_first_max [OF jm_wf_delete [OF hr_wf_jm [OF assms(1)]]]
    by (auto simp: hr_remove_def)
next
  assume new: "\<not> hr_has r x \<and> hr_add r (RingNode x w) = Inr r'"
  then obtain v where r': "r' = jm_set x v r" using hr_add_Inr_keys by blast
  with new have eq: "r' = r @ [(x, v)]"
    by (simp add: hr_has_def jm_has_iff jm_set_absent)
  then have "jm_wf (r @ [(x, v)])" using r' hr_wf_jm [OF assms(1)] by (metis jm_wf_set)
  then show "hr_get sc r' key = Some i \<or> hr_get sc r' key = Some x"
    using hr_get_append_new [OF _ assms(2)] eq by simp
qed

text \<open>A scorer for concrete examples: longer node ids score higher.\<close>

definition hr_len_score :: scorer where
  "hr_len_score key nid w = w * real (length nid)"

theorem hr_minimal_disruption_witness:
  "hr_get hr_len_score (snd (hr_remove [(''a'', 1), (''bbb'', 1), (''cc'', 1)] ''cc'')) ''k'' = Some ''bbb'' \<and>
   hr_get hr_len_score [(''a'', 1), (''bbb'', 1), (''cc'', 1), (''dddd'', 1)] ''k'' \<in> {Some ''bbb'', Some ''dddd''}"
proof -
  let ?r = "[(''a'', 1), (''bbb'', 1), (''cc'', 1)] :: ring"
  have wf: "hr_wf ?r" by (simp add: hr_wf_def jm_wf_def)
  have get: "hr_get hr_len_score ?r ''k'' = Some ''bbb''"
    by (simp add: hr_get_def hr_len_score_def)
  have add: "hr_add ?r (RingNode ''dddd'' None) = Inr (?r @ [(''dddd'', 1)])"
    by (simp add: hr_add_def)
  show ?thesis
    using hr_minimal_disruption [OF wf get, of "''cc''" None ?r]
      hr_minimal_disruption [OF wf get, of "''dddd''" None "?r @ [(''dddd'', 1)]"] add
    by (simp add: hr_has_def jm_has_def)
qed

text \<open>
  Independence of the insertion order. Two rings with the same weighted nodes route a key to
  the same node whenever no two of the nodes tie on that key.
\<close>

lemma hr_get_order_independent:
  assumes "hr_wf r" "hr_wf r'" "set r = set r'"
    and "inj_on (\<lambda>(j, v). sc key j v) (set r)"
  shows "hr_get sc r key = hr_get sc r' key"
proof (cases "r = []")
  case True
  then show ?thesis using assms(3) by simp
next
  case False
  then obtain i s where i: "hr_get sc r key = Some i" "hr_first_max sc key r i s"
    using hr_best_first_max [of r sc key] by (auto simp: hr_get_def)
  from False assms(3) have "r' \<noteq> []" by auto
  then obtain j t where j: "hr_get sc r' key = Some j" "hr_first_max sc key r' j t"
    using hr_best_first_max [of r' sc key] by (auto simp: hr_get_def)
  obtain w v where w: "(i, w) \<in> set r" "s = sc key i w" and v: "(j, v) \<in> set r" "t = sc key j v"
    using hr_first_max_mem [OF i(2)] hr_first_max_mem [OF j(2)] assms(3) by auto
  have "s = t"
    using hr_first_max_le [OF i(2) v(1)] hr_first_max_le [OF j(2)] w v assms(3) by fastforce
  then have "(i, w) = (j, v)"
    using inj_onD [OF assms(4), of "(i, w)" "(j, v)"] w v by simp
  then show ?thesis using i j by simp
qed

section \<open>Replica lists\<close>

definition hr_ranking :: "scorer \<Rightarrow> ring \<Rightarrow> string \<Rightarrow> (string \<times> real) list" where
  "hr_ranking sc r key = sort_key (\<lambda>s. - snd s) (map (\<lambda>(nid, weight). (nid, sc key nid weight)) r)"

lemma hr_getN_ranking: "0 < n \<Longrightarrow> hr_getN sc r key n = map fst (take (nat n) (hr_ranking sc r key))"
  by (simp add: hr_getN_def hr_ranking_def)

lemma hr_ranking_delete:
  "hr_ranking sc (jm_delete x r) key = filter (\<lambda>s. fst s \<noteq> x) (hr_ranking sc r key)"
proof -
  have "map (\<lambda>(nid, weight). (nid, sc key nid weight)) (jm_delete x r) =
        filter (\<lambda>s. fst s \<noteq> x) (map (\<lambda>(nid, weight). (nid, sc key nid weight)) r)"
    by (induction r) auto
  then show ?thesis by (simp add: hr_ranking_def filter_sort)
qed

lemma hr_ranking_set: "set (hr_ranking sc r key) = (\<lambda>(nid, w). (nid, sc key nid w)) ` set r"
  by (simp add: hr_ranking_def)

lemma hr_ranking_ids: "mset (map fst (hr_ranking sc r key)) = mset (jm_keys r)"
  by (simp add: hr_ranking_def multiset.map_comp comp_def case_prod_beta)

lemma hr_ranking_distinct: "jm_wf r \<Longrightarrow> distinct (map fst (hr_ranking sc r key))"
  by (metis hr_ranking_ids jm_wf_def mset_eq_imp_distinct_iff)

lemma hr_ranking_length: "length (hr_ranking sc r key) = length r"
  by (simp add: hr_ranking_def)

lemma hr_ranking_sorted: "sorted_wrt (\<lambda>a b. snd b \<le> snd a) (hr_ranking sc r key)"
proof -
  have "sorted (map (\<lambda>s. - snd s) (hr_ranking sc r key))"
    by (simp add: hr_ranking_def)
  then show ?thesis by (simp add: sorted_map)
qed


lemma hr_getN_props:
  assumes "jm_wf r" "0 < n"
  shows "distinct (hr_getN sc r key n)" and "set (hr_getN sc r key n) \<subseteq> set (jm_keys r)"
    and "length (hr_getN sc r key n) = min (nat n) (length r)"
proof -
  show "distinct (hr_getN sc r key n)"
    using hr_ranking_distinct [OF assms(1), of sc key] assms(2)
    by (simp add: hr_getN_ranking take_map [symmetric] distinct_take)
  have "set (map fst (hr_ranking sc r key)) = set (jm_keys r)"
    by (metis hr_ranking_ids set_mset_mset)
  then show "set (hr_getN sc r key n) \<subseteq> set (jm_keys r)"
    using assms(2) set_take_subset [of "nat n" "map fst (hr_ranking sc r key)"]
    by (simp add: hr_getN_ranking take_map)
  show "length (hr_getN sc r key n) = min (nat n) (length r)"
    using assms(2) by (simp add: hr_getN_ranking hr_ranking_length)
qed

lemma hr_ranking_hd:
  assumes "jm_wf r" "hr_first_max sc key r i s"
  shows "\<exists>t. hr_ranking sc r key = (i, s) # t"
proof -
  define scored where "scored = map (\<lambda>(nid, weight). (nid, sc key nid weight)) r"
  obtain pre w post where r: "r = pre @ (i, w) # post" and s: "s = sc key i w"
    and pre: "\<forall>(j, v) \<in> set pre. sc key j v < s" and post: "\<forall>(j, v) \<in> set post. sc key j v \<le> s"
    using assms(2) by (auto simp: hr_first_max_def)
  have ne: "hr_ranking sc r key \<noteq> []" using r by (simp flip: length_0_conv add: hr_ranking_length)
  then obtain h t where ht: "hr_ranking sc r key = h # t" by (cases "hr_ranking sc r key") auto
  have "(i, s) \<in> set (hr_ranking sc r key)" using r s by (force simp: hr_ranking_set)
  then have "s \<le> snd h" using ht hr_ranking_sorted [of sc r key] by auto
  moreover have "h \<in> set (hr_ranking sc r key)" using ht by simp
  then have "snd h \<le> s" using hr_first_max_le [OF assms(2)] by (auto simp: hr_ranking_set)
  ultimately have "snd h = s" by simp
  then have "h # filter (\<lambda>p. snd p = s) t = filter (\<lambda>p. - snd p = - s) (hr_ranking sc r key)"
    using ht by simp
  also have "\<dots> = filter (\<lambda>p. - snd p = - s) scored"
    unfolding hr_ranking_def scored_def by (rule sort_key_stable)
  also have "\<dots> = (i, s) # filter (\<lambda>p. - snd p = - s) (map (\<lambda>(nid, weight). (nid, sc key nid weight)) post)"
    using pre s by (auto simp: scored_def r filter_empty_conv)
  finally show ?thesis using ht by simp
qed

text \<open>
  \<^verbatim>\<open>getN\<close> returns a primary and its replicas: at most \<open>n\<close> distinct nodes of the ring (all of
  them when there are fewer), the first being the node \<^verbatim>\<open>get\<close> returns.
\<close>

lemma hr_getN_primary:
  assumes "hr_wf r" "0 < n" "r \<noteq> []"
  shows "distinct (hr_getN sc r key n) \<and> set (hr_getN sc r key n) \<subseteq> set (hr_nodeIds r) \<and>
    length (hr_getN sc r key n) = min (nat n) (hr_size r) \<and>
    Some (hd (hr_getN sc r key n)) = hr_get sc r key"
proof -
  note wf = hr_wf_jm [OF assms(1)]
  obtain i s where i: "hr_get sc r key = Some i" "hr_first_max sc key r i s"
    using hr_best_first_max [OF assms(3), of sc key] by (auto simp: hr_get_def)
  obtain t where "hr_ranking sc r key = (i, s) # t"
    using hr_ranking_hd [OF wf i(2)] by blast
  then have "hd (hr_getN sc r key n) = i"
    using assms(2) by (simp add: hr_getN_ranking take_Cons')
  then show ?thesis
    using hr_getN_props [OF wf assms(2)] i by (simp add: hr_nodeIds_def hr_size_def)
qed

text \<open>
  Failover follows the replica list: after a node leaves the ring, the first \<open>n\<close> choices for
  a key are the first \<open>n\<close> of the old full ranking without that node, in the old order.
\<close>

lemma hr_getN_failover:
  assumes "0 < n" "r \<noteq> []"
  shows "hr_getN sc (snd (hr_remove r x)) key n =
    take (nat n) (filter (\<lambda>i. i \<noteq> x) (hr_getN sc r key (int (hr_size r))))"
proof -
  have "hr_getN sc r key (int (hr_size r)) = map fst (hr_ranking sc r key)"
    using assms(2) by (simp add: hr_getN_ranking hr_size_def hr_ranking_length)
  moreover have "hr_getN sc (jm_delete x r) key n =
      map fst (take (nat n) (filter (\<lambda>s. fst s \<noteq> x) (hr_ranking sc r key)))"
    using assms(1) by (simp add: hr_getN_ranking hr_ranking_delete)
  ultimately show ?thesis
    by (simp add: hr_remove_def take_map filter_map comp_def)
qed

end
