(* ===== verification/Router.thy ===== *)
theory Router
  imports HashRing Reconciler
begin

text \<open>
  \<^verbatim>\<open>packages/signaling/src/RoomRouter.ts\<close>: the hash ring kept in step with the membership by a
  reconciler whose handlers are \<open>rt_handler\<close>. \<^verbatim>\<open>Number\<close>, applied to the value of the \<^verbatim>\<open>capacity\<close> entry,
  is the parameter \<open>num\<close>: nothing here depends on how it reads a text.
\<close>

record router =
  rt_selfId :: string
  rt_ring :: ring
  rt_byId :: "(string, node_info) jsmap"
  rt_weights :: "(string, jsnum) jsmap"

definition js_falsy :: "jsnum \<Rightarrow> bool" where
  "js_falsy x \<longleftrightarrow> x = JNaN \<or> x = JFin 0"

text \<open>\<^verbatim>\<open>Math.max(1, x)\<close>.\<close>

fun js_max_one :: "jsnum \<Rightarrow> jsnum" where
  "js_max_one (JFin r) = JFin (max 1 r)"
| "js_max_one JInf = JInf"
| "js_max_one JNegInf = JFin 1"
| "js_max_one JNaN = JNaN"

definition nodeWeight :: "(json option \<Rightarrow> jsnum) \<Rightarrow> node_info \<Rightarrow> jsnum" where
  "nodeWeight num n =
     (let x = num (Option.bind (ni_metadata n) (\<lambda>m. json_field m ''capacity''))
      in js_max_one (if js_falsy x then JFin 1 else x))"

definition rt_upsert :: "(json option \<Rightarrow> jsnum) \<Rightarrow> node_info \<Rightarrow> router \<Rightarrow> bool \<times> router" where
  "rt_upsert num n e =
     (let weight = nodeWeight num n
      in if jm_get (rt_weights e) (ni_id n) \<noteq> Some weight
         then (case hr_add (rt_ring e) (RingNode (ni_id n) (Some weight)) of
                 Inl err \<Rightarrow> (True, e)
               | Inr ring \<Rightarrow> (False, e\<lparr>rt_ring := ring, rt_weights := jm_set (ni_id n) weight (rt_weights e),
                                       rt_byId := jm_set (ni_id n) n (rt_byId e)\<rparr>))
         else (False, e\<lparr>rt_byId := jm_set (ni_id n) n (rt_byId e)\<rparr>))"

definition rt_onRemove :: "string \<Rightarrow> router \<Rightarrow> router" where
  "rt_onRemove i e =
     (if i = rt_selfId e then e
      else e\<lparr>rt_ring := snd (hr_remove (rt_ring e) i), rt_byId := jm_delete i (rt_byId e), rt_weights := jm_delete i (rt_weights e)\<rparr>)"

text \<open>The handlers given to the reconciler: none re-enters, an upsert may throw.\<close>

definition rt_handler :: "(json option \<Rightarrow> jsnum) \<Rightarrow> router rc_handler" where
  "rt_handler num ev e =
     (case ev of
        OnAdd n \<Rightarrow> ([], rt_upsert num n e)
      | OnUpdate n \<Rightarrow> ([], rt_upsert num n e)
      | OnRemove i \<Rightarrow> ([], False, rt_onRemove i e))"

definition self_info :: "string \<Rightarrow> node_info" where
  "self_info i = \<lparr>ni_id = i, ni_region = None, ni_address = None, ni_metadata = None\<rparr>"

definition rt_new :: "string \<Rightarrow> router" where
  "rt_new selfId = \<lparr>rt_selfId = selfId, rt_ring = jm_set selfId 1 [], rt_byId = jm_set selfId (self_info selfId) [], rt_weights = []\<rparr>"

definition rt_route :: "scorer \<Rightarrow> router \<Rightarrow> string \<Rightarrow> bool \<times> node_info option" where
  "rt_route sc e roomId =
     (let i = hr_get sc (rt_ring e) roomId
      in (i = Some (rt_selfId e), Option.bind i (jm_get (rt_byId e))))"

definition rt_ownerId :: "scorer \<Rightarrow> router \<Rightarrow> string \<Rightarrow> string option" where
  "rt_ownerId sc e roomId = hr_get sc (rt_ring e) roomId"

definition rt_owner :: "scorer \<Rightarrow> router \<Rightarrow> string \<Rightarrow> node_info option" where
  "rt_owner sc e roomId = snd (rt_route sc e roomId)"

definition rt_isLocal :: "scorer \<Rightarrow> router \<Rightarrow> string \<Rightarrow> bool" where
  "rt_isLocal sc e roomId = fst (rt_route sc e roomId)"

definition rt_nodeIds :: "router \<Rightarrow> string list" where
  "rt_nodeIds e = hr_nodeIds (rt_ring e)"

section \<open>The invariant\<close>

text \<open>
  The ring is well formed and holds the node itself; the remembered weights are those in the ring;
  node records are kept of exactly the ring's nodes; and \<open>ids\<close>, the ids the reconciler tracks, are the
  ring's up to the node itself.
\<close>

definition rt_inv :: "string set \<Rightarrow> router \<Rightarrow> bool" where
  "rt_inv ids e \<longleftrightarrow>
     hr_wf (rt_ring e) \<and> jm_get (rt_ring e) (rt_selfId e) \<noteq> None \<and>
     (\<forall>i x. jm_get (rt_weights e) i = Some x \<longrightarrow> (\<exists>w. x = JFin w \<and> jm_get (rt_ring e) i = Some w)) \<and>
     (\<forall>i. jm_get (rt_byId e) i = None \<longleftrightarrow> jm_get (rt_ring e) i = None) \<and>
     (\<forall>i n. jm_get (rt_byId e) i = Some n \<longrightarrow> ni_id n = i) \<and>
     (\<forall>i. i \<noteq> rt_selfId e \<longrightarrow> (jm_get (rt_ring e) i \<noteq> None \<longleftrightarrow> i \<in> ids))"

definition finite_weight :: "(json option \<Rightarrow> jsnum) \<Rightarrow> node_info \<Rightarrow> bool" where
  "finite_weight num n \<longleftrightarrow> nodeWeight num n \<noteq> JInf"

definition weight_of :: "(json option \<Rightarrow> jsnum) \<Rightarrow> node_info \<Rightarrow> real" where
  "weight_of num n = (case nodeWeight num n of JFin w \<Rightarrow> w | _ \<Rightarrow> 0)"

lemma nodeWeight_cases: "nodeWeight num n = JInf \<or> (\<exists>w \<ge> 1. nodeWeight num n = JFin w)"
  by (cases "num (Option.bind (ni_metadata n) (\<lambda>m. json_field m ''capacity''))")
    (auto simp: nodeWeight_def Let_def js_falsy_def)

lemma finite_weightD: "finite_weight num n \<Longrightarrow> nodeWeight num n = JFin (weight_of num n) \<and> 1 \<le> weight_of num n"
  using nodeWeight_cases [of num n] by (auto simp: finite_weight_def weight_of_def)

lemma rt_new_inv: "rt_inv {} (rt_new i)"
  by (auto simp: rt_inv_def rt_new_def self_info_def hr_wf_def jm_wf_def)

lemma rt_upsert_ok:
  assumes "rt_inv ids e" "finite_weight num n"
  shows "\<exists>e'. rt_upsert num n e = (False, e') \<and> rt_inv (insert (ni_id n) ids) e' \<and> rt_selfId e' = rt_selfId e \<and>
    (\<forall>i. jm_get (rt_ring e') i = (if i = ni_id n then Some (weight_of num n) else jm_get (rt_ring e) i)) \<and>
    (\<forall>i. jm_get (rt_byId e') i = (if i = ni_id n then Some n else jm_get (rt_byId e) i))"
proof -
  note w = finite_weightD [OF assms(2)]
  show ?thesis
  proof (cases "jm_get (rt_weights e) (ni_id n) = Some (JFin (weight_of num n))")
    case True
    then have r: "jm_get (rt_ring e) (ni_id n) = Some (weight_of num n)"
      using assms(1) unfolding rt_inv_def by blast
    let ?e = "e\<lparr>rt_byId := jm_set (ni_id n) n (rt_byId e)\<rparr>"
    have "rt_inv (insert (ni_id n) ids) ?e" using assms(1) r by (auto simp: rt_inv_def)
    moreover have "rt_upsert num n e = (False, ?e)" using True w by (simp add: rt_upsert_def)
    ultimately show ?thesis using r by auto
  next
    case False
    let ?e = "e\<lparr>rt_ring := jm_set (ni_id n) (weight_of num n) (rt_ring e),
      rt_weights := jm_set (ni_id n) (JFin (weight_of num n)) (rt_weights e), rt_byId := jm_set (ni_id n) n (rt_byId e)\<rparr>"
    have "hr_wf (jm_set (ni_id n) (weight_of num n) (rt_ring e))" using assms(1) w by (simp add: rt_inv_def hr_wf_set)
    then have "rt_inv (insert (ni_id n) ids) ?e" using assms(1) by (simp add: rt_inv_def)
    moreover have "rt_upsert num n e = (False, ?e)" using False w by (simp add: rt_upsert_def hr_add_def)
    ultimately show ?thesis by auto
  qed
qed

lemma rt_onRemove_ok:
  assumes "rt_inv ids e"
  shows "rt_inv (ids - {i}) (rt_onRemove i e)" "rt_selfId (rt_onRemove i e) = rt_selfId e"
    "jm_get (rt_ring (rt_onRemove i e)) j = (if j = i \<and> i \<noteq> rt_selfId e then None else jm_get (rt_ring e) j)"
    "jm_get (rt_byId (rt_onRemove i e)) j = (if j = i \<and> i \<noteq> rt_selfId e then None else jm_get (rt_byId e) j)"
  using assms hr_wf_remove [of "rt_ring e" i] by (auto simp: rt_inv_def rt_onRemove_def hr_remove_def)

section \<open>Following the membership\<close>

lemma rt_nodes_ok:
  assumes "rt_inv (set (rc_ids r)) e" "\<forall>n \<in> set ns. finite_weight num n" "distinct (map ni_id ns)"
  shows "\<exists>evs r' e'. rc_nodes (rt_handler num) ns r e = (evs, False, r', e') \<and> rt_inv (set (rc_ids r')) e' \<and>
    rc_pending r' = rc_pending r \<and> rt_selfId e' = rt_selfId e \<and>
    (\<forall>n \<in> set ns. jm_get (rt_ring e') (ni_id n) = Some (weight_of num n) \<and> jm_get (rt_byId e') (ni_id n) = Some n) \<and>
    (\<forall>i. i \<notin> node_ids ns \<longrightarrow> jm_get (rt_ring e') i = jm_get (rt_ring e) i \<and> jm_get (rt_byId e') i = jm_get (rt_byId e) i)"
  using assms
proof (induction ns arbitrary: r e)
  case (Cons n ns)
  obtain e1 where e1: "rt_upsert num n e = (False, e1)" "rt_inv (insert (ni_id n) (set (rc_ids r))) e1" "rt_selfId e1 = rt_selfId e"
      "\<forall>i. jm_get (rt_ring e1) i = (if i = ni_id n then Some (weight_of num n) else jm_get (rt_ring e) i)"
      "\<forall>i. jm_get (rt_byId e1) i = (if i = ni_id n then Some n else jm_get (rt_byId e) i)"
    using rt_upsert_ok [OF Cons.prems(1), of num n] Cons.prems(2) by auto
  let ?r = "if ni_id n \<in> set (rc_ids r) then r else r\<lparr>rc_ids := js_add (ni_id n) (rc_ids r)\<rparr>"
  have "set (rc_ids ?r) = insert (ni_id n) (set (rc_ids r))" by auto
  then obtain evs r' e' where IH: "rc_nodes (rt_handler num) ns ?r e1 = (evs, False, r', e')" "rt_inv (set (rc_ids r')) e'"
      "rc_pending r' = rc_pending ?r" "rt_selfId e' = rt_selfId e1"
      "\<forall>n \<in> set ns. jm_get (rt_ring e') (ni_id n) = Some (weight_of num n) \<and> jm_get (rt_byId e') (ni_id n) = Some n"
      "\<forall>i. i \<notin> node_ids ns \<longrightarrow> jm_get (rt_ring e') i = jm_get (rt_ring e1) i \<and> jm_get (rt_byId e') i = jm_get (rt_byId e1) i"
    using Cons.IH [of ?r e1] e1(2) Cons.prems(2,3) by auto
  have "rc_nodes (rt_handler num) (n # ns) r e = ((if ni_id n \<in> set (rc_ids r) then OnUpdate n else OnAdd n) # evs, False, r', e')"
    using e1(1) IH(1) by (auto simp: rt_handler_def rc_reenter_def Let_def split: if_splits)
  then show ?case
    using IH e1(3,4,5) Cons.prems(3) by (auto split: if_splits)
qed simp

lemma rt_removes_ok:
  assumes "rt_inv (set (rc_ids r)) e"
  shows "\<exists>evs r' e'. rc_removes (rt_handler num) live is r e = (evs, False, r', e') \<and> rt_inv (set (rc_ids r')) e' \<and>
    rc_pending r' = rc_pending r \<and> rt_selfId e' = rt_selfId e \<and>
    (\<forall>i. jm_get (rt_ring e') i = (if i \<in> set is - live - {rt_selfId e} then None else jm_get (rt_ring e) i)) \<and>
    (\<forall>i. jm_get (rt_byId e') i = (if i \<in> set is - live - {rt_selfId e} then None else jm_get (rt_byId e) i))"
  using assms
proof (induction "is" arbitrary: r e)
  case (Cons i "is")
  show ?case
  proof (cases "i \<in> live")
    case True
    then show ?thesis using Cons.IH [OF Cons.prems] by auto
  next
    case False
    note R = rt_onRemove_ok [OF Cons.prems, of i]
    let ?r = "r\<lparr>rc_ids := js_del i (rc_ids r)\<rparr>" and ?e = "rt_onRemove i e"
    obtain evs r' e' where IH: "rc_removes (rt_handler num) live is ?r ?e = (evs, False, r', e')" "rt_inv (set (rc_ids r')) e'"
        "rc_pending r' = rc_pending ?r" "rt_selfId e' = rt_selfId ?e"
        "\<forall>i. jm_get (rt_ring e') i = (if i \<in> set is - live - {rt_selfId ?e} then None else jm_get (rt_ring ?e) i)"
        "\<forall>i. jm_get (rt_byId e') i = (if i \<in> set is - live - {rt_selfId ?e} then None else jm_get (rt_byId ?e) i)"
      using Cons.IH [of ?r ?e] R(1) by auto
    have "rc_removes (rt_handler num) live (i # is) r e = (OnRemove i # evs, False, r', e')"
      using False IH(1) by (simp add: rt_handler_def rc_reenter_def)
    then show ?thesis using IH R False by auto
  qed
qed auto

definition rt_ok :: "reconciler \<Rightarrow> router \<Rightarrow> bool" where
  "rt_ok r e \<longleftrightarrow> rc_idle r \<and> rt_inv (set (rc_ids r)) e"

text \<open>One watch callback with a snapshot of finite capacities.\<close>

lemma rt_watch:
  assumes "rt_ok r e" "\<forall>n \<in> set ns. finite_weight num n" "distinct (map ni_id ns)" "rt_selfId e \<in> node_ids ns"
  shows "\<exists>evs r' e'. rc_onWatch (rt_handler num) ns r e = Some (evs, False, r', e') \<and> rt_ok r' e' \<and> rt_selfId e' = rt_selfId e \<and>
    set (rt_ring e') = (\<lambda>n. (ni_id n, weight_of num n)) ` set ns \<and> (\<forall>n \<in> set ns. jm_get (rt_byId e') (ni_id n) = Some n)"
proof -
  let ?r = "r\<lparr>rc_seen := True, rc_syncing := True\<rparr>"
  have inv: "rt_inv (set (rc_ids ?r)) e" and idle: "rc_idle r" using assms(1) by (simp_all add: rt_ok_def)
  obtain evs1 r1 e1 where n: "rc_nodes (rt_handler num) ns ?r e = (evs1, False, r1, e1)" "rt_inv (set (rc_ids r1)) e1"
      "rc_pending r1 = rc_pending ?r" "rt_selfId e1 = rt_selfId e"
      "\<forall>n \<in> set ns. jm_get (rt_ring e1) (ni_id n) = Some (weight_of num n) \<and> jm_get (rt_byId e1) (ni_id n) = Some n"
    using rt_nodes_ok [OF inv assms(2,3)] by blast
  obtain evs2 r2 e2 where m: "rc_removes (rt_handler num) (node_ids ns) (rc_ids r1) r1 e1 = (evs2, False, r2, e2)"
      "rt_inv (set (rc_ids r2)) e2" "rc_pending r2 = rc_pending r1" "rt_selfId e2 = rt_selfId e1"
      "\<forall>i. jm_get (rt_ring e2) i = (if i \<in> set (rc_ids r1) - node_ids ns - {rt_selfId e1} then None else jm_get (rt_ring e1) i)"
      "\<forall>i. jm_get (rt_byId e2) i = (if i \<in> set (rc_ids r1) - node_ids ns - {rt_selfId e1} then None else jm_get (rt_byId e1) i)"
    using rt_removes_ok [OF n(2), of num "node_ids ns" "rc_ids r1"] by blast
  have a: "rc_apply (rt_handler num) ns True ?r e = (evs1 @ evs2, False, r2, e2)" using n(1) m(1) by (simp add: rc_apply_def)
  have "rc_onWatch (rt_handler num) ns r e = Some (evs1 @ evs2, False, r2\<lparr>rc_syncing := False\<rparr>, e2)"
    unfolding rc_onWatch_def
    using a m(3) n(3) idle by (subst rc_sync.simps) (simp add: rc_idle_def)
  moreover have "rt_ok (r2\<lparr>rc_syncing := False\<rparr>) e2"
    using rc_apply_replay [OF a [symmetric]] m(2,3) n(3) idle by (simp add: rt_ok_def rc_idle_def)
  moreover have "jm_get (rt_ring e2) i = Some w \<longleftrightarrow> (\<exists>n \<in> set ns. i = ni_id n \<and> w = weight_of num n)" for i w
  proof (cases "i \<in> node_ids ns")
    case True
    then obtain n0 where n0: "n0 \<in> set ns" "i = ni_id n0" by blast
    have "n = n0" if "n \<in> set ns" "ni_id n = ni_id n0" for n
      using that n0 assms(3) by (metis distinct_map inj_onD)
    then show ?thesis using n0 n(5) m(5) by auto
  next
    case False
    then have "i \<noteq> rt_selfId e1" using assms(4) n(4) by auto
    then have "jm_get (rt_ring e1) i \<noteq> None \<longrightarrow> i \<in> set (rc_ids r1)" using n(2) unfolding rt_inv_def by blast
    then show ?thesis using False m(5) n(4) \<open>i \<noteq> rt_selfId e1\<close> by auto
  qed
  then have "set (rt_ring e2) = (\<lambda>n. (ni_id n, weight_of num n)) ` set ns"
    using m(2) by (auto simp: rt_inv_def hr_wf_def jm_mem_iff)
  moreover have "\<forall>n \<in> set ns. jm_get (rt_byId e2) (ni_id n) = Some n" using n(5) m(6) by auto
  ultimately show ?thesis using m(4) n(4) by (metis (no_types, lifting))
qed

text \<open>
  (C3) Agreement: two nodes of a cluster, whatever snapshots they have processed before, route every
  room to the same owner once both have processed the same snapshot that lists them (finite
  capacities, no score ties on the room). The owner is a node of the snapshot, its record is known to
  both, and at most one node takes the room for its own.
\<close>

theorem router_agreement:
  assumes "rt_ok r1 e1" "rt_ok r2 e2" "distinct (map ni_id ns)" "\<forall>n \<in> set ns. finite_weight num n"
    and "rt_selfId e1 \<in> node_ids ns" "rt_selfId e2 \<in> node_ids ns"
    and "inj_on (\<lambda>n. sc room (ni_id n) (weight_of num n)) (set ns)"
  shows "\<exists>evs1 r1' e1' evs2 r2' e2' owner.
    rc_onWatch (rt_handler num) ns r1 e1 = Some (evs1, False, r1', e1') \<and> rt_ok r1' e1' \<and>
    rc_onWatch (rt_handler num) ns r2 e2 = Some (evs2, False, r2', e2') \<and> rt_ok r2' e2' \<and>
    owner \<in> set ns \<and> rt_route sc e1' room = (ni_id owner = rt_selfId e1, Some owner) \<and>
    rt_route sc e2' room = (ni_id owner = rt_selfId e2, Some owner)"
proof -
  obtain evs1 r1' e1' where 1: "rc_onWatch (rt_handler num) ns r1 e1 = Some (evs1, False, r1', e1')" "rt_ok r1' e1'"
      "rt_selfId e1' = rt_selfId e1" "set (rt_ring e1') = (\<lambda>n. (ni_id n, weight_of num n)) ` set ns"
      "\<forall>n \<in> set ns. jm_get (rt_byId e1') (ni_id n) = Some n"
    using rt_watch [OF assms(1,4,3,5)] by blast
  obtain evs2 r2' e2' where 2: "rc_onWatch (rt_handler num) ns r2 e2 = Some (evs2, False, r2', e2')" "rt_ok r2' e2'"
      "rt_selfId e2' = rt_selfId e2" "set (rt_ring e2') = (\<lambda>n. (ni_id n, weight_of num n)) ` set ns"
      "\<forall>n \<in> set ns. jm_get (rt_byId e2') (ni_id n) = Some n"
    using rt_watch [OF assms(2,4,3,6)] by blast
  have wf: "hr_wf (rt_ring e1')" "hr_wf (rt_ring e2')" using 1(2) 2(2) by (simp_all add: rt_ok_def rt_inv_def)
  have "inj_on (\<lambda>(j, v). sc room j v) (set (rt_ring e1'))"
    unfolding 1(4) using assms(7) by (auto simp: inj_on_def)
  then have same: "hr_get sc (rt_ring e1') room = hr_get sc (rt_ring e2') room"
    using hr_get_order_independent [OF wf] 1(4) 2(4) by simp
  have "rt_ring e1' \<noteq> []" using 1(4) assms(5) by auto
  then obtain i s where g: "hr_get sc (rt_ring e1') room = Some i" "hr_first_max sc room (rt_ring e1') i s"
    using hr_best_first_max [of "rt_ring e1'" sc room] by (auto simp: hr_get_def)
  then obtain w where "(i, w) \<in> set (rt_ring e1')" using hr_first_max_mem by blast
  then obtain n where n: "n \<in> set ns" "i = ni_id n" using 1(4) by auto
  have "rt_route sc e1' room = (ni_id n = rt_selfId e1, Some n)" "rt_route sc e2' room = (ni_id n = rt_selfId e2, Some n)"
    using g(1) same n 1(3,5) 2(3,5) by (auto simp: rt_route_def)
  then show ?thesis using 1(1,2) 2(1,2) n(1) by blast
qed

definition example_num :: "json option \<Rightarrow> jsnum" where
  "example_num x = (case x of Some (JNumber v) \<Rightarrow> v | _ \<Rightarrow> JNaN)"

theorem router_agreement_witness:
  "\<exists>e1' e2' (owner :: node_info). rt_isLocal hr_len_score e1' ''room'' = (ni_id owner = ''a'') \<and>
     rt_isLocal hr_len_score e2' ''room'' = (ni_id owner = ''bb'') \<and>
     rt_owner hr_len_score e1' ''room'' = rt_owner hr_len_score e2' ''room'' \<and>
     (\<exists>evs r. rc_onWatch (rt_handler example_num) [self_info ''a'', self_info ''bb''] rc_new (rt_new ''a'') = Some (evs, False, r, e1')) \<and>
     (\<exists>evs r. rc_onWatch (rt_handler example_num) [self_info ''a'', self_info ''bb''] rc_new (rt_new ''bb'') = Some (evs, False, r, e2'))"
proof -
  let ?ns = "[self_info ''a'', self_info ''bb'']"
  have ok: "rt_ok rc_new (rt_new i)" for i using rt_new_inv [of i] by (simp add: rt_ok_def rc_idle_def rc_new_def)
  have f: "finite_weight example_num (self_info i)" for i
    by (simp add: finite_weight_def nodeWeight_def self_info_def example_num_def js_falsy_def)
  have "inj_on (\<lambda>n. hr_len_score ''room'' (ni_id n) (weight_of example_num n)) (set ?ns)"
    by (simp add: self_info_def hr_len_score_def weight_of_def nodeWeight_def example_num_def js_falsy_def)
  then obtain evs1 r1' e1' evs2 r2' e2' owner where
      "rc_onWatch (rt_handler example_num) ?ns rc_new (rt_new ''a'') = Some (evs1, False, r1', e1')"
      "rc_onWatch (rt_handler example_num) ?ns rc_new (rt_new ''bb'') = Some (evs2, False, r2', e2')"
      "rt_route hr_len_score e1' ''room'' = (ni_id owner = rt_selfId (rt_new ''a''), Some owner)"
      "rt_route hr_len_score e2' ''room'' = (ni_id owner = rt_selfId (rt_new ''bb''), Some owner)"
    using router_agreement [OF ok ok, of ?ns example_num "''a''" "''bb''" hr_len_score "''room''"] f
    by (auto simp: rt_new_def self_info_def)
  moreover from this have "rt_isLocal hr_len_score e1' ''room'' = (ni_id owner = ''a'')"
      "rt_isLocal hr_len_score e2' ''room'' = (ni_id owner = ''bb'')"
      "rt_owner hr_len_score e1' ''room'' = rt_owner hr_len_score e2' ''room''"
    by (simp_all add: rt_isLocal_def rt_owner_def rt_new_def)
  ultimately show ?thesis
    by blast
qed

text \<open>
  A capacity that reads as infinity makes the upsert throw inside the reconciler, whose pass ends there.
\<close>

lemma rt_infinite_capacity_throws: "nodeWeight num n = JInf \<Longrightarrow> jm_get (rt_weights e) (ni_id n) \<noteq> Some JInf \<Longrightarrow> rt_upsert num n e = (True, e)"
  by (simp add: rt_upsert_def hr_add_def)

end
