(* ===== verification/CascadePlan.thy ===== *)
theory CascadePlan
  imports Prelude
begin

text \<open>
  \<^verbatim>\<open>planCascadeTree\<close> of \<^verbatim>\<open>packages/sfu/src/CascadeTree.ts\<close>: the fan-out tree that seats a room's viewers.
  The plan nodes are objects shared between the map and the frontier, so they live in a heap
  (a list, addressed by position) and the map and the frontier hold references. Counts and capacities
  are integers.
\<close>

datatype cascade_role = Origin | Relay | Edge

record plan_node =
  pn_id :: string
  pn_role :: cascade_role
  pn_parentId :: "string option"
  pn_children :: "string list"
  pn_tier :: nat
  pn_viewerSlots :: int

type_synonym cascade_link = "string \<times> string"

record cascade_plan =
  cp_origin :: string
  cp_nodes :: "(string, plan_node) jsmap"
  cp_links :: "cascade_link list"
  cp_edges :: "string list"
  cp_tiers :: nat
  cp_servedViewers :: int
  cp_unmetViewers :: int

datatype plan_error = FanoutTooSmall int | ViewersPerNodeTooSmall int

text \<open>The planner's local state: the objects, the map \<^verbatim>\<open>nodes\<close>, the links and the pool left.\<close>

record planner =
  pl_objs :: "plan_node list"
  pl_nodes :: "(string, nat) jsmap"
  pl_links :: "cascade_link list"
  pl_pool :: "string list"

definition pl_attach :: "nat \<Rightarrow> string \<Rightarrow> nat \<Rightarrow> string list \<Rightarrow> planner \<Rightarrow> planner" where
  "pl_attach parent childId tier pool s =
     (let p = pl_objs s ! parent;
          child = \<lparr>pn_id = childId, pn_role = Edge, pn_parentId = Some (pn_id p), pn_children = [], pn_tier = tier + 1, pn_viewerSlots = 0\<rparr>
      in s\<lparr>pl_objs := (pl_objs s)[parent := p\<lparr>pn_children := pn_children p @ [childId]\<rparr>] @ [child],
           pl_nodes := jm_set childId (length (pl_objs s)) (pl_nodes s),
           pl_links := pl_links s @ [(pn_id p, childId)], pl_pool := pool\<rparr>)"

text \<open>The inner loop: at most \<open>k\<close> more children for one parent; the references of the new ones.\<close>

fun pl_children :: "nat \<Rightarrow> nat \<Rightarrow> nat \<Rightarrow> planner \<Rightarrow> nat list \<times> planner" where
  "pl_children 0 parent tier s = ([], s)"
| "pl_children (Suc k) parent tier s =
     (case pl_pool s of
        [] \<Rightarrow> ([], s)
      | childId # pool \<Rightarrow>
          (let (next, s') = pl_children k parent tier (pl_attach parent childId tier pool s)
           in (length (pl_objs s) # next, s')))"

fun pl_frontier :: "nat \<Rightarrow> nat list \<Rightarrow> nat \<Rightarrow> planner \<Rightarrow> nat list \<times> planner" where
  "pl_frontier fanout [] tier s = ([], s)"
| "pl_frontier fanout (parent # ps) tier s =
     (let (next, s1) = pl_children fanout parent tier s
      in if pl_pool s1 = [] then (next, s1)
         else (let (next', s2) = pl_frontier fanout ps tier s1 in (next @ next', s2)))"

definition mark_relay :: "plan_node \<Rightarrow> plan_node" where
  "mark_relay p = (if length (pn_children p) > 0 \<and> pn_role p \<noteq> Origin then p\<lparr>pn_role := Relay\<rparr> else p)"

definition pl_relays :: "nat list \<Rightarrow> planner \<Rightarrow> planner" where
  "pl_relays frontier s = fold (\<lambda>p s. s\<lparr>pl_objs := (pl_objs s)[p := mark_relay (pl_objs s ! p)]\<rparr>) frontier s"

lemma pl_relays_frame [simp]:
  "pl_nodes (pl_relays fr s) = pl_nodes s" "pl_links (pl_relays fr s) = pl_links s" "pl_pool (pl_relays fr s) = pl_pool s"
  "length (pl_objs (pl_relays fr s)) = length (pl_objs s)"
  by (induction fr arbitrary: s) (simp_all add: pl_relays_def)

lemma pl_children_pool:
  "pl_children k p t s = (next, s') \<Longrightarrow> length (pl_pool s') + length next = length (pl_pool s)"
  by (induction k p t s arbitrary: "next" s' rule: pl_children.induct)
    (auto split: list.splits prod.splits simp: pl_attach_def Let_def)

lemma pl_frontier_pool:
  "pl_frontier f fr t s = (next, s') \<Longrightarrow> length (pl_pool s') + length next = length (pl_pool s)"
proof (induction f fr t s arbitrary: "next" s' rule: pl_frontier.induct)
  case (2 fanout parent ps tier s)
  obtain n1 s1 where c: "pl_children fanout parent tier s = (n1, s1)" by fastforce
  show ?case
    using 2 c pl_children_pool [OF c] by (auto simp: Let_def split: if_splits prod.splits) fastforce
qed simp

text \<open>The main loop: tier by tier until the frontier can seat everybody or the pool is empty.\<close>

function pl_loop :: "nat \<Rightarrow> int \<Rightarrow> int \<Rightarrow> nat list \<Rightarrow> nat \<Rightarrow> planner \<Rightarrow> nat \<times> planner" where
  "pl_loop fanout viewersPerNode viewerCount frontier tier s =
     (if int (length frontier) * viewersPerNode < viewerCount \<and> pl_pool s \<noteq> []
      then (let (next, s1) = pl_frontier fanout frontier tier s
            in if next = [] then (tier, s1)
               else pl_loop fanout viewersPerNode viewerCount next (tier + 1) (pl_relays frontier s1))
      else (tier, s))"
  by pat_completeness auto
termination
proof (relation "measure (\<lambda>(f, v, c, fr, t, s). length (pl_pool s))")
  fix f v c fr t s x n s1
  assume "x = pl_frontier f fr t s" "(n, s1) = x" "n \<noteq> []"
  then show "((f, v, c, n, t + 1, pl_relays fr s1), (f, v, c, fr, t, s)) \<in> measure (\<lambda>(f, v, c, fr, t, s). length (pl_pool s))"
    using pl_frontier_pool [of f fr t s n s1] by (cases n) auto
qed simp

declare pl_loop.simps [simp del]

text \<open>Seating: the leaves in map order take what they can.\<close>

fun pl_seat :: "(string \<Rightarrow> int) \<Rightarrow> nat list \<Rightarrow> int \<Rightarrow> plan_node list \<Rightarrow> int \<times> plan_node list" where
  "pl_seat cap [] remaining objs = (remaining, objs)"
| "pl_seat cap (leaf # leaves) remaining objs =
     (if remaining \<le> 0 then (remaining, objs)
      else (let slots = min (cap (pn_id (objs ! leaf))) remaining
            in pl_seat cap leaves (remaining - slots) (objs[leaf := (objs ! leaf)\<lparr>pn_viewerSlots := slots\<rparr>])))"

definition pl_start :: "string \<Rightarrow> string list \<Rightarrow> planner" where
  "pl_start originId availableNodeIds =
     \<lparr>pl_objs = [\<lparr>pn_id = originId, pn_role = Origin, pn_parentId = None, pn_children = [], pn_tier = 0, pn_viewerSlots = 0\<rparr>],
      pl_nodes = jm_set originId 0 [], pl_links = [], pl_pool = filter (\<lambda>i. i \<noteq> originId) availableNodeIds\<rparr>"

definition pl_leaves :: "planner \<Rightarrow> nat list" where
  "pl_leaves s = filter (\<lambda>r. length (pn_children (pl_objs s ! r)) = 0) (jm_values (pl_nodes s))"

definition capFor :: "string \<Rightarrow> int \<Rightarrow> (string \<Rightarrow> int) option \<Rightarrow> string \<Rightarrow> int" where
  "capFor originId viewersPerNode capacityOf i =
     (if i = originId then viewersPerNode else (case capacityOf of Some f \<Rightarrow> f i | None \<Rightarrow> viewersPerNode))"

definition planCascadeTree ::
  "string \<Rightarrow> int \<Rightarrow> int \<Rightarrow> int \<Rightarrow> string list \<Rightarrow> (string \<Rightarrow> int) option \<Rightarrow> plan_error + cascade_plan" where
  "planCascadeTree originId viewerCount fanout viewersPerNode availableNodeIds capacityOf =
     (if fanout < 1 then Inl (FanoutTooSmall fanout)
      else if viewersPerNode < 1 then Inl (ViewersPerNodeTooSmall viewersPerNode)
      else (let (tier, s) = pl_loop (nat fanout) viewersPerNode viewerCount [0] 0 (pl_start originId availableNodeIds);
                leaves = pl_leaves s;
                (remaining, objs) = pl_seat (capFor originId viewersPerNode capacityOf) leaves viewerCount (pl_objs s)
            in Inr \<lparr>cp_origin = originId, cp_nodes = map (\<lambda>(i, r). (i, objs ! r)) (pl_nodes s), cp_links = pl_links s,
                    cp_edges = map (\<lambda>r. pn_id (objs ! r)) (filter (\<lambda>r. pn_viewerSlots (objs ! r) > 0) leaves),
                    cp_tiers = tier + 1, cp_servedViewers = viewerCount - remaining, cp_unmetViewers = remaining\<rparr>))"


section \<open>The tree invariant\<close>

text \<open>The ids of the objects whose parent is \<open>i\<close>, in creation order.\<close>

definition kids :: "string \<Rightarrow> plan_node list \<Rightarrow> string list" where
  "kids i objs = map fst (filter (\<lambda>(j, p). p = Some i) (map (\<lambda>x. (pn_id x, pn_parentId x)) objs))"

definition pl_inv :: "nat \<Rightarrow> string \<Rightarrow> planner \<Rightarrow> bool" where
  "pl_inv f org s \<longleftrightarrow>
     (let objs = pl_objs s in
      objs \<noteq> [] \<and> pn_id (objs ! 0) = org \<and> pn_parentId (objs ! 0) = None \<and> pn_tier (objs ! 0) = 0 \<and> pn_role (objs ! 0) = Origin \<and>
      distinct (map pn_id objs @ pl_pool s) \<and> pl_nodes s = zip (map pn_id objs) [0..<length objs] \<and>
      pl_links s = map (\<lambda>x. (the (pn_parentId x), pn_id x)) (tl objs) \<and>
      (\<forall>k < length objs. k \<noteq> 0 \<longrightarrow> pn_role (objs ! k) \<noteq> Origin \<and>
         (\<exists>j < k. pn_parentId (objs ! k) = Some (pn_id (objs ! j)) \<and> pn_tier (objs ! k) = Suc (pn_tier (objs ! j)))) \<and>
      (\<forall>k < length objs. pn_children (objs ! k) = kids (pn_id (objs ! k)) objs \<and> length (pn_children (objs ! k)) \<le> f) \<and>
      (\<forall>x \<in> set objs. pn_viewerSlots x = 0))"

lemma map_upd_same: "h y = h (xs ! i) \<Longrightarrow> map h (xs[i := y]) = map h xs"
  by (metis list_update_id map_update)

lemma kids_upd: "pn_id y = pn_id (objs ! p) \<Longrightarrow> pn_parentId y = pn_parentId (objs ! p) \<Longrightarrow> kids i (objs[p := y]) = kids i objs"
  by (simp add: kids_def map_upd_same)

lemma kids_append: "kids i (objs @ [x]) = kids i objs @ (if pn_parentId x = Some i then [pn_id x] else [])"
  by (simp add: kids_def)

lemma pl_inv_parents: "pl_inv f org s \<Longrightarrow> x \<in> set (pl_objs s) \<Longrightarrow> pn_parentId x = Some i \<Longrightarrow> i \<in> set (map pn_id (pl_objs s))"
proof -
  assume inv: "pl_inv f org s" and x: "x \<in> set (pl_objs s)" "pn_parentId x = Some i"
  then obtain k where k: "k < length (pl_objs s)" "x = pl_objs s ! k" by (metis in_set_conv_nth)
  with inv x(2) have "k \<noteq> 0" by (auto simp: pl_inv_def Let_def)
  then have "\<exists>j < k. pn_parentId (pl_objs s ! k) = Some (pn_id (pl_objs s ! j))" using inv k(1) unfolding pl_inv_def Let_def by blast
  then obtain j where "j < k" "i = pn_id (pl_objs s ! j)" using k(2) x(2) by auto
  then show ?thesis using k(1) by (simp add: image_iff) (metis nth_mem order.strict_trans)
qed

lemma kids_stranger: "pl_inv f org s \<Longrightarrow> i \<notin> set (map pn_id (pl_objs s)) \<Longrightarrow> kids i (pl_objs s) = []"
  using pl_inv_parents [of f org s _ i] by (auto simp: kids_def filter_empty_conv)

lemma pl_start_inv: "distinct avail \<Longrightarrow> pl_inv f org (pl_start org avail)"
  by (simp add: pl_inv_def pl_start_def kids_def)

lemma pl_attach_inv:
  assumes inv: "pl_inv f org s" and p: "parent < length (pl_objs s)" and pool: "pl_pool s = c # pool"
    and room: "length (pn_children (pl_objs s ! parent)) < f" and t: "pn_tier (pl_objs s ! parent) = tier"
  shows "pl_inv f org (pl_attach parent c tier pool s)"
proof -
  let ?objs = "pl_objs s" and ?n = "length (pl_objs s)"
  let ?p = "(?objs ! parent)\<lparr>pn_children := pn_children (?objs ! parent) @ [c]\<rparr>"
  let ?c = "\<lparr>pn_id = c, pn_role = Edge, pn_parentId = Some (pn_id (?objs ! parent)), pn_children = [], pn_tier = tier + 1, pn_viewerSlots = 0\<rparr>"
  let ?new = "?objs[parent := ?p] @ [?c]"
  have objs: "pl_objs (pl_attach parent c tier pool s) = ?new" by (simp add: pl_attach_def Let_def)
  have ids: "map pn_id ?new = map pn_id ?objs @ [c]" by (simp add: map_upd_same)
  have dist: "distinct (map pn_id ?objs @ c # pool)" and ne: "?objs \<noteq> []" using inv pool by (simp_all add: pl_inv_def Let_def)
  then have cnew: "c \<notin> set (map pn_id ?objs)" by auto
  have old: "pn_id (?new ! k) = pn_id (?objs ! k) \<and> pn_parentId (?new ! k) = pn_parentId (?objs ! k) \<and>
      pn_tier (?new ! k) = pn_tier (?objs ! k) \<and> pn_role (?new ! k) = pn_role (?objs ! k) \<and>
      pn_children (?new ! k) = pn_children (?objs ! k) @ (if k = parent then [c] else [])" if "k < ?n" for k
    using that p by (auto simp: nth_append nth_list_update)
  have last: "?new ! ?n = ?c" by (simp add: nth_append)
  have "tl ?new = tl (?objs[parent := ?p]) @ [?c]" using ne by (simp add: tl_append split: list.splits)
  moreover have "map (\<lambda>x. (the (pn_parentId x), pn_id x)) (tl (?objs[parent := ?p])) = map (\<lambda>x. (the (pn_parentId x), pn_id x)) (tl ?objs)"
    unfolding map_tl by (subst map_upd_same) simp_all
  ultimately have links: "map (\<lambda>x. (the (pn_parentId x), pn_id x)) (tl ?new) = pl_links s @ [(pn_id (?objs ! parent), c)]"
    using inv by (simp add: pl_inv_def Let_def)
  have nodes: "pl_nodes (pl_attach parent c tier pool s) = zip (map pn_id ?new) [0..<length ?new]"
    using inv cnew ids by (simp add: pl_attach_def Let_def pl_inv_def jm_set_absent)
  have par: "k \<noteq> 0 \<Longrightarrow> pn_role (?new ! k) \<noteq> Origin \<and>
      (\<exists>j < k. pn_parentId (?new ! k) = Some (pn_id (?new ! j)) \<and> pn_tier (?new ! k) = Suc (pn_tier (?new ! j)))" if k: "k < length ?new" for k
  proof (cases "k < ?n")
    case True
    assume "k \<noteq> 0"
    then have "pn_role (?objs ! k) \<noteq> Origin"
        "\<exists>j < k. pn_parentId (?objs ! k) = Some (pn_id (?objs ! j)) \<and> pn_tier (?objs ! k) = Suc (pn_tier (?objs ! j))"
      using inv True unfolding pl_inv_def Let_def by blast+
    then obtain j where j: "j < k" "pn_parentId (?objs ! k) = Some (pn_id (?objs ! j))" "pn_tier (?objs ! k) = Suc (pn_tier (?objs ! j))"
        "pn_role (?objs ! k) \<noteq> Origin" by blast
    have "j < ?n" using j(1) True by simp
    then show ?thesis using old [OF True] old [of j] j by (intro conjI exI [of _ j]) simp_all
  next
    case False
    then have "k = ?n" using k by simp
    then show ?thesis using last old [OF p] p t by auto
  qed
  have kid: "pn_children (?new ! k) = kids (pn_id (?new ! k)) ?new \<and> length (pn_children (?new ! k)) \<le> f" if k: "k < length ?new" for k
  proof (cases "k < ?n")
    case True
    have eq: "pn_children (?objs ! k) = kids (pn_id (?objs ! k)) ?objs" "length (pn_children (?objs ! k)) \<le> f"
      using inv True unfolding pl_inv_def Let_def by blast+
    have "pn_id (?objs ! parent) = pn_id (?objs ! k) \<longleftrightarrow> k = parent"
      using dist True p by (metis distinct_append distinct_conv_nth length_map nth_map)
    then show ?thesis using eq old [OF True] room True by (auto simp: kids_append kids_upd)
  next
    case False
    then have "k = ?n" using k by simp
    moreover have "c \<noteq> pn_id (?objs ! parent)" using cnew p by (metis length_map nth_map nth_mem)
    ultimately show ?thesis using last kids_stranger [OF inv cnew] by (auto simp: kids_append kids_upd)
  qed
  have slots: "\<forall>x \<in> set ?new. pn_viewerSlots x = 0"
    using inv p set_update_subset_insert [of ?objs parent ?p] unfolding pl_inv_def Let_def by (auto dest: nth_mem)
  have zero: "pn_id (?new ! 0) = org \<and> pn_parentId (?new ! 0) = None \<and> pn_tier (?new ! 0) = 0 \<and> pn_role (?new ! 0) = Origin"
    using old [of 0] ne inv unfolding pl_inv_def Let_def by simp
  have dist': "distinct (map pn_id ?new @ pl_pool (pl_attach parent c tier pool s))"
    unfolding ids using dist by (simp add: pl_attach_def Let_def)
  have links': "pl_links (pl_attach parent c tier pool s) = map (\<lambda>x. (the (pn_parentId x), pn_id x)) (tl ?new)"
    unfolding links by (simp add: pl_attach_def Let_def)
  show ?thesis
    unfolding pl_inv_def Let_def objs
    by (intro conjI allI impI nodes dist' links' slots zero [THEN conjunct1] zero [THEN conjunct2, THEN conjunct1]
        zero [THEN conjunct2, THEN conjunct2, THEN conjunct1] zero [THEN conjunct2, THEN conjunct2, THEN conjunct2])
      (use par kid in blast)+
qed


section \<open>The loops keep it\<close>

lemma pl_attach_objs:
  assumes "parent < length (pl_objs s)"
  shows "length (pl_objs (pl_attach parent c t pool s)) = Suc (length (pl_objs s))"
    "q < length (pl_objs s) \<Longrightarrow> q \<noteq> parent \<Longrightarrow> pl_objs (pl_attach parent c t pool s) ! q = pl_objs s ! q"
    "pl_objs (pl_attach parent c t pool s) ! parent = (pl_objs s ! parent)\<lparr>pn_children := pn_children (pl_objs s ! parent) @ [c]\<rparr>"
    "pl_objs (pl_attach parent c t pool s) ! length (pl_objs s) =
       \<lparr>pn_id = c, pn_role = Edge, pn_parentId = Some (pn_id (pl_objs s ! parent)), pn_children = [], pn_tier = t + 1, pn_viewerSlots = 0\<rparr>"
    "pl_pool (pl_attach parent c t pool s) = pool"
  using assms by (simp_all add: pl_attach_def Let_def nth_append)

text \<open>What attaching children of objects in \<open>P\<close> leaves behind: fresh leaves one tier down.\<close>

definition pl_grown :: "nat set \<Rightarrow> nat \<Rightarrow> planner \<Rightarrow> nat list \<Rightarrow> planner \<Rightarrow> bool" where
  "pl_grown P t s next s' \<longleftrightarrow>
     length (pl_objs s) \<le> length (pl_objs s') \<and> next = [length (pl_objs s)..<length (pl_objs s')] \<and>
     (\<forall>q \<in> set next. pn_children (pl_objs s' ! q) = [] \<and> pn_tier (pl_objs s' ! q) = t + 1 \<and> pn_role (pl_objs s' ! q) = Edge) \<and>
     (\<forall>q < length (pl_objs s). q \<notin> P \<longrightarrow> pl_objs s' ! q = pl_objs s ! q) \<and>
     (\<forall>q < length (pl_objs s). pn_role (pl_objs s' ! q) = pn_role (pl_objs s ! q) \<and> pn_tier (pl_objs s' ! q) = pn_tier (pl_objs s ! q))"

lemma pl_grown_refl: "pl_grown P t s [] s"
  by (simp add: pl_grown_def)

lemma pl_grown_trans:
  assumes "pl_grown P t s n s1" "pl_grown Q t s1 n' s2" "\<forall>q \<in> Q. q < length (pl_objs s)"
  shows "pl_grown (P \<union> Q) t s (n @ n') s2"
proof -
  let ?a = "length (pl_objs s)" and ?b = "length (pl_objs s1)" and ?c = "length (pl_objs s2)"
  have le: "?a \<le> ?b" "?b \<le> ?c" and n: "n = [?a..<?b]" "n' = [?b..<?c]" using assms(1,2) by (simp_all add: pl_grown_def)
  then have eq: "n @ n' = [?a..<?c]" by (metis upt_add_eq_append le_add_diff_inverse)
  have new: "pn_children (pl_objs s2 ! q) = [] \<and> pn_tier (pl_objs s2 ! q) = t + 1 \<and> pn_role (pl_objs s2 ! q) = Edge" if "q \<in> set (n @ n')" for q
  proof (cases "q < ?b")
    case True
    then have "q \<notin> Q" "q \<in> set n" using that assms(3) n le by auto
    then show ?thesis using assms(1,2) True unfolding pl_grown_def by metis
  next
    case False
    then have "q \<in> set n'" using that n le by auto
    then show ?thesis using assms(2) unfolding pl_grown_def by blast
  qed
  have "pl_objs s2 ! q = pl_objs s ! q" if "q < ?a" "q \<notin> P \<union> Q" for q
  proof -
    have "pl_objs s1 ! q = pl_objs s ! q" using assms(1) that unfolding pl_grown_def by blast
    moreover have "pl_objs s2 ! q = pl_objs s1 ! q" using assms(2) that le unfolding pl_grown_def by (metis UnI2 order.strict_trans2)
    ultimately show ?thesis by simp
  qed
  moreover have "pn_role (pl_objs s2 ! q) = pn_role (pl_objs s ! q) \<and> pn_tier (pl_objs s2 ! q) = pn_tier (pl_objs s ! q)" if "q < ?a" for q
  proof -
    have "pn_role (pl_objs s1 ! q) = pn_role (pl_objs s ! q) \<and> pn_tier (pl_objs s1 ! q) = pn_tier (pl_objs s ! q)"
      using assms(1) that unfolding pl_grown_def by blast
    moreover have "pn_role (pl_objs s2 ! q) = pn_role (pl_objs s1 ! q) \<and> pn_tier (pl_objs s2 ! q) = pn_tier (pl_objs s1 ! q)"
      using assms(2) that le unfolding pl_grown_def by (metis order.strict_trans2)
    ultimately show ?thesis by simp
  qed
  ultimately show ?thesis using le eq new unfolding pl_grown_def by auto
qed

lemma pl_attach_grown:
  assumes "parent < length (pl_objs s)"
  shows "pl_grown {parent} t s [length (pl_objs s)] (pl_attach parent c t pool s)"
proof -
  note A = pl_attach_objs [OF assms, where c = c and t = t and pool = pool]
  have "pn_role (pl_objs (pl_attach parent c t pool s) ! q) = pn_role (pl_objs s ! q) \<and>
      pn_tier (pl_objs (pl_attach parent c t pool s) ! q) = pn_tier (pl_objs s ! q)" if "q < length (pl_objs s)" for q
    using A(2) [OF that] A(3) by (cases "q = parent") simp_all
  then show ?thesis using A by (simp add: pl_grown_def)
qed

lemma pl_children_inv:
  assumes "pl_inv f org s" "parent < length (pl_objs s)" "length (pn_children (pl_objs s ! parent)) + k \<le> f"
    "pn_tier (pl_objs s ! parent) = t" "pl_children k parent t s = (next, s')"
  shows "pl_inv f org s' \<and> pl_grown {parent} t s next s' \<and> (pl_pool s' = [] \<or> length next = k)"
  using assms
proof (induction k arbitrary: s "next" s')
  case 0
  then show ?case by (simp add: pl_grown_refl)
next
  case (Suc k)
  show ?case
  proof (cases "pl_pool s")
    case Nil
    then show ?thesis using Suc.prems by (simp add: pl_grown_refl)
  next
    case (Cons c pool)
    let ?s = "pl_attach parent c t pool s"
    note A = pl_attach_objs [OF Suc.prems(2), where c = c and t = t and pool = pool]
    obtain n' where r: "pl_children k parent t ?s = (n', s')" and n: "next = length (pl_objs s) # n'"
      using Suc.prems(5) Cons by (auto split: prod.splits)
    have "pl_inv f org ?s" using Suc.prems Cons by (intro pl_attach_inv) auto
    then have IH: "pl_inv f org s' \<and> pl_grown {parent} t ?s n' s' \<and> (pl_pool s' = [] \<or> length n' = k)"
      using Suc.IH [OF _ _ _ _ r] Suc.prems(2-4) A by simp
    have "pl_grown ({parent} \<union> {parent}) t s ([length (pl_objs s)] @ n') s'"
      by (rule pl_grown_trans [OF pl_attach_grown]) (use IH Suc.prems(2) in auto)
    then show ?thesis using IH n by simp
  qed
qed

lemma pl_frontier_inv:
  assumes "pl_inv f org s" "distinct fr" "\<forall>p \<in> set fr. p < length (pl_objs s) \<and> pn_children (pl_objs s ! p) = [] \<and> pn_tier (pl_objs s ! p) = t"
    "pl_frontier f fr t s = (next, s')"
  shows "pl_inv f org s' \<and> pl_grown (set fr) t s next s' \<and> (pl_pool s \<noteq> [] \<and> fr \<noteq> [] \<and> 0 < f \<longrightarrow> next \<noteq> [])"
  using assms
proof (induction fr arbitrary: s "next" s')
  case Nil
  then show ?case by (simp add: pl_grown_refl)
next
  case (Cons p ps)
  obtain n1 s1 where c: "pl_children f p t s = (n1, s1)" by fastforce
  have c1: "pl_inv f org s1" "pl_grown {p} t s n1 s1" "pl_pool s1 = [] \<or> length n1 = f"
    using pl_children_inv [OF Cons.prems(1) _ _ _ c] Cons.prems(3) by auto
  have prog: "pl_pool s \<noteq> [] \<longrightarrow> pl_pool s1 = [] \<longrightarrow> n1 \<noteq> []" using pl_children_pool [OF c] by auto
  show ?case
  proof (cases "pl_pool s1 = []")
    case True
    then have "next = n1" "s' = s1" using Cons.prems(4) c by auto
    moreover have "pl_grown (set (p # ps)) t s n1 s1" using c1(2) by (auto simp: pl_grown_def)
    ultimately show ?thesis using c1(1) prog True by auto
  next
    case False
    then obtain n2 where r: "pl_frontier f ps t s1 = (n2, s')" and n: "next = n1 @ n2"
      using Cons.prems(4) c by (auto split: prod.splits)
    have "\<forall>q \<in> set ps. q < length (pl_objs s1) \<and> pn_children (pl_objs s1 ! q) = [] \<and> pn_tier (pl_objs s1 ! q) = t"
    proof
      fix q assume q: "q \<in> set ps"
      then have "q \<noteq> p" "q < length (pl_objs s)" using Cons.prems(2,3) by auto
      then show "q < length (pl_objs s1) \<and> pn_children (pl_objs s1 ! q) = [] \<and> pn_tier (pl_objs s1 ! q) = t"
        using c1(2) Cons.prems(3) q by (auto simp: pl_grown_def)
    qed
    then have IH: "pl_inv f org s' \<and> pl_grown (set ps) t s1 n2 s'"
      using Cons.IH [OF c1(1) _ _ r] Cons.prems(2) by simp
    have "pl_grown ({p} \<union> set ps) t s (n1 @ n2) s'"
      by (rule pl_grown_trans [OF c1(2)]) (use IH Cons.prems(3) in auto)
    then show ?thesis using IH n c1(3) False by auto
  qed
qed

lemma pl_relays_objs:
  "\<forall>p \<in> set fr. p < length (pl_objs s) \<Longrightarrow> k < length (pl_objs s) \<Longrightarrow>
   pl_objs (pl_relays fr s) ! k = (if k \<in> set fr then mark_relay (pl_objs s ! k) else pl_objs s ! k)"
proof (induction fr arbitrary: s)
  case (Cons p fr)
  have idem: "mark_relay (mark_relay x) = mark_relay x" for x by (simp add: mark_relay_def)
  have "pl_relays (p # fr) s = pl_relays fr (s\<lparr>pl_objs := (pl_objs s)[p := mark_relay (pl_objs s ! p)]\<rparr>)"
    by (simp add: pl_relays_def)
  then show ?case using Cons.IH [of "s\<lparr>pl_objs := (pl_objs s)[p := mark_relay (pl_objs s ! p)]\<rparr>"] Cons.prems
    by (auto simp: nth_list_update idem)
qed (simp add: pl_relays_def)


text \<open>Roles: away from the frontier in hand, a node with children relays and one without is an edge.\<close>

definition pl_roles :: "nat set \<Rightarrow> planner \<Rightarrow> bool" where
  "pl_roles P s \<longleftrightarrow> (\<forall>k < length (pl_objs s). k \<noteq> 0 \<longrightarrow> k \<notin> P \<longrightarrow>
     pn_role (pl_objs s ! k) = (if pn_children (pl_objs s ! k) = [] then Edge else Relay))"

lemma mark_relay_simps [simp]:
  "pn_id (mark_relay x) = pn_id x" "pn_parentId (mark_relay x) = pn_parentId x" "pn_children (mark_relay x) = pn_children x"
  "pn_tier (mark_relay x) = pn_tier x" "pn_viewerSlots (mark_relay x) = pn_viewerSlots x"
  "pn_role (mark_relay x) = Origin \<longleftrightarrow> pn_role x = Origin"
  by (simp_all add: mark_relay_def)

lemma pl_inv_relabel:
  assumes "pl_inv f org s" "length objs = length (pl_objs s)"
    and "\<And>k. k < length objs \<Longrightarrow> pn_id (objs ! k) = pn_id (pl_objs s ! k) \<and> pn_parentId (objs ! k) = pn_parentId (pl_objs s ! k) \<and>
      pn_children (objs ! k) = pn_children (pl_objs s ! k) \<and> pn_tier (objs ! k) = pn_tier (pl_objs s ! k) \<and>
      pn_viewerSlots (objs ! k) = pn_viewerSlots (pl_objs s ! k) \<and> (pn_role (objs ! k) = Origin \<longleftrightarrow> pn_role (pl_objs s ! k) = Origin)"
  shows "pl_inv f org (s\<lparr>pl_objs := objs\<rparr>)"
proof -
  have same: "map h objs = map h (pl_objs s)" if "\<And>k. k < length objs \<Longrightarrow> h (objs ! k) = h (pl_objs s ! k)" for h :: "plan_node \<Rightarrow> 'a"
    using that assms(2) by (intro nth_equalityI) auto
  have ids: "map pn_id objs = map pn_id (pl_objs s)" and kid: "kids i objs = kids i (pl_objs s)"
    and lnk: "map (\<lambda>x. (the (pn_parentId x), pn_id x)) (tl objs) = map (\<lambda>x. (the (pn_parentId x), pn_id x)) (tl (pl_objs s))" for i
    using assms(3) by (simp_all add: same kids_def map_tl)
  have slots: "\<forall>x \<in> set objs. pn_viewerSlots x = 0"
    using assms(1,2,3) unfolding pl_inv_def Let_def by (metis in_set_conv_nth)
  have ne: "objs \<noteq> []" "pl_objs s \<noteq> []" using assms(1,2) by (auto simp: pl_inv_def Let_def)
  have par: "pn_role (objs ! k) \<noteq> Origin \<and>
      (\<exists>j < k. pn_parentId (objs ! k) = Some (pn_id (objs ! j)) \<and> pn_tier (objs ! k) = Suc (pn_tier (objs ! j)))"
    if "k < length objs" "k \<noteq> 0" for k
  proof -
    have "pn_role (pl_objs s ! k) \<noteq> Origin"
        "\<exists>j < k. pn_parentId (pl_objs s ! k) = Some (pn_id (pl_objs s ! j)) \<and> pn_tier (pl_objs s ! k) = Suc (pn_tier (pl_objs s ! j))"
      using assms(1,2) that unfolding pl_inv_def Let_def by simp_all
    then obtain j where j: "j < k" "pn_parentId (pl_objs s ! k) = Some (pn_id (pl_objs s ! j))"
        "pn_tier (pl_objs s ! k) = Suc (pn_tier (pl_objs s ! j))" "pn_role (pl_objs s ! k) \<noteq> Origin" by blast
    show ?thesis using assms(3) [of j] assms(3) [OF that(1)] j that(1) by (intro conjI exI [of _ j]) simp_all
  qed
  have chi: "pn_children (objs ! k) = kids (pn_id (objs ! k)) objs \<and> length (pn_children (objs ! k)) \<le> f" if "k < length objs" for k
  proof -
    have "pn_children (pl_objs s ! k) = kids (pn_id (pl_objs s ! k)) (pl_objs s) \<and> length (pn_children (pl_objs s ! k)) \<le> f"
      using assms(1) that unfolding assms(2) pl_inv_def Let_def by blast
    then show ?thesis using assms(3) [OF that] kid by metis
  qed
  have zero: "pn_id (objs ! 0) = org" "pn_parentId (objs ! 0) = None" "pn_tier (objs ! 0) = 0" "pn_role (objs ! 0) = Origin"
    using assms(1) assms(3) [of 0] ne unfolding pl_inv_def Let_def by simp_all
  have rest: "distinct (map pn_id objs @ pl_pool s)" "pl_nodes s = zip (map pn_id objs) [0..<length objs]"
      "pl_links s = map (\<lambda>x. (the (pn_parentId x), pn_id x)) (tl objs)"
    unfolding ids lnk using assms(1,2) unfolding pl_inv_def Let_def by simp_all
  have sel: "pl_objs (s\<lparr>pl_objs := objs\<rparr>) = objs" "pl_nodes (s\<lparr>pl_objs := objs\<rparr>) = pl_nodes s"
      "pl_links (s\<lparr>pl_objs := objs\<rparr>) = pl_links s" "pl_pool (s\<lparr>pl_objs := objs\<rparr>) = pl_pool s" by simp_all
  show ?thesis
    unfolding pl_inv_def Let_def sel
    using ne(1) zero rest par chi slots by blast
qed

lemma pl_relays_inv:
  assumes "pl_inv f org s" "\<forall>p \<in> set fr. p < length (pl_objs s)"
  shows "pl_inv f org (pl_relays fr s)"
proof -
  have "pl_relays fr s = s\<lparr>pl_objs := pl_objs (pl_relays fr s)\<rparr>" by simp
  also have "pl_inv f org \<dots>"
    by (rule pl_inv_relabel [OF assms(1)]) (use assms(2) in \<open>auto simp: pl_relays_objs\<close>)
  finally show ?thesis .
qed

definition pl_ready :: "nat list \<Rightarrow> nat \<Rightarrow> planner \<Rightarrow> bool" where
  "pl_ready fr t s \<longleftrightarrow> distinct fr \<and> fr \<noteq> [] \<and> pl_roles {} s \<and> (\<forall>x \<in> set (pl_objs s). pn_tier x \<le> t) \<and>
     (\<forall>p \<in> set fr. p < length (pl_objs s) \<and> pn_children (pl_objs s ! p) = [] \<and> pn_tier (pl_objs s ! p) = t)"

lemma pl_round:
  assumes "pl_inv f org s" "pl_ready fr t s" "pl_frontier f fr t s = (next, s1)" "0 < f" "pl_pool s \<noteq> []"
  shows "next \<noteq> [] \<and> pl_inv f org (pl_relays fr s1) \<and> pl_ready next (t + 1) (pl_relays fr s1)"
proof -
  have F: "pl_inv f org s1" "pl_grown (set fr) t s next s1" "next \<noteq> []"
    using pl_frontier_inv [OF assms(1) _ _ assms(3)] assms(2,4,5) by (auto simp: pl_ready_def)
  let ?n = "length (pl_objs s)" and ?m = "length (pl_objs s1)"
  have fr: "p < ?n" if "p \<in> set fr" for p using assms(2) that by (auto simp: pl_ready_def)
  have le: "?n \<le> ?m" and n: "next = [?n..<?m]" using F(2) by (simp_all add: pl_grown_def)
  have lt: "\<forall>p \<in> set fr. p < ?m" using fr le by fastforce
  have new: "pn_children (pl_objs s1 ! q) = [] \<and> pn_tier (pl_objs s1 ! q) = t + 1 \<and> pn_role (pl_objs s1 ! q) = Edge" if "q \<in> set next" for q
    using F(2) that unfolding pl_grown_def by blast
  have keep: "q \<notin> set fr \<Longrightarrow> pl_objs s1 ! q = pl_objs s ! q" "pn_role (pl_objs s1 ! q) = pn_role (pl_objs s ! q)"
      "pn_tier (pl_objs s1 ! q) = pn_tier (pl_objs s ! q)" if "q < ?n" for q
    using F(2) that unfolding pl_grown_def by blast+
  have obj: "pl_objs (pl_relays fr s1) ! k = (if k \<in> set fr then mark_relay (pl_objs s1 ! k) else pl_objs s1 ! k)" if "k < ?m" for k
    using pl_relays_objs [OF lt that] .
  have "pn_role (pl_objs (pl_relays fr s1) ! k) = (if pn_children (pl_objs (pl_relays fr s1) ! k) = [] then Edge else Relay)"
    if "k < ?m" "k \<noteq> 0" for k
  proof (cases "k < ?n")
    case True
    then have old: "pn_role (pl_objs s ! k) = (if pn_children (pl_objs s ! k) = [] then Edge else Relay)"
      using assms(2) that by (simp add: pl_ready_def pl_roles_def)
    show ?thesis
    proof (cases "k \<in> set fr")
      case True
      then have "pn_role (pl_objs s1 ! k) = Edge" using old keep [OF \<open>k < ?n\<close>] assms(2) by (simp add: pl_ready_def)
      then show ?thesis using True obj [OF that(1)] by (simp add: mark_relay_def)
    next
      case False
      then show ?thesis using old keep [OF \<open>k < ?n\<close>] obj [OF that(1)] by simp
    qed
  next
    case False
    then have "k \<in> set next" "k \<notin> set fr" using that n fr by fastforce+
    then show ?thesis using new obj [OF that(1)] by simp
  qed
  then have roles: "pl_roles {} (pl_relays fr s1)" by (simp add: pl_roles_def)
  have "pn_tier (pl_objs (pl_relays fr s1) ! k) \<le> t + 1" if "k < ?m" for k
  proof (cases "k < ?n")
    case True
    then have "pn_tier (pl_objs s ! k) \<le> t" using assms(2) by (simp add: pl_ready_def)
    then show ?thesis using keep [OF True] obj [OF that] by simp
  next
    case False
    then have "k \<in> set next" using that n by simp
    then show ?thesis using new obj [OF that] by simp
  qed
  then have tiers: "\<forall>x \<in> set (pl_objs (pl_relays fr s1)). pn_tier x \<le> t + 1" by (metis in_set_conv_nth pl_relays_frame(4))
  have "q < ?m \<and> pn_children (pl_objs (pl_relays fr s1) ! q) = [] \<and> pn_tier (pl_objs (pl_relays fr s1) ! q) = t + 1" if "q \<in> set next" for q
  proof -
    have "q < ?m" "q \<notin> set fr" using that n fr by fastforce+
    then show ?thesis using new [OF that] obj by simp
  qed
  then show ?thesis
    using F(3) pl_relays_inv [OF F(1) lt] roles tiers n by (simp add: pl_ready_def)
qed

text \<open>No id is lost: it is in the tree or still in the pool.\<close>

definition pl_ids :: "planner \<Rightarrow> string set" where
  "pl_ids s = pn_id ` set (pl_objs s) \<union> set (pl_pool s)"

lemma pl_attach_ids: "parent < length (pl_objs s) \<Longrightarrow> pl_pool s = c # pool \<Longrightarrow> pl_ids (pl_attach parent c t pool s) = pl_ids s"
proof -
  assume a: "parent < length (pl_objs s)" "pl_pool s = c # pool"
  have "map pn_id ((pl_objs s)[parent := (pl_objs s ! parent)\<lparr>pn_children := x\<rparr>]) = map pn_id (pl_objs s)" for x
    by (rule map_upd_same) simp
  then have "pn_id ` set ((pl_objs s)[parent := (pl_objs s ! parent)\<lparr>pn_children := x\<rparr>]) = pn_id ` set (pl_objs s)" for x
    by (metis set_map)
  then show ?thesis using a by (simp add: pl_ids_def pl_attach_def Let_def)
qed

lemma pl_children_ids: "parent < length (pl_objs s) \<Longrightarrow> pl_ids (snd (pl_children k parent t s)) = pl_ids s"
proof (induction k arbitrary: s)
  case (Suc k)
  then show ?case
    by (cases "pl_pool s") (simp_all add: split_def Let_def pl_attach_ids pl_attach_objs(1))
qed simp

lemma pl_children_length: "parent < length (pl_objs s) \<Longrightarrow> length (pl_objs s) \<le> length (pl_objs (snd (pl_children k parent t s)))"
proof (induction k arbitrary: s)
  case (Suc k)
  show ?case
  proof (cases "pl_pool s")
    case (Cons c pool)
    then show ?thesis using Suc.IH [of "pl_attach parent c t pool s"] Suc.prems by (simp add: split_def Let_def pl_attach_objs(1))
  qed simp
qed simp

lemma pl_frontier_ids: "\<forall>p \<in> set fr. p < length (pl_objs s) \<Longrightarrow> pl_ids (snd (pl_frontier f fr t s)) = pl_ids s"
proof (induction fr arbitrary: s)
  case (Cons p fr)
  let ?s = "snd (pl_children f p t s)"
  have "\<forall>q \<in> set fr. q < length (pl_objs ?s)" using Cons.prems pl_children_length [of p s f t] by fastforce
  then show ?case using Cons.IH [of ?s] Cons.prems pl_children_ids [of p s f t] by (simp add: split_def Let_def)
qed simp

lemma pl_relays_ids: "\<forall>p \<in> set fr. p < length (pl_objs s) \<Longrightarrow> pl_ids (pl_relays fr s) = pl_ids s"
proof -
  assume "\<forall>p \<in> set fr. p < length (pl_objs s)"
  then have "map pn_id (pl_objs (pl_relays fr s)) = map pn_id (pl_objs s)"
    by (intro nth_equalityI) (auto simp: pl_relays_objs)
  then have "set (map pn_id (pl_objs (pl_relays fr s))) = set (map pn_id (pl_objs s))" by simp
  then show ?thesis by (simp add: pl_ids_def)
qed

lemma pl_loop_inv:
  assumes "pl_inv f org s" "pl_ready fr t s" "0 < f"
  shows "case pl_loop f vpn vc fr t s of (t', s') \<Rightarrow>
    pl_inv f org s' \<and> (\<exists>fr'. pl_ready fr' t' s' \<and> (pl_pool s' = [] \<or> vc \<le> int (length fr') * vpn)) \<and> pl_ids s' = pl_ids s"
  using assms
proof (induction f vpn vc fr t s rule: pl_loop.induct)
  case (1 f vpn vc fr t s)
  show ?case
  proof (cases "int (length fr) * vpn < vc \<and> pl_pool s \<noteq> []")
    case False
    then have "pl_loop f vpn vc fr t s = (t, s)" by (subst pl_loop.simps) auto
    then show ?thesis using 1(2-4) False by auto
  next
    case True
    obtain n s1 where fr: "pl_frontier f fr t s = (n, s1)" by fastforce
    note R = pl_round [OF 1(2,3) fr 1(4)]
    have "n \<noteq> []" "pl_inv f org (pl_relays fr s1)" "pl_ready n (t + 1) (pl_relays fr s1)" using R True by simp_all
    moreover from this have "pl_loop f vpn vc fr t s = pl_loop f vpn vc n (t + 1) (pl_relays fr s1)"
      using True fr by (subst pl_loop.simps) simp
    moreover have "pl_ids (pl_relays fr s1) = pl_ids s"
    proof -
      have lt: "\<forall>p \<in> set fr. p < length (pl_objs s)" using 1(3) by (simp add: pl_ready_def)
      have "pl_ids s1 = pl_ids s" using pl_frontier_ids [OF lt, of f t] fr by simp
      moreover have "length (pl_objs s) \<le> length (pl_objs s1)"
        using pl_frontier_inv [OF 1(2) _ _ fr] 1(3) by (simp add: pl_ready_def pl_grown_def)
      ultimately show ?thesis using pl_relays_ids [of fr s1] lt by fastforce
    qed
    ultimately show ?thesis using 1(1) [OF True fr [symmetric] refl] 1(4) by simp
  qed
qed


section \<open>Seating\<close>

lemma sum_list_upd: "k < length xs \<Longrightarrow> sum_list (xs[k := (x :: int)]) = sum_list xs - xs ! k + x"
  by (induction xs arbitrary: k) (auto split: nat.splits)

definition seated :: "(string \<Rightarrow> int) \<Rightarrow> nat set \<Rightarrow> plan_node list \<Rightarrow> plan_node list \<Rightarrow> bool" where
  "seated cap L objs objs' \<longleftrightarrow> length objs' = length objs \<and>
     (\<forall>k < length objs. \<exists>v. objs' ! k = (objs ! k)\<lparr>pn_viewerSlots := v\<rparr> \<and>
        (if k \<in> L then v = pn_viewerSlots (objs ! k) \<or> 0 \<le> v \<and> v \<le> cap (pn_id (objs ! k)) else v = pn_viewerSlots (objs ! k)))"

lemma seated_refl: "seated cap L objs objs"
proof -
  have "\<exists>v. objs ! k = (objs ! k)\<lparr>pn_viewerSlots := v\<rparr> \<and>
      (if k \<in> L then v = pn_viewerSlots (objs ! k) \<or> 0 \<le> v \<and> v \<le> cap (pn_id (objs ! k)) else v = pn_viewerSlots (objs ! k))" for k
    by (rule exI [of _ "pn_viewerSlots (objs ! k)"]) simp
  then show ?thesis by (simp only: seated_def) blast
qed

lemma seated_step:
  assumes "seated cap L (objs[k := (objs ! k)\<lparr>pn_viewerSlots := v\<rparr>]) objs'" "0 \<le> v" "v \<le> cap (pn_id (objs ! k))" "k \<notin> L" "k < length objs"
  shows "seated cap (insert k L) objs objs'"
  unfolding seated_def
proof (intro conjI allI impI)
  show "length objs' = length objs" using assms(1) by (simp add: seated_def)
  fix q
  assume q: "q < length objs"
  with assms(1) obtain u where u: "objs' ! q = (objs[k := (objs ! k)\<lparr>pn_viewerSlots := v\<rparr>] ! q)\<lparr>pn_viewerSlots := u\<rparr>"
      "if q \<in> L then u = pn_viewerSlots (objs[k := (objs ! k)\<lparr>pn_viewerSlots := v\<rparr>] ! q) \<or>
           0 \<le> u \<and> u \<le> cap (pn_id (objs[k := (objs ! k)\<lparr>pn_viewerSlots := v\<rparr>] ! q))
       else u = pn_viewerSlots (objs[k := (objs ! k)\<lparr>pn_viewerSlots := v\<rparr>] ! q)"
    by (auto simp: seated_def)
  then show "\<exists>u. objs' ! q = (objs ! q)\<lparr>pn_viewerSlots := u\<rparr> \<and>
      (if q \<in> insert k L then u = pn_viewerSlots (objs ! q) \<or> 0 \<le> u \<and> u \<le> cap (pn_id (objs ! q)) else u = pn_viewerSlots (objs ! q))"
    using assms(2-5) q by (cases "q = k") (auto split: if_splits)
qed

lemma pl_seat_ok:
  assumes "distinct leaves" "\<forall>l \<in> set leaves. l < length objs \<and> pn_viewerSlots (objs ! l) = 0 \<and> 0 \<le> cap (pn_id (objs ! l))"
    and "pl_seat cap leaves remaining objs = (rem, objs')"
  shows "seated cap (set leaves) objs objs' \<and>
    rem = (if remaining \<le> 0 then remaining else max 0 (remaining - sum_list (map (\<lambda>l. cap (pn_id (objs ! l))) leaves))) \<and>
    sum_list (map pn_viewerSlots objs') + rem = sum_list (map pn_viewerSlots objs) + remaining"
  using assms
proof (induction leaves arbitrary: remaining objs)
  case Nil
  then show ?case by (simp add: seated_refl)
next
  case (Cons l ls)
  show ?case
  proof (cases "remaining \<le> 0")
    case True
    then show ?thesis using Cons.prems by (simp add: seated_refl)
  next
    case False
    define v where "v = min (cap (pn_id (objs ! l))) remaining"
    let ?objs = "objs[l := (objs ! l)\<lparr>pn_viewerSlots := v\<rparr>]"
    have l: "l < length objs" "pn_viewerSlots (objs ! l) = 0" "0 \<le> cap (pn_id (objs ! l))" "l \<notin> set ls" using Cons.prems by auto
    have same: "m \<in> set ls \<Longrightarrow> ?objs ! m = objs ! m" for m using l(4) by (cases "m = l") auto
    have caps: "map (\<lambda>m. cap (pn_id (?objs ! m))) ls = map (\<lambda>m. cap (pn_id (objs ! m))) ls" using same by simp
    have nonneg: "0 \<le> sum_list (map (\<lambda>m. cap (pn_id (objs ! m))) ls)" using Cons.prems(2) by (intro sum_list_nonneg) auto
    have IH: "seated cap (set ls) ?objs objs' \<and>
        rem = (if remaining - v \<le> 0 then remaining - v else max 0 (remaining - v - sum_list (map (\<lambda>m. cap (pn_id (objs ! m))) ls))) \<and>
        sum_list (map pn_viewerSlots objs') + rem = sum_list (map pn_viewerSlots ?objs) + (remaining - v)"
      unfolding caps [symmetric]
    proof (rule Cons.IH)
      show "distinct ls" using Cons.prems(1) by simp
      show "\<forall>m \<in> set ls. m < length ?objs \<and> pn_viewerSlots (?objs ! m) = 0 \<and> 0 \<le> cap (pn_id (?objs ! m))"
        using Cons.prems(2) same by simp
      show "pl_seat cap ls (remaining - v) ?objs = (rem, objs')" using Cons.prems(3) False by (simp add: v_def Let_def)
    qed
    have "sum_list (map pn_viewerSlots ?objs) = sum_list (map pn_viewerSlots objs) + v"
      using l by (simp add: map_update sum_list_upd)
    moreover have "seated cap (insert l (set ls)) objs objs'" 
      by (rule seated_step [of cap "set ls" objs l v objs']) (use IH l False in \<open>simp_all add: v_def\<close>)
    moreover have "rem = max 0 (remaining - (cap (pn_id (objs ! l)) + sum_list (map (\<lambda>m. cap (pn_id (objs ! m))) ls)))"
      using IH nonneg False l(3) by (auto simp: v_def min_def max_def split: if_splits)
    ultimately show ?thesis using IH False by simp
  qed
qed

section \<open>The plan\<close>

lemma map_nth_filter: "map ((!) xs) (filter (\<lambda>r. Q (xs ! r)) [0..<length xs]) = filter Q xs"
  by (metis comp_def filter_cong filter_map map_nth)

text \<open>What the run of \<^const>\<open>planCascadeTree\<close> amounts to, in terms of the final objects.\<close>

lemma plan_unfold:
  assumes "planCascadeTree org vc fanout vpn avail capOf = Inr plan" "distinct avail"
    and "\<forall>i \<in> insert org (set avail). 0 \<le> capFor org vpn capOf i"
  shows "\<exists>s fr. pl_loop (nat fanout) vpn vc [0] 0 (pl_start org avail) = (cp_tiers plan - 1, s) \<and> pl_inv (nat fanout) org s \<and> pl_ready fr (cp_tiers plan - 1) s \<and> 0 < cp_tiers plan \<and>
    (pl_pool s = [] \<or> vc \<le> int (length fr) * vpn) \<and> pl_ids s = insert org (set avail) \<and>
    (\<exists>objs. cp_nodes plan = map (\<lambda>x. (pn_id x, x)) objs \<and> seated (capFor org vpn capOf) (set (pl_leaves s)) (pl_objs s) objs \<and>
       cp_links plan = pl_links s \<and> cp_origin plan = org \<and> 1 \<le> fanout \<and> 1 \<le> vpn \<and>
       cp_servedViewers plan + cp_unmetViewers plan = vc \<and> sum_list (map pn_viewerSlots objs) = cp_servedViewers plan \<and>
       cp_unmetViewers plan = (if vc \<le> 0 then vc else max 0 (vc - sum_list (map (\<lambda>x. capFor org vpn capOf (pn_id x)) (filter (\<lambda>x. pn_children x = []) objs)))) \<and>
       cp_edges plan = map pn_id (filter (\<lambda>x. pn_children x = [] \<and> pn_viewerSlots x > 0) objs))"
proof -
  let ?cap = "capFor org vpn capOf"
  obtain t s where loop: "pl_loop (nat fanout) vpn vc [0] 0 (pl_start org avail) = (t, s)" by fastforce
  obtain rem objs where seat: "pl_seat ?cap (pl_leaves s) vc (pl_objs s) = (rem, objs)" by fastforce
  have f: "1 \<le> fanout" "1 \<le> vpn" using assms(1) by (auto simp: planCascadeTree_def split: if_splits)
  then have plan: "plan = \<lparr>cp_origin = org, cp_nodes = map (\<lambda>(i, r). (i, objs ! r)) (pl_nodes s), cp_links = pl_links s,
      cp_edges = map (\<lambda>r. pn_id (objs ! r)) (filter (\<lambda>r. pn_viewerSlots (objs ! r) > 0) (pl_leaves s)),
      cp_tiers = t + 1, cp_servedViewers = vc - rem, cp_unmetViewers = rem\<rparr>"
    using assms(1) loop seat by (simp add: planCascadeTree_def)
  have start: "pl_inv (nat fanout) org (pl_start org avail)" by (rule pl_start_inv [OF assms(2)])
  have "pl_ready [0] 0 (pl_start org avail)" by (simp add: pl_ready_def pl_start_def pl_roles_def)
  then obtain fr where L: "pl_inv (nat fanout) org s" "pl_ready fr t s" "pl_pool s = [] \<or> vc \<le> int (length fr) * vpn"
      "pl_ids s = pl_ids (pl_start org avail)"
    using pl_loop_inv [OF start, where fr = "[0]" and t = 0 and vpn = vpn and vc = vc] loop f by auto
  have ids: "pl_ids s = insert org (set avail)" using L(4) by (auto simp: pl_ids_def pl_start_def)
  let ?o = "pl_objs s"
  have nodes: "pl_nodes s = zip (map pn_id ?o) [0..<length ?o]" and zero: "\<forall>x \<in> set ?o. pn_viewerSlots x = 0"
    using L(1) by (simp_all add: pl_inv_def Let_def)
  have leaves: "pl_leaves s = filter (\<lambda>r. pn_children (?o ! r) = []) [0..<length ?o]"
    by (simp add: pl_leaves_def nodes)
  have d: "distinct (pl_leaves s)" unfolding leaves by simp
  have "\<forall>l \<in> set (pl_leaves s). l < length ?o \<and> pn_viewerSlots (?o ! l) = 0 \<and> 0 \<le> ?cap (pn_id (?o ! l))"
    using zero assms(3) ids by (auto simp: leaves pl_ids_def)
  then have S: "seated ?cap (set (pl_leaves s)) ?o objs"
      "rem = (if vc \<le> 0 then vc else max 0 (vc - sum_list (map (\<lambda>l. ?cap (pn_id (?o ! l))) (pl_leaves s))))"
      "sum_list (map pn_viewerSlots objs) + rem = sum_list (map pn_viewerSlots ?o) + vc"
    using pl_seat_ok [OF d _ seat] by blast+
  have len: "length objs = length ?o" using S(1) by (simp add: seated_def)
  have same: "pn_id (objs ! k) = pn_id (?o ! k) \<and> pn_children (objs ! k) = pn_children (?o ! k)" if k: "k < length ?o" for k
  proof -
    obtain v where "objs ! k = (?o ! k)\<lparr>pn_viewerSlots := v\<rparr>" using S(1) k unfolding seated_def by blast
    then show ?thesis by simp
  qed
  have "map pn_id ?o = map pn_id objs" using same len by (intro nth_equalityI) auto
  then have "map (\<lambda>(i, r). (i, objs ! r)) (pl_nodes s) = map (\<lambda>x. (pn_id x, x)) objs"
    unfolding nodes by (intro nth_equalityI) (simp_all add: len)
  moreover have lv: "pl_leaves s = filter (\<lambda>r. pn_children (objs ! r) = []) [0..<length objs]"
    unfolding leaves len by (rule filter_cong) (use same in auto)
  have "map (\<lambda>l. ?cap (pn_id (?o ! l))) (pl_leaves s) = map (\<lambda>x. ?cap (pn_id x)) (filter (\<lambda>x. pn_children x = []) objs)"
  proof -
    have "map (\<lambda>l. ?cap (pn_id (?o ! l))) (pl_leaves s) = map (\<lambda>x. ?cap (pn_id x)) (map ((!) objs) (pl_leaves s))"
      using same by (auto simp: leaves)
    also have "map ((!) objs) (pl_leaves s) = filter (\<lambda>x. pn_children x = []) objs"
      unfolding lv by (rule map_nth_filter [where Q = "\<lambda>x. pn_children x = []"])
    finally show ?thesis .
  qed
  moreover have "map (\<lambda>r. pn_id (objs ! r)) (filter (\<lambda>r. pn_viewerSlots (objs ! r) > 0) (pl_leaves s)) =
      map pn_id (filter (\<lambda>x. pn_children x = [] \<and> pn_viewerSlots x > 0) objs)"
    unfolding lv using map_nth_filter [where Q = "\<lambda>x. pn_children x = [] \<and> pn_viewerSlots x > 0" and xs = objs]
    by (metis (no_types, lifting) filter_cong filter_filter list.map_comp comp_def map_cong)
  moreover have "sum_list (map pn_viewerSlots ?o) = 0" using zero by (simp add: sum_list_eq_0_iff map_idI cong: map_cong)
  ultimately show ?thesis
    using L ids S f loop by (intro exI [of _ s] exI [of _ fr] conjI exI [of _ objs]) (simp_all add: plan)
qed


text \<open>The same facts, for the nodes of the plan.\<close>

lemma plan_shape:
  assumes "pl_inv f org s" "pl_roles {} s" "seated cap L (pl_objs s) objs" "L = set (pl_leaves s)"
  shows "objs \<noteq> []" "distinct (map pn_id objs)" "set (map pn_id objs) \<subseteq> pl_ids s"
    "pl_links s = map (\<lambda>x. (the (pn_parentId x), pn_id x)) (tl objs)"
    "pn_id (objs ! 0) = org \<and> pn_parentId (objs ! 0) = None \<and> pn_tier (objs ! 0) = 0 \<and> pn_role (objs ! 0) = Origin"
    "\<And>k. k < length objs \<Longrightarrow> k \<noteq> 0 \<Longrightarrow>
       (\<exists>j < k. pn_parentId (objs ! k) = Some (pn_id (objs ! j)) \<and> pn_tier (objs ! k) = Suc (pn_tier (objs ! j))) \<and>
       pn_role (objs ! k) = (if pn_children (objs ! k) = [] then Edge else Relay)"
    "\<And>k. k < length objs \<Longrightarrow> pn_children (objs ! k) = kids (pn_id (objs ! k)) objs \<and> length (pn_children (objs ! k)) \<le> f"
    "\<And>k. k < length objs \<Longrightarrow> 0 \<le> cap (pn_id (objs ! k)) \<Longrightarrow> 0 \<le> pn_viewerSlots (objs ! k) \<and> pn_viewerSlots (objs ! k) \<le> cap (pn_id (objs ! k)) \<and>
       (pn_viewerSlots (objs ! k) \<noteq> 0 \<longrightarrow> pn_children (objs ! k) = [])"
proof -
  let ?o = "pl_objs s"
  have len: "length objs = length ?o" using assms(3) by (simp add: seated_def)
  have upd: "\<exists>v. objs ! k = (?o ! k)\<lparr>pn_viewerSlots := v\<rparr> \<and>
      (if k \<in> L then v = pn_viewerSlots (?o ! k) \<or> 0 \<le> v \<and> v \<le> cap (pn_id (?o ! k)) else v = pn_viewerSlots (?o ! k))"
    if "k < length objs" for k using assms(3) that unfolding seated_def len by blast
  have same: "pn_id (objs ! k) = pn_id (?o ! k)" "pn_parentId (objs ! k) = pn_parentId (?o ! k)" "pn_tier (objs ! k) = pn_tier (?o ! k)"
      "pn_role (objs ! k) = pn_role (?o ! k)" "pn_children (objs ! k) = pn_children (?o ! k)" if "k < length objs" for k
    using upd [OF that] by auto
  have mp: "map h objs = map h ?o" if "\<And>k. k < length objs \<Longrightarrow> h (objs ! k) = h (?o ! k)" for h :: "plan_node \<Rightarrow> 'a"
    using that len by (intro nth_equalityI) auto
  have ids: "map pn_id objs = map pn_id ?o" and kid: "kids i objs = kids i ?o"
    and lnk: "map (\<lambda>x. (the (pn_parentId x), pn_id x)) (tl objs) = map (\<lambda>x. (the (pn_parentId x), pn_id x)) (tl ?o)" for i
    by (simp_all add: kids_def map_tl mp same)
  show "objs \<noteq> []" using assms(1) len by (auto simp: pl_inv_def Let_def)
  then have z: "0 < length objs" by simp
  show "distinct (map pn_id objs)" "pl_links s = map (\<lambda>x. (the (pn_parentId x), pn_id x)) (tl objs)"
    unfolding ids lnk using assms(1) by (simp_all add: pl_inv_def Let_def)
  show "set (map pn_id objs) \<subseteq> pl_ids s" unfolding ids by (auto simp: pl_ids_def)
  show "pn_id (objs ! 0) = org \<and> pn_parentId (objs ! 0) = None \<and> pn_tier (objs ! 0) = 0 \<and> pn_role (objs ! 0) = Origin"
    unfolding same [OF z] using assms(1) by (simp add: pl_inv_def Let_def)
  fix k
  assume k: "k < length objs"
  show "pn_children (objs ! k) = kids (pn_id (objs ! k)) objs \<and> length (pn_children (objs ! k)) \<le> f"
    unfolding same [OF k] kid using assms(1) k unfolding len pl_inv_def Let_def by blast
  show "(\<exists>j < k. pn_parentId (objs ! k) = Some (pn_id (objs ! j)) \<and> pn_tier (objs ! k) = Suc (pn_tier (objs ! j))) \<and>
       pn_role (objs ! k) = (if pn_children (objs ! k) = [] then Edge else Relay)" if "k \<noteq> 0"
  proof -
    have "\<exists>j < k. pn_parentId (?o ! k) = Some (pn_id (?o ! j)) \<and> pn_tier (?o ! k) = Suc (pn_tier (?o ! j))"
      using assms(1) k \<open>k \<noteq> 0\<close> unfolding len pl_inv_def Let_def by blast
    then obtain j where j: "j < k" "pn_parentId (?o ! k) = Some (pn_id (?o ! j))" "pn_tier (?o ! k) = Suc (pn_tier (?o ! j))" by blast
    have "j < length objs" using j(1) k by simp
    moreover have "pn_role (?o ! k) = (if pn_children (?o ! k) = [] then Edge else Relay)"
      using assms(2) k \<open>k \<noteq> 0\<close> len by (simp add: pl_roles_def)
    ultimately show ?thesis using j same [OF k] same [of j] by auto
  qed
  show "0 \<le> pn_viewerSlots (objs ! k) \<and> pn_viewerSlots (objs ! k) \<le> cap (pn_id (objs ! k)) \<and>
       (pn_viewerSlots (objs ! k) \<noteq> 0 \<longrightarrow> pn_children (objs ! k) = [])" if "0 \<le> cap (pn_id (objs ! k))"
  proof -
    have "pn_viewerSlots (?o ! k) = 0" using assms(1) k len by (simp add: pl_inv_def Let_def)
    moreover have "k \<in> L \<Longrightarrow> pn_children (?o ! k) = []" by (auto simp: assms(4) pl_leaves_def)
    ultimately show ?thesis using upd [OF k] that by (auto split: if_splits)
  qed
qed

lemma kids_mem: "distinct (map pn_id objs) \<Longrightarrow> x \<in> set objs \<Longrightarrow> pn_id x \<in> set (kids i objs) \<longleftrightarrow> pn_parentId x = Some i"
  by (auto simp: kids_def image_iff) (metis distinct_map inj_onD)

lemma kids_distinct: "distinct (map pn_id objs) \<Longrightarrow> distinct (kids i objs)"
  by (induction objs) (auto simp: kids_def)

text \<open>
  (C13) The plan is a tree: the nodes have distinct ids from the origin and the available nodes; the
  origin is the root, at tier 0; every other node has a parent in the plan one tier above it, which
  lists it as a child; no node has more than \<open>fanout\<close> children; the forwarding links are exactly the
  parent-child pairs, one per node but the origin; a node that is not the origin relays exactly when
  it has children; and \<^verbatim>\<open>tiers\<close> counts the tiers.
\<close>

theorem plan_is_tree:
  assumes "planCascadeTree org vc fanout vpn avail capOf = Inr plan" "distinct avail"
    and "\<forall>i \<in> insert org (set avail). 0 \<le> capFor org vpn capOf i"
  defines "ns \<equiv> jm_values (cp_nodes plan)"
  shows "cp_nodes plan = map (\<lambda>x. (pn_id x, x)) ns \<and> distinct (map pn_id ns) \<and> set (map pn_id ns) \<subseteq> insert org (set avail) \<and>
    (\<exists>r. ns = r # tl ns \<and> pn_id r = org \<and> pn_parentId r = None \<and> pn_tier r = 0 \<and> pn_role r = Origin) \<and>
    (\<forall>x \<in> set (tl ns). pn_role x = (if pn_children x = [] then Edge else Relay) \<and>
       (\<exists>p \<in> set ns. pn_parentId x = Some (pn_id p) \<and> pn_tier x = Suc (pn_tier p) \<and> pn_id x \<in> set (pn_children p))) \<and>
    (\<forall>x \<in> set ns. distinct (pn_children x) \<and> int (length (pn_children x)) \<le> fanout \<and> pn_tier x < cp_tiers plan \<and>
       (\<forall>y \<in> set ns. pn_id y \<in> set (pn_children x) \<longleftrightarrow> pn_parentId y = Some (pn_id x))) \<and>
    (\<exists>x \<in> set ns. Suc (pn_tier x) = cp_tiers plan) \<and>
    cp_links plan = map (\<lambda>x. (the (pn_parentId x), pn_id x)) (tl ns)"
proof -
  obtain s fr objs where u: "pl_inv (nat fanout) org s" "pl_ready fr (cp_tiers plan - 1) s" "0 < cp_tiers plan" "pl_ids s = insert org (set avail)"
      "cp_nodes plan = map (\<lambda>x. (pn_id x, x)) objs" "seated (capFor org vpn capOf) (set (pl_leaves s)) (pl_objs s) objs"
      "cp_links plan = pl_links s" "1 \<le> fanout"
    using plan_unfold [OF assms(1-3)] by blast
  have ns: "ns = objs" using u(5) by (simp add: ns_def comp_def)
  have roles: "pl_roles {} s" using u(2) by (simp add: pl_ready_def)
  note S = plan_shape [OF u(1) roles u(6) refl]
  have len: "length objs = length (pl_objs s)" using u(6) by (simp add: seated_def)
  have tier: "pn_tier (objs ! k) = pn_tier (pl_objs s ! k)" if "k < length objs" for k
  proof -
    have "\<exists>v. objs ! k = (pl_objs s ! k)\<lparr>pn_viewerSlots := v\<rparr>" using u(6) that unfolding seated_def by auto
    then show ?thesis by auto
  qed
  have root: "\<exists>r. objs = r # tl objs \<and> pn_id r = org \<and> pn_parentId r = None \<and> pn_tier r = 0 \<and> pn_role r = Origin"
    using S(1,5) by (cases objs) auto
  have child: "pn_role x = (if pn_children x = [] then Edge else Relay) \<and>
      (\<exists>p \<in> set objs. pn_parentId x = Some (pn_id p) \<and> pn_tier x = Suc (pn_tier p) \<and> pn_id x \<in> set (pn_children p))" if x: "x \<in> set (tl objs)" for x
  proof -
    obtain i where i: "i < length (tl objs)" "x = tl objs ! i" using x by (metis in_set_conv_nth)
    define k where "k = Suc i"
    have k: "k < length objs" "k \<noteq> 0" "x = objs ! k" using i by (simp_all add: k_def nth_tl)
    obtain j where j: "j < k" "pn_parentId x = Some (pn_id (objs ! j))" "pn_tier x = Suc (pn_tier (objs ! j))"
        "pn_role x = (if pn_children x = [] then Edge else Relay)"
      using S(6) [OF k(1,2)] unfolding k(3) [symmetric] by blast
    have jl: "j < length objs" using j(1) k(1) by simp
    have "pn_id x \<in> set (pn_children (objs ! j))"
      using S(7) [OF jl] kids_mem [OF S(2), of x "pn_id (objs ! j)"] j(2) k by simp
    then show ?thesis using j jl by auto
  qed
  have each: "distinct (pn_children x) \<and> int (length (pn_children x)) \<le> fanout \<and> pn_tier x < cp_tiers plan \<and>
      (\<forall>y \<in> set objs. pn_id y \<in> set (pn_children x) \<longleftrightarrow> pn_parentId y = Some (pn_id x))" if x: "x \<in> set objs" for x
  proof -
    obtain k where k: "k < length objs" "x = objs ! k" using x by (metis in_set_conv_nth)
    have c: "pn_children x = kids (pn_id x) objs" "length (pn_children x) \<le> nat fanout" using S(7) [OF k(1)] unfolding k(2) by blast+
    have "pn_tier (pl_objs s ! k) \<le> cp_tiers plan - 1" using u(2) k(1) len by (simp add: pl_ready_def)
    then have "pn_tier x < cp_tiers plan" using tier [OF k(1)] k(2) u(3) by simp
    moreover have "int (length (pn_children x)) \<le> fanout" using c(2) u(8) by simp
    ultimately show ?thesis unfolding c(1) using kids_distinct [OF S(2)] kids_mem [OF S(2)] c(1) by simp
  qed
  obtain p where "p \<in> set fr" "p < length objs" "pn_tier (pl_objs s ! p) = cp_tiers plan - 1"
    using u(2) len by (metis pl_ready_def list.set_intros(1) neq_Nil_conv)
  then have "\<exists>x \<in> set objs. Suc (pn_tier x) = cp_tiers plan" using tier u(3) by (intro bexI [of _ "objs ! p"]) auto
  then show ?thesis
    unfolding ns u(7) u(4) [symmetric]
    by (intro conjI ballI u(5) S(2,3,4) root child each) (use each child in blast)+
qed


definition example_plan :: cascade_plan where
  "example_plan = projr (planCascadeTree ''o'' 30 2 10 [''a'', ''b'', ''o'', ''c''] None)"

lemma example_plan_eval: "planCascadeTree ''o'' 30 2 10 [''a'', ''b'', ''o'', ''c''] None = Inr example_plan"
  "cp_links example_plan = [(''o'', ''a''), (''o'', ''b''), (''a'', ''c'')]" "cp_tiers example_plan = 3"
  "cp_edges example_plan = [''b'', ''c'']" "cp_unmetViewers example_plan = 10"
  by (simp_all add: example_plan_def planCascadeTree_def pl_start_def pl_loop.simps pl_attach_def pl_relays_def mark_relay_def
      pl_leaves_def capFor_def numeral_2_eq_2)

theorem plan_is_tree_witness:
  "distinct (map pn_id (jm_values (cp_nodes example_plan))) \<and>
   cp_links example_plan = map (\<lambda>x. (the (pn_parentId x), pn_id x)) (tl (jm_values (cp_nodes example_plan))) \<and>
   cp_links example_plan = [(''o'', ''a''), (''o'', ''b''), (''a'', ''c'')]"
proof -
  have "\<forall>i \<in> insert ''o'' (set [''a'', ''b'', ''o'', ''c'']). 0 \<le> capFor ''o'' 10 None i" by (simp add: capFor_def)
  from plan_is_tree [OF example_plan_eval(1) _ this] example_plan_eval(2) show ?thesis by simp
qed

text \<open>
  (C19) Seating: every viewer is either served or counted as unmet; the slots of the nodes add up to the
  served viewers, no node exceeds its capacity and only leaves serve; the shortfall is exactly what
  the capacities of the leaves cannot hold; the listed edges are the leaves that serve; and when no
  node's capacity is below \<^verbatim>\<open>viewersPerNode\<close> a shortfall means that every available node is in use.
\<close>

theorem plan_seating:
  assumes "planCascadeTree org vc fanout vpn avail capOf = Inr plan" "distinct avail" "0 \<le> vc"
    and "\<forall>i \<in> insert org (set avail). 0 \<le> capFor org vpn capOf i"
  defines "ns \<equiv> jm_values (cp_nodes plan)"
  shows "cp_servedViewers plan + cp_unmetViewers plan = vc \<and> sum_list (map pn_viewerSlots ns) = cp_servedViewers plan \<and>
    (\<forall>x \<in> set ns. 0 \<le> pn_viewerSlots x \<and> pn_viewerSlots x \<le> capFor org vpn capOf (pn_id x) \<and>
       (pn_viewerSlots x \<noteq> 0 \<longrightarrow> pn_children x = [])) \<and>
    cp_unmetViewers plan = max 0 (vc - sum_list (map (\<lambda>x. capFor org vpn capOf (pn_id x)) (filter (\<lambda>x. pn_children x = []) ns))) \<and>
    cp_edges plan = map pn_id (filter (\<lambda>x. pn_children x = [] \<and> pn_viewerSlots x > 0) ns) \<and>
    ((\<forall>i \<in> set avail. vpn \<le> capFor org vpn capOf i) \<longrightarrow> 0 < cp_unmetViewers plan \<longrightarrow> set (map pn_id ns) = insert org (set avail))"
proof -
  let ?cap = "capFor org vpn capOf"
  obtain s fr objs where u: "pl_inv (nat fanout) org s" "pl_ready fr (cp_tiers plan - 1) s" "pl_ids s = insert org (set avail)"
      "pl_pool s = [] \<or> vc \<le> int (length fr) * vpn"
      "cp_nodes plan = map (\<lambda>x. (pn_id x, x)) objs" "seated ?cap (set (pl_leaves s)) (pl_objs s) objs"
    and m: "cp_servedViewers plan + cp_unmetViewers plan = vc" "sum_list (map pn_viewerSlots objs) = cp_servedViewers plan"
      "cp_unmetViewers plan = (if vc \<le> 0 then vc else max 0 (vc - sum_list (map (\<lambda>x. ?cap (pn_id x)) (filter (\<lambda>x. pn_children x = []) objs))))"
      "cp_edges plan = map pn_id (filter (\<lambda>x. pn_children x = [] \<and> pn_viewerSlots x > 0) objs)" "1 \<le> vpn"
    using plan_unfold [OF assms(1,2,4)] by blast
  have ns: "ns = objs" using u(5) by (simp add: ns_def comp_def)
  have roles: "pl_roles {} s" using u(2) by (simp add: pl_ready_def)
  note S = plan_shape [OF u(1) roles u(6) refl]
  have len: "length objs = length (pl_objs s)" using u(6) by (simp add: seated_def)
  have same: "pn_id (objs ! k) = pn_id (pl_objs s ! k) \<and> pn_children (objs ! k) = pn_children (pl_objs s ! k)" if "k < length objs" for k
  proof -
    have "\<exists>v. objs ! k = (pl_objs s ! k)\<lparr>pn_viewerSlots := v\<rparr>" using u(6) that unfolding seated_def by auto
    then show ?thesis by auto
  qed
  have capnn: "0 \<le> ?cap (pn_id x)" if "x \<in> set objs" for x using S(3) assms(4) u(3) that by auto
  have each: "0 \<le> pn_viewerSlots x \<and> pn_viewerSlots x \<le> ?cap (pn_id x) \<and> (pn_viewerSlots x \<noteq> 0 \<longrightarrow> pn_children x = [])" if x: "x \<in> set objs" for x
  proof -
    obtain k where k: "k < length objs" "x = objs ! k" using x by (metis in_set_conv_nth)
    show ?thesis using S(8) [OF k(1)] capnn [OF x] k(2) by simp
  qed
  have unmet: "cp_unmetViewers plan = max 0 (vc - sum_list (map (\<lambda>x. ?cap (pn_id x)) (filter (\<lambda>x. pn_children x = []) objs)))"
  proof (cases "vc = 0")
    case True
    have "0 \<le> sum_list (map (\<lambda>x. ?cap (pn_id x)) (filter (\<lambda>x. pn_children x = []) objs))" using capnn by (intro sum_list_nonneg) auto
    then show ?thesis using True m(3) by simp
  next
    case False
    then show ?thesis using m(3) assms(3) by simp
  qed
  have full: "set (map pn_id objs) = insert org (set avail)"
    if cap: "\<forall>i \<in> set avail. vpn \<le> ?cap i" and short: "0 < cp_unmetViewers plan"
  proof -
    have fr: "p < length objs \<and> pn_children (objs ! p) = []" if "p \<in> set fr" for p
      using u(2) that same len by (simp add: pl_ready_def)
    let ?leaves = "filter (\<lambda>k. pn_children (objs ! k) = []) [0..<length objs]"
    have ge: "vpn \<le> ?cap (pn_id (objs ! k))" if "k < length objs" for k
    proof -
      have "pn_id (objs ! k) \<in> insert org (set avail)" using S(3) u(3) nth_mem [OF that] by auto
      then show ?thesis using cap by (auto simp: capFor_def)
    qed
    have "int (length fr) * vpn \<le> int (card (set ?leaves)) * vpn"
      using fr u(2) m(5) by (intro mult_right_mono) (auto simp: pl_ready_def distinct_card [symmetric] intro!: card_mono)
    also have "\<dots> = (\<Sum>k \<in> set ?leaves. vpn)" by simp
    also have "\<dots> \<le> (\<Sum>k \<in> set ?leaves. ?cap (pn_id (objs ! k)))" by (rule sum_mono) (use ge in auto)
    also have "\<dots> = sum_list (map (\<lambda>k. ?cap (pn_id (objs ! k))) ?leaves)"
      by (rule sum.distinct_set_conv_list) simp
    also have "map (\<lambda>k. ?cap (pn_id (objs ! k))) ?leaves = map (\<lambda>x. ?cap (pn_id x)) (map ((!) objs) ?leaves)" by simp
    also have "map ((!) objs) ?leaves = filter (\<lambda>x. pn_children x = []) objs" by (rule map_nth_filter)
    finally have "pl_pool s = []" using u(4) unmet short by auto
    then have "pl_ids s = set (map pn_id (pl_objs s))" by (simp add: pl_ids_def)
    moreover have "map pn_id objs = map pn_id (pl_objs s)" using same len by (intro nth_equalityI) auto
    ultimately show ?thesis using u(3) by simp
  qed
  show ?thesis unfolding ns using m(1,2,4) each unmet full by blast
qed

theorem plan_seating_witness:
  "cp_servedViewers example_plan + cp_unmetViewers example_plan = 30 \<and> cp_unmetViewers example_plan = 10 \<and>
   set (map pn_id (jm_values (cp_nodes example_plan))) = {''o'', ''a'', ''b'', ''c''}"
proof -
  have c: "\<forall>i \<in> insert ''o'' (set [''a'', ''b'', ''o'', ''c'']). 0 \<le> capFor ''o'' 10 None i"
    and g: "\<forall>i \<in> set [''a'', ''b'', ''o'', ''c'']. 10 \<le> capFor ''o'' 10 None i" by (simp_all add: capFor_def)
  from plan_seating [OF example_plan_eval(1) _ _ c] g example_plan_eval(5)
  show ?thesis by auto
qed






end
