(* ===== verification/Sfu.thy ===== *)
theory Sfu
  imports HashRing "HOL-Library.List_Lexorder" "HOL-Library.Char_ord"
begin

text \<open>
  The cluster layer of \<^verbatim>\<open>packages/sfu/src\<close>: \<^verbatim>\<open>SfuNode.ts\<close>, \<^verbatim>\<open>PlacementStrategy.ts\<close>, \<^verbatim>\<open>SfuCluster.ts\<close>
  and \<^verbatim>\<open>NodeFailureTracker.ts\<close>. Nodes are objects in a heap (\<open>nref\<close>), since routers keep references to
  nodes that have left the cluster. Operations that emit events take the listeners as an argument
  \<open>emit\<close> over the whole state, so listeners run in the middle of an operation as they do in the code.
  Loads and capacities are integers.
\<close>

section \<open>SfuNode\<close>

type_synonym nref = nat

record sfu_node =
  sn_id :: string
  sn_region :: string
  sn_capacity :: int
  sn_load :: int
  sn_failed :: bool
  sn_draining :: bool
  sn_rooms :: "string list"
  sn_drainWaiting :: bool
  sn_collecting :: bool

datatype sfu_out =
    NodeLoad nref int
  | NodeOverloaded nref
  | NodeFailed nref
  | NodeRecovered nref
  | NodeDraining nref
  | NodeDrained nref
  | ClusterNodeAdded nref
  | ClusterNodeRemoved nref
  | ClusterOverloaded
  | ClusterError string
  | OnRebalance string bool

definition DEFAULT_CAPACITY :: int where "DEFAULT_CAPACITY = 100"

definition sn_new :: "string \<Rightarrow> string \<Rightarrow> int option \<Rightarrow> sfu_node" where
  "sn_new i region capacity =
     \<lparr>sn_id = i, sn_region = region, sn_capacity = (case capacity of Some c \<Rightarrow> c | None \<Rightarrow> DEFAULT_CAPACITY), sn_load = 0,
      sn_failed = False, sn_draining = False, sn_rooms = [], sn_drainWaiting = False, sn_collecting = False\<rparr>"

definition sn_isOverloaded :: "sfu_node \<Rightarrow> bool" where
  "sn_isOverloaded n \<longleftrightarrow> sn_load n \<ge> sn_capacity n"

definition sn_trackRoom :: "string \<Rightarrow> sfu_node \<Rightarrow> sfu_node" where
  "sn_trackRoom roomId n = n\<lparr>sn_rooms := js_add roomId (sn_rooms n)\<rparr>"

text \<open>A pending \<^verbatim>\<open>drain\<close> waits (\<open>sn_drainWaiting\<close>) until its resolver is called here, on failure or by its timer.\<close>

definition sn_untrackRoom :: "string \<Rightarrow> sfu_node \<Rightarrow> sfu_node" where
  "sn_untrackRoom roomId n =
     (let n1 = n\<lparr>sn_rooms := js_del roomId (sn_rooms n)\<rparr>
      in if sn_draining n1 \<and> length (sn_rooms n1) = 0 then n1\<lparr>sn_drainWaiting := False\<rparr> else n1)"

definition sn_roomCount :: "sfu_node \<Rightarrow> nat" where
  "sn_roomCount n = length (sn_rooms n)"

definition sn_stopStatsCollection :: "sfu_node \<Rightarrow> sfu_node" where
  "sn_stopStatsCollection n = n\<lparr>sn_collecting := False\<rparr>"

definition sn_startStatsCollection :: "sfu_node \<Rightarrow> sfu_node" where
  "sn_startStatsCollection n = (sn_stopStatsCollection n)\<lparr>sn_collecting := True\<rparr>"

section \<open>SfuCluster\<close>

record cluster =
  cl_heap :: "nref \<Rightarrow> sfu_node"
  cl_nodes :: "(string, nref) jsmap"
  cl_failStreak :: "(string, nat) jsmap"
  cl_passStreak :: "(string, nat) jsmap"

type_synonym 's emitter = "sfu_out \<Rightarrow> 's \<Rightarrow> 's"

definition cl_upd :: "nref \<Rightarrow> (sfu_node \<Rightarrow> sfu_node) \<Rightarrow> 'a cluster_scheme \<Rightarrow> 'a cluster_scheme" where
  "cl_upd r f s = s\<lparr>cl_heap := (cl_heap s)(r := f (cl_heap s r))\<rparr>"

definition cl_getNodes :: "'a cluster_scheme \<Rightarrow> nref list" where
  "cl_getNodes s = jm_values (cl_nodes s)"

definition cl_getActiveNodes :: "'a cluster_scheme \<Rightarrow> nref list" where
  "cl_getActiveNodes s = filter (\<lambda>r. \<not> sn_failed (cl_heap s r) \<and> \<not> sn_draining (cl_heap s r)) (cl_getNodes s)"

definition cl_checkAllOverloaded :: "'a cluster_scheme emitter \<Rightarrow> 'a cluster_scheme \<Rightarrow> 'a cluster_scheme" where
  "cl_checkAllOverloaded emit s =
     (let active = cl_getActiveNodes s
      in if length active > 0 \<and> (\<forall>r \<in> set active. sn_isOverloaded (cl_heap s r)) then emit ClusterOverloaded s else s)"

text \<open>\<^verbatim>\<open>reportLoad\<close> on a node; a registered node has the cluster's overload listener.\<close>

definition sn_reportLoad :: "'a cluster_scheme emitter \<Rightarrow> nref \<Rightarrow> int \<Rightarrow> 'a cluster_scheme \<Rightarrow> 'a cluster_scheme" where
  "sn_reportLoad emit r n s =
     (let wasOverloaded = sn_isOverloaded (cl_heap s r);
          s1 = emit (NodeLoad r n) (cl_upd r (\<lambda>x. x\<lparr>sn_load := n\<rparr>) s)
      in if \<not> wasOverloaded \<and> sn_isOverloaded (cl_heap s1 r)
         then (let s2 = emit (NodeOverloaded r) s1
               in if r \<in> set (cl_getNodes s2) then cl_checkAllOverloaded emit s2 else s2)
         else s1)"

definition sn_markFailed :: "'a cluster_scheme emitter \<Rightarrow> nref \<Rightarrow> 'a cluster_scheme \<Rightarrow> 'a cluster_scheme" where
  "sn_markFailed emit r s =
     (if sn_failed (cl_heap s r) then s
      else emit (NodeFailed r)
             (cl_upd r (\<lambda>x. let x1 = sn_stopStatsCollection (x\<lparr>sn_failed := True\<rparr>)
                            in if sn_draining x1 then x1\<lparr>sn_drainWaiting := False\<rparr> else x1) s))"

definition sn_markRecovered :: "'a cluster_scheme emitter \<Rightarrow> nref \<Rightarrow> 'a cluster_scheme \<Rightarrow> 'a cluster_scheme" where
  "sn_markRecovered emit r s =
     (if \<not> sn_failed (cl_heap s r) then s else emit (NodeRecovered r) (cl_upd r (\<lambda>x. x\<lparr>sn_failed := False\<rparr>) s))"

text \<open>\<^verbatim>\<open>drain\<close> up to its await, the timer, and what follows the await.\<close>

definition sn_drain :: "'a cluster_scheme emitter \<Rightarrow> nref \<Rightarrow> 'a cluster_scheme \<Rightarrow> 'a cluster_scheme" where
  "sn_drain emit r s =
     (if sn_draining (cl_heap s r) then s
      else (let s1 = emit (NodeDraining r) (cl_upd r (\<lambda>x. sn_stopStatsCollection (x\<lparr>sn_draining := True\<rparr>)) s)
            in cl_upd r (\<lambda>x. x\<lparr>sn_drainWaiting := (length (sn_rooms x) \<noteq> 0)\<rparr>) s1))"

definition sn_drainTimeout :: "nref \<Rightarrow> 'a cluster_scheme \<Rightarrow> 'a cluster_scheme" where
  "sn_drainTimeout r s = cl_upd r (\<lambda>x. x\<lparr>sn_drainWaiting := False\<rparr>) s"

definition sn_drainDone :: "'a cluster_scheme emitter \<Rightarrow> nref \<Rightarrow> 'a cluster_scheme \<Rightarrow> 'a cluster_scheme" where
  "sn_drainDone emit r s =
     (if sn_draining (cl_heap s r) \<and> \<not> sn_drainWaiting (cl_heap s r)
      then emit (NodeDrained r) (cl_upd r (\<lambda>x. x\<lparr>sn_draining := False\<rparr>) s) else s)"

definition cl_removeNode :: "'a cluster_scheme emitter \<Rightarrow> string \<Rightarrow> 'a cluster_scheme \<Rightarrow> bool \<times> 'a cluster_scheme" where
  "cl_removeNode emit i s =
     (case jm_get (cl_nodes s) i of
        None \<Rightarrow> (False, s)
      | Some r \<Rightarrow>
          (True, emit (ClusterNodeRemoved r)
                   (s\<lparr>cl_nodes := jm_delete i (cl_nodes s), cl_failStreak := jm_delete i (cl_failStreak s),
                      cl_passStreak := jm_delete i (cl_passStreak s)\<rparr>)))"

definition cl_addNode :: "'a cluster_scheme emitter \<Rightarrow> nref \<Rightarrow> 'a cluster_scheme \<Rightarrow> 'a cluster_scheme" where
  "cl_addNode emit r s =
     (let i = sn_id (cl_heap s r);
          s1 = (if jm_has (cl_nodes s) i then snd (cl_removeNode emit i s) else s)
      in emit (ClusterNodeAdded r) (s1\<lparr>cl_nodes := jm_set i r (cl_nodes s1)\<rparr>))"

fun cl_rebalance_loop :: "'a cluster_scheme emitter \<Rightarrow> nref list \<Rightarrow> bool \<Rightarrow> 'a cluster_scheme \<Rightarrow> bool \<times> 'a cluster_scheme" where
  "cl_rebalance_loop emit [] needs s = (needs, s)"
| "cl_rebalance_loop emit (r # rs) needs s =
     (let n = cl_heap s r
      in if sn_draining n \<or> sn_failed n
         then cl_rebalance_loop emit rs True (emit (OnRebalance (sn_id n) (sn_failed n)) s)
         else cl_rebalance_loop emit rs needs s)"

definition cl_rebalance :: "'a cluster_scheme emitter \<Rightarrow> 'a cluster_scheme \<Rightarrow> 'a cluster_scheme" where
  "cl_rebalance emit s =
     (let (needs, s1) = cl_rebalance_loop emit (cl_getNodes s) False s in if needs then emit ClusterOverloaded s1 else s1)"

text \<open>Consecutive health results; \<open>failT\<close> and \<open>recT\<close> are the thresholds (3 and 2 by default).\<close>

definition cl_onHealthResult :: "'a cluster_scheme emitter \<Rightarrow> int \<Rightarrow> int \<Rightarrow> nref \<Rightarrow> bool \<Rightarrow> 'a cluster_scheme \<Rightarrow> 'a cluster_scheme" where
  "cl_onHealthResult emit failT recT r healthy s =
     (let i = sn_id (cl_heap s r) in
      if \<not> healthy
      then (let streak = (case jm_get (cl_failStreak s) i of Some k \<Rightarrow> k | None \<Rightarrow> 0) + 1;
                s1 = s\<lparr>cl_passStreak := jm_delete i (cl_passStreak s), cl_failStreak := jm_set i streak (cl_failStreak s)\<rparr>
            in if \<not> sn_failed (cl_heap s1 r) \<and> int streak \<ge> failT
               then cl_rebalance emit (emit (ClusterError i)
                      (sn_markFailed emit r (s1\<lparr>cl_failStreak := jm_delete i (cl_failStreak s1)\<rparr>)))
               else s1)
      else (let s1 = s\<lparr>cl_failStreak := jm_delete i (cl_failStreak s)\<rparr>
            in if sn_failed (cl_heap s1 r)
               then (let streak = (case jm_get (cl_passStreak s1) i of Some k \<Rightarrow> k | None \<Rightarrow> 0) + 1;
                         s2 = s1\<lparr>cl_passStreak := jm_set i streak (cl_passStreak s1)\<rparr>
                     in if int streak \<ge> recT
                        then sn_markRecovered emit r (s2\<lparr>cl_passStreak := jm_delete i (cl_passStreak s2)\<rparr>)
                        else s2)
               else s1))"

section \<open>PlacementStrategy\<close>

definition regionalPool :: "(nref \<Rightarrow> sfu_node) \<Rightarrow> nref list \<Rightarrow> string option \<Rightarrow> nref list" where
  "regionalPool h cs region =
     (case region of
        None \<Rightarrow> cs
      | Some rg \<Rightarrow>
          if rg = [] then cs
          else (let regional = filter (\<lambda>r. sn_region (h r) = rg) cs in if length regional > 0 then regional else cs))"

definition leastLoaded_select :: "(nref \<Rightarrow> sfu_node) \<Rightarrow> nref list \<Rightarrow> string option \<Rightarrow> string option \<Rightarrow> nref option" where
  "leastLoaded_select h cs region key =
     (if length cs = 0 then None
      else (let pool = regionalPool h cs region
            in Some (foldl (\<lambda>m r. if sn_load (h r) < sn_load (h m) then r else m) (hd pool) (tl pool))))"

record hash_ring_strategy =
  hs_ring :: "ring option"
  hs_ringSig :: string

definition hs_new :: hash_ring_strategy where
  "hs_new = \<lparr>hs_ring = None, hs_ringSig = []\<rparr>"

definition hs_weight :: "sfu_node \<Rightarrow> int" where
  "hs_weight n = max 1 (sn_capacity n)"

text \<open>\<^verbatim>\<open>join('|')\<close> of the sorted \<^verbatim>\<open>id:weight\<close> texts.\<close>

fun js_join :: "string \<Rightarrow> string list \<Rightarrow> string" where
  "js_join sep [] = []"
| "js_join sep [x] = x"
| "js_join sep (x # y # ys) = x @ sep @ js_join sep (y # ys)"

definition hs_entry :: "sfu_node \<Rightarrow> string" where
  "hs_entry n = sn_id n @ '':'' @ js_nat_str (nat (hs_weight n))"

definition hs_sig :: "(nref \<Rightarrow> sfu_node) \<Rightarrow> nref list \<Rightarrow> string" where
  "hs_sig h pool = js_join ''|'' (sort (map (\<lambda>r. hs_entry (h r)) pool))"

definition hs_nodes :: "(nref \<Rightarrow> sfu_node) \<Rightarrow> nref list \<Rightarrow> ring_node list" where
  "hs_nodes h pool = map (\<lambda>r. RingNode (sn_id (h r)) (Some (JFin (real_of_int (hs_weight (h r)))))) pool"

definition hs_ringFor :: "(nref \<Rightarrow> sfu_node) \<Rightarrow> nref list \<Rightarrow> hash_ring_strategy \<Rightarrow> ring option \<times> hash_ring_strategy" where
  "hs_ringFor h pool st =
     (let sg = hs_sig h pool
      in if hs_ring st = None \<or> sg \<noteq> hs_ringSig st
         then (case hr_new (hs_nodes h pool) of
                 Inl e \<Rightarrow> (None, st)
               | Inr ring \<Rightarrow> (Some ring, \<lparr>hs_ring = Some ring, hs_ringSig = sg\<rparr>))
         else (hs_ring st, st))"

definition hs_select ::
  "scorer \<Rightarrow> (nref \<Rightarrow> sfu_node) \<Rightarrow> nref list \<Rightarrow> string option \<Rightarrow> string option \<Rightarrow> hash_ring_strategy \<Rightarrow> nref option \<times> hash_ring_strategy" where
  "hs_select sc h cs region key st =
     (if length cs = 0 then (None, st)
      else (let pool = regionalPool h cs region
            in case key of
                 None \<Rightarrow> (Some (hd pool), st)
               | Some k \<Rightarrow>
                   (let byId = fold (\<lambda>r m. jm_set (sn_id (h r)) r m) pool [];
                        (ring, st1) = hs_ringFor h pool st
                    in (Option.bind (Option.bind ring (\<lambda>g. hr_get sc g k)) (jm_get byId), st1))))"

section \<open>NodeFailureTracker\<close>

record tracked = cluster +
  tk_listeners :: "(string, nref) jsmap"
  tk_gone :: "string list"

definition tk_fireGone :: "(nref \<Rightarrow> 'a tracked_scheme \<Rightarrow> 'a tracked_scheme) \<Rightarrow> nref \<Rightarrow> 'a tracked_scheme \<Rightarrow> 'a tracked_scheme" where
  "tk_fireGone onGone r s =
     (let i = sn_id (cl_heap s r)
      in if i \<in> set (tk_gone s) then s else onGone r (s\<lparr>tk_gone := js_add i (tk_gone s)\<rparr>))"

definition tk_attach :: "nref \<Rightarrow> 'a tracked_scheme \<Rightarrow> 'a tracked_scheme" where
  "tk_attach r s =
     (let i = sn_id (cl_heap s r)
      in if jm_has (tk_listeners s) i then s
         else s\<lparr>tk_gone := js_del i (tk_gone s), tk_listeners := jm_set i r (tk_listeners s)\<rparr>)"

definition tk_detach :: "nref \<Rightarrow> 'a tracked_scheme \<Rightarrow> 'a tracked_scheme" where
  "tk_detach r s = s\<lparr>tk_listeners := jm_delete (sn_id (cl_heap s r)) (tk_listeners s)\<rparr>"

text \<open>What the tracker does on an event of the cluster or of a node it listens to.\<close>

definition tk_emit :: "(nref \<Rightarrow> 'a tracked_scheme \<Rightarrow> 'a tracked_scheme) \<Rightarrow> 'a tracked_scheme emitter" where
  "tk_emit onGone ev s =
     (case ev of
        NodeFailed r \<Rightarrow> if jm_get (tk_listeners s) (sn_id (cl_heap s r)) = Some r then tk_fireGone onGone r s else s
      | NodeRecovered r \<Rightarrow>
          if jm_get (tk_listeners s) (sn_id (cl_heap s r)) = Some r
          then s\<lparr>tk_gone := js_del (sn_id (cl_heap s r)) (tk_gone s)\<rparr> else s
      | ClusterNodeAdded r \<Rightarrow> tk_attach r s
      | ClusterNodeRemoved r \<Rightarrow>
          (let s1 = tk_detach r s in if \<not> sn_draining (cl_heap s1 r) then tk_fireGone onGone r s1 else s1)
      | _ \<Rightarrow> s)"

fun tk_attachAll :: "nref list \<Rightarrow> 'a tracked_scheme \<Rightarrow> 'a tracked_scheme" where
  "tk_attachAll [] s = s"
| "tk_attachAll (r # rs) s = tk_attachAll rs (tk_attach r s)"

definition tk_dispose :: "'a tracked_scheme \<Rightarrow> 'a tracked_scheme" where
  "tk_dispose s = s\<lparr>tk_listeners := [], tk_gone := []\<rparr>"


section \<open>Placement as an interface\<close>

definition cl_assignNode ::
  "((nref \<Rightarrow> sfu_node) \<Rightarrow> nref list \<Rightarrow> string option \<Rightarrow> string option \<Rightarrow> 'p \<Rightarrow> nref option \<times> 'p) \<Rightarrow>
   'a cluster_scheme \<Rightarrow> string option \<Rightarrow> string option \<Rightarrow> 'p \<Rightarrow> nref option \<times> 'p" where
  "cl_assignNode select s rg key st = select (cl_heap s) (cl_getActiveNodes s) rg key st"

text \<open>
  What the cluster relies on: a strategy answers nothing without candidates, and otherwise one of the
  candidates of the preferred region (of all of them when none is there). A strategy may keep a
  state (\<open>ok\<close>) and may only be able to work with some nodes (\<open>fit\<close>).
\<close>

locale placement =
  fixes select :: "(nref \<Rightarrow> sfu_node) \<Rightarrow> nref list \<Rightarrow> string option \<Rightarrow> string option \<Rightarrow> 's \<Rightarrow> nref option \<times> 's"
    and ok :: "'s \<Rightarrow> bool"
    and fit :: "sfu_node \<Rightarrow> bool"
  assumes select_empty: "fst (select h [] rg key st) = None"
    and select_some: "ok st \<Longrightarrow> cs \<noteq> [] \<Longrightarrow> (\<And>r. r \<in> set cs \<Longrightarrow> fit (h r)) \<Longrightarrow>
      \<exists>r \<in> set (regionalPool h cs rg). fst (select h cs rg key st) = Some r"
    and select_ok: "ok st \<Longrightarrow> (\<And>r. r \<in> set cs \<Longrightarrow> fit (h r)) \<Longrightarrow> ok (snd (select h cs rg key st))"
begin

lemma assign_active:
  assumes "ok st" "\<And>r. r \<in> set (cl_getActiveNodes s) \<Longrightarrow> fit (cl_heap s r)"
  shows "case fst (cl_assignNode select s rg key st) of
      None \<Rightarrow> cl_getActiveNodes s = []
    | Some r \<Rightarrow> r \<in> set (jm_values (cl_nodes s)) \<and> \<not> sn_failed (cl_heap s r) \<and> \<not> sn_draining (cl_heap s r) \<and>
        (\<forall>region q. rg = Some region \<longrightarrow> region \<noteq> [] \<longrightarrow> q \<in> set (cl_getActiveNodes s) \<longrightarrow> sn_region (cl_heap s q) = region \<longrightarrow>
           sn_region (cl_heap s r) = region)"
proof (cases "cl_getActiveNodes s = []")
  case True
  then show ?thesis by (simp add: cl_assignNode_def select_empty)
next
  case False
  then obtain r where r: "r \<in> set (regionalPool (cl_heap s) (cl_getActiveNodes s) rg)" "fst (cl_assignNode select s rg key st) = Some r"
    using select_some [where h = "cl_heap s", OF assms(1) False assms(2)] by (auto simp: cl_assignNode_def)
  have "r \<in> set (cl_getActiveNodes s)" using r(1) by (auto simp: regionalPool_def Let_def split: option.splits if_splits)
  then have act: "r \<in> set (jm_values (cl_nodes s)) \<and> \<not> sn_failed (cl_heap s r) \<and> \<not> sn_draining (cl_heap s r)"
    by (auto simp: cl_getActiveNodes_def cl_getNodes_def)
  have "sn_region (cl_heap s r) = region" if "rg = Some region" "region \<noteq> []" "q \<in> set (cl_getActiveNodes s)" "sn_region (cl_heap s q) = region" for region q
  proof -
    have "filter (\<lambda>r. sn_region (cl_heap s r) = region) (cl_getActiveNodes s) \<noteq> []" using that(3,4) by (auto simp: filter_empty_conv)
    then show ?thesis using r(1) that(1,2) by (simp add: regionalPool_def Let_def)
  qed
  then show ?thesis using r(2) act by auto
qed

end

lemma regionalPool_ne: "cs \<noteq> [] \<Longrightarrow> regionalPool h cs rg \<noteq> []"
  by (auto simp: regionalPool_def Let_def split: option.splits)

lemma foldl_min_mem: "foldl (\<lambda>m r. if f r < f m then r else m) x xs \<in> insert x (set xs)"
proof (induction xs arbitrary: x)
  case (Cons y ys)
  show ?case using Cons.IH [of "if f y < f x then y else x"] by (auto split: if_splits)
qed simp

lemma foldl_min_le: "f (foldl (\<lambda>m r. if f r < f m then r else m) x xs) \<le> (f x :: int)"
proof (induction xs arbitrary: x)
  case (Cons y ys)
  show ?case using Cons.IH [of "if f y < f x then y else x"] by (auto split: if_splits)
qed simp

lemma foldl_min_least:
  fixes f :: "'a \<Rightarrow> int"
  shows "r \<in> insert x (set xs) \<Longrightarrow> f (foldl (\<lambda>m r. if f r < f m then r else m) x xs) \<le> f r"
proof (induction xs arbitrary: x)
  case (Cons y ys)
  let ?z = "if f y < f x then y else x"
  let ?m = "foldl (\<lambda>m r. if f r < f m then r else m) ?z ys"
  show ?case
  proof (cases "r \<in> {x, y}")
    case True
    have "f ?m \<le> f ?z" by (rule foldl_min_le)
    then show ?thesis using True by (auto split: if_splits)
  next
    case False
    then have "r \<in> insert ?z (set ys)" using Cons.prems by auto
    then show ?thesis using Cons.IH [of ?z] by simp
  qed
qed simp

definition ll_select :: "(nref \<Rightarrow> sfu_node) \<Rightarrow> nref list \<Rightarrow> string option \<Rightarrow> string option \<Rightarrow> unit \<Rightarrow> nref option \<times> unit" where
  "ll_select h cs rg key st = (leastLoaded_select h cs rg key, st)"

interpretation leastLoaded: placement ll_select "\<lambda>_. True" "\<lambda>_. True"
proof
  fix h cs rg key and st :: unit
  show "fst (ll_select h [] rg key st) = None" by (simp add: ll_select_def leastLoaded_select_def)
  show "\<exists>r \<in> set (regionalPool h cs rg). fst (ll_select h cs rg key st) = Some r" if "cs \<noteq> []"
  proof -
    let ?p = "regionalPool h cs rg"
    have "foldl (\<lambda>m r. if sn_load (h r) < sn_load (h m) then r else m) (hd ?p) (tl ?p) \<in> set ?p"
      using foldl_min_mem [of "\<lambda>r. sn_load (h r)" "hd ?p" "tl ?p"] regionalPool_ne [OF that, of h rg] by (cases ?p) auto
    then show ?thesis using that by (simp add: ll_select_def leastLoaded_select_def Let_def)
  qed
qed simp

subsection \<open>The hash ring strategy and its signature\<close>

text \<open>Ids the signature separates: no \<^verbatim>\<open>:\<close> and no \<^verbatim>\<open>|\<close>.\<close>

definition clean_id :: "sfu_node \<Rightarrow> bool" where
  "clean_id n \<longleftrightarrow> CHR '':'' \<notin> set (sn_id n) \<and> CHR ''|'' \<notin> set (sn_id n)"

lemma hs_entry_clean: "clean_id n \<Longrightarrow> CHR ''|'' \<notin> set (hs_entry n)"
  using js_nat_str_digits [of "CHR ''|''" "nat (hs_weight n)"] by (auto simp: hs_entry_def clean_id_def)

lemma takeWhile_upto: "c \<notin> set xs \<Longrightarrow> takeWhile (\<lambda>x. x \<noteq> c) (xs @ c # ys) = xs"
  by (induction xs) auto

lemma hs_entry_id: "clean_id n \<Longrightarrow> takeWhile (\<lambda>c. c \<noteq> CHR '':'') (hs_entry n) = sn_id n"
  by (simp add: hs_entry_def clean_id_def takeWhile_upto)

lemma js_join_head: "CHR ''|'' \<notin> set x \<Longrightarrow> takeWhile (\<lambda>c. c \<noteq> CHR ''|'') (js_join ''|'' (x # xs)) = x"
  by (cases xs) (auto simp: takeWhile_upto takeWhile_eq_all_conv)

lemma js_join_inj:
  "js_join ''|'' xs = js_join ''|'' ys \<Longrightarrow> xs \<noteq> [] \<Longrightarrow> ys \<noteq> [] \<Longrightarrow>
   (\<And>x. x \<in> set xs \<union> set ys \<Longrightarrow> CHR ''|'' \<notin> set x) \<Longrightarrow> xs = ys"
proof (induction xs arbitrary: ys)
  case (Cons x xs)
  obtain y ys' where ys: "ys = y # ys'" using Cons.prems(3) by (cases ys) auto
  have xy: "x = y" using js_join_head [of x xs] js_join_head [of y ys'] Cons.prems(1,4) ys by simp
  show ?case
  proof (cases "xs = [] \<or> ys' = []")
    case True
    then show ?thesis using Cons.prems(1,4) ys xy by (cases xs; cases ys') auto
  next
    case False
    then have "js_join ''|'' xs = js_join ''|'' ys'" using Cons.prems(1) ys xy by (cases xs; cases ys') auto
    then have "xs = ys'" by (rule Cons.IH) (use False Cons.prems(4) ys in auto)
    then show ?thesis using xy ys by simp
  qed
qed simp

lemma hs_sig_ids:
  assumes "hs_sig h pool = hs_sig h' pool'" "pool \<noteq> []" "pool' \<noteq> []"
    and "\<And>r. r \<in> set pool \<Longrightarrow> clean_id (h r)" "\<And>r. r \<in> set pool' \<Longrightarrow> clean_id (h' r)"
  shows "(\<lambda>r. sn_id (h r)) ` set pool = (\<lambda>r. sn_id (h' r)) ` set pool'"
proof -
  let ?xs = "sort (map (\<lambda>r. hs_entry (h r)) pool)" and ?ys = "sort (map (\<lambda>r. hs_entry (h' r)) pool')"
  have ne: "?xs \<noteq> []" "?ys \<noteq> []" using assms(2,3) by (simp_all flip: length_greater_0_conv)
  have "?xs = ?ys"
    by (rule js_join_inj) (use assms ne hs_entry_clean in \<open>auto simp: hs_sig_def\<close>)
  then have "set (map (\<lambda>r. hs_entry (h r)) pool) = set (map (\<lambda>r. hs_entry (h' r)) pool')" by (metis set_sort)
  then have eq: "(\<lambda>r. hs_entry (h r)) ` set pool = (\<lambda>r. hs_entry (h' r)) ` set pool'" by simp
  have "(\<lambda>r. sn_id (h r)) ` set pool = takeWhile (\<lambda>c. c \<noteq> CHR '':'') ` (\<lambda>r. hs_entry (h r)) ` set pool"
    unfolding image_image by (rule image_cong) (use hs_entry_id assms(4) in auto)
  also have "\<dots> = takeWhile (\<lambda>c. c \<noteq> CHR '':'') ` (\<lambda>r. hs_entry (h' r)) ` set pool'" unfolding eq ..
  also have "\<dots> = (\<lambda>r. sn_id (h' r)) ` set pool'"
    unfolding image_image by (rule image_cong) (use hs_entry_id assms(5) in auto)
  finally show ?thesis .
qed

lemma hs_add_all: "\<exists>ring. hr_add_all g (hs_nodes h pool) = Inr ring \<and> fst ` set ring = fst ` set g \<union> (\<lambda>r. sn_id (h r)) ` set pool"
proof (induction pool arbitrary: g)
  case (Cons r pool)
  have "1 \<le> hs_weight (h r)" by (simp add: hs_weight_def)
  then have "hr_add g (RingNode (sn_id (h r)) (Some (JFin (real_of_int (hs_weight (h r)))))) = Inr (jm_set (sn_id (h r)) (real_of_int (hs_weight (h r))) g)"
    by (simp add: hr_add_def)
  then show ?case using Cons.IH [of "jm_set (sn_id (h r)) (real_of_int (hs_weight (h r))) g"] by (auto simp: hs_nodes_def)
qed (simp add: hs_nodes_def)

definition hs_ok :: "hash_ring_strategy \<Rightarrow> bool" where
  "hs_ok st \<longleftrightarrow> (\<forall>ring. hs_ring st = Some ring \<longrightarrow>
     (\<exists>h pool. pool \<noteq> [] \<and> (\<forall>r \<in> set pool. clean_id (h r)) \<and> hs_ringSig st = hs_sig h pool \<and>
        fst ` set ring = (\<lambda>r. sn_id (h r)) ` set pool))"

lemma hs_ringFor_ok:
  assumes "hs_ok st" "pool \<noteq> []" "\<And>r. r \<in> set pool \<Longrightarrow> clean_id (h r)"
  shows "\<exists>ring. fst (hs_ringFor h pool st) = Some ring \<and> fst ` set ring = (\<lambda>r. sn_id (h r)) ` set pool" "hs_ok (snd (hs_ringFor h pool st))"
proof -
  obtain ring where new: "hr_new (hs_nodes h pool) = Inr ring" "fst ` set ring = (\<lambda>r. sn_id (h r)) ` set pool"
    using hs_add_all [of "[]" h pool] by (auto simp: hr_new_def)
  have "(\<exists>ring. fst (hs_ringFor h pool st) = Some ring \<and> fst ` set ring = (\<lambda>r. sn_id (h r)) ` set pool) \<and> hs_ok (snd (hs_ringFor h pool st))"
  proof (cases "hs_ring st = None \<or> hs_sig h pool \<noteq> hs_ringSig st")
    case True
    then have r: "hs_ringFor h pool st = (Some ring, \<lparr>hs_ring = Some ring, hs_ringSig = hs_sig h pool\<rparr>)"
      using new(1) by (simp add: hs_ringFor_def Let_def)
    have "hs_ok \<lparr>hs_ring = Some ring, hs_ringSig = hs_sig h pool\<rparr>"
      unfolding hs_ok_def using new(2) assms(2,3) by (intro allI impI exI [of _ h] exI [of _ pool]) simp
    then show ?thesis unfolding r using new(2) by simp
  next
    case False
    then obtain ring' where st: "hs_ring st = Some ring'" "hs_ringSig st = hs_sig h pool" by auto
    with assms(1) obtain h' pool' where p: "pool' \<noteq> []" "\<forall>r \<in> set pool'. clean_id (h' r)" "hs_sig h pool = hs_sig h' pool'"
        "fst ` set ring' = (\<lambda>r. sn_id (h' r)) ` set pool'" unfolding hs_ok_def by metis
    have "fst ` set ring' = (\<lambda>r. sn_id (h r)) ` set pool"
      using hs_sig_ids [OF p(3) assms(2) p(1) assms(3)] p(2,4) by auto
    then show ?thesis using False st assms(1) by (simp add: hs_ringFor_def Let_def)
  qed
  then show "\<exists>ring. fst (hs_ringFor h pool st) = Some ring \<and> fst ` set ring = (\<lambda>r. sn_id (h r)) ` set pool" "hs_ok (snd (hs_ringFor h pool st))"
    by blast+
qed

lemma byId_lookup:
  "i \<in> (\<lambda>r. sn_id (h r)) ` set pool \<or> (\<exists>r \<in> set pool'. jm_get m i = Some r) \<Longrightarrow> set pool \<subseteq> set pool' \<Longrightarrow>
   \<exists>r \<in> set pool'. jm_get (fold (\<lambda>r m. jm_set (sn_id (h r)) r m) pool m) i = Some r"
proof (induction pool arbitrary: m)
  case (Cons r pool)
  show ?case using Cons.IH [of "jm_set (sn_id (h r)) r m"] Cons.prems by (auto split: if_splits)
qed auto

lemma hr_get_some: "r \<noteq> [] \<Longrightarrow> \<exists>i \<in> fst ` set r. hr_get sc r key = Some i"
proof -
  assume "r \<noteq> []"
  then obtain i s where b: "hr_best sc key r None = Some (i, s)" "hr_first_max sc key r i s" using hr_best_first_max by blast
  then obtain w where "(i, w) \<in> set r" using hr_first_max_mem by blast
  then have "i \<in> fst ` set r" by force
  then show ?thesis using b(1) by (simp add: hr_get_def)
qed

interpretation hashRing: placement "hs_select sc" hs_ok clean_id for sc
proof
  fix h cs rg key st
  show "fst (hs_select sc h [] rg key st) = None" by (simp add: hs_select_def)
  assume ok: "hs_ok st" and fit: "\<And>r. r \<in> set cs \<Longrightarrow> clean_id (h r)"
  let ?p = "regionalPool h cs rg"
  have sub: "set ?p \<subseteq> set cs" by (auto simp: regionalPool_def Let_def split: option.splits if_splits)
  have p: "\<And>r. r \<in> set ?p \<Longrightarrow> clean_id (h r)" using sub fit by blast
  show "hs_ok (snd (hs_select sc h cs rg key st))"
    using ok hs_ringFor_ok(2) [where h = h and pool = ?p, OF ok regionalPool_ne p] by (auto simp: hs_select_def Let_def split_def split: option.splits)
  assume ne: "cs \<noteq> []"
  note R = hs_ringFor_ok [where h = h and pool = ?p, OF ok regionalPool_ne [OF ne] p]
  show "\<exists>r \<in> set ?p. fst (hs_select sc h cs rg key st) = Some r"
  proof (cases key)
    case None
    then show ?thesis using ne regionalPool_ne [OF ne, of h rg] by (simp add: hs_select_def Let_def)
  next
    case (Some k)
    obtain ring where ring: "fst (hs_ringFor h ?p st) = Some ring" "fst ` set ring = (\<lambda>r. sn_id (h r)) ` set ?p" using R(1) by blast
    have "ring \<noteq> []" using ring(2) regionalPool_ne [OF ne, of h rg] by auto
    then obtain i where i: "hr_get sc ring k = Some i" "i \<in> (\<lambda>r. sn_id (h r)) ` set ?p" using hr_get_some ring(2) by metis
    then obtain r where "r \<in> set ?p" "jm_get (fold (\<lambda>r m. jm_set (sn_id (h r)) r m) ?p []) i = Some r"
      using byId_lookup [of i h ?p ?p "[]"] by blast
    then show ?thesis using Some ne ring(1) i(1) by (auto simp: hs_select_def Let_def split_def)
  qed
qed


text \<open>
  (C15) Placement: over any cluster whose active nodes have ids without \<^verbatim>\<open>:\<close> or \<^verbatim>\<open>|\<close>, the separators of the signature, and whatever pools the
  strategy has served before, the hash ring strategy with its cached ring picks an active registered
  node, in the preferred region when an active node is there, and answers nothing only when no node
  is active; the cache stays usable. The least-loaded strategy does the same and its choice carries no
  more load than any active node of the pool.
\<close>

theorem placement_sound:
  assumes "hs_ok st" "\<And>r. r \<in> set (cl_getActiveNodes s) \<Longrightarrow> clean_id (cl_heap s r)"
  shows "(case fst (cl_assignNode (hs_select sc) s rg key st) of
      None \<Rightarrow> cl_getActiveNodes s = []
    | Some r \<Rightarrow> r \<in> set (jm_values (cl_nodes s)) \<and> \<not> sn_failed (cl_heap s r) \<and> \<not> sn_draining (cl_heap s r) \<and>
        (\<forall>region q. rg = Some region \<longrightarrow> region \<noteq> [] \<longrightarrow> q \<in> set (cl_getActiveNodes s) \<longrightarrow> sn_region (cl_heap s q) = region \<longrightarrow>
           sn_region (cl_heap s r) = region)) \<and>
    hs_ok (snd (cl_assignNode (hs_select sc) s rg key st)) \<and>
    (case leastLoaded_select (cl_heap s) (cl_getActiveNodes s) rg key of
      None \<Rightarrow> cl_getActiveNodes s = []
    | Some r \<Rightarrow> r \<in> set (regionalPool (cl_heap s) (cl_getActiveNodes s) rg) \<and>
        (\<forall>q \<in> set (regionalPool (cl_heap s) (cl_getActiveNodes s) rg). sn_load (cl_heap s r) \<le> sn_load (cl_heap s q)))"
proof (intro conjI)
  show "case fst (cl_assignNode (hs_select sc) s rg key st) of
      None \<Rightarrow> cl_getActiveNodes s = []
    | Some r \<Rightarrow> r \<in> set (jm_values (cl_nodes s)) \<and> \<not> sn_failed (cl_heap s r) \<and> \<not> sn_draining (cl_heap s r) \<and>
        (\<forall>region q. rg = Some region \<longrightarrow> region \<noteq> [] \<longrightarrow> q \<in> set (cl_getActiveNodes s) \<longrightarrow> sn_region (cl_heap s q) = region \<longrightarrow>
           sn_region (cl_heap s r) = region)"
    by (rule hashRing.assign_active [OF assms])
  show "hs_ok (snd (cl_assignNode (hs_select sc) s rg key st))"
    unfolding cl_assignNode_def by (rule hashRing.select_ok [OF assms])
  let ?p = "regionalPool (cl_heap s) (cl_getActiveNodes s) rg" and ?ld = "\<lambda>r. sn_load (cl_heap s r)"
  let ?m = "foldl (\<lambda>m r. if ?ld r < ?ld m then r else m) (hd ?p) (tl ?p)"
  show "case leastLoaded_select (cl_heap s) (cl_getActiveNodes s) rg key of
      None \<Rightarrow> cl_getActiveNodes s = []
    | Some r \<Rightarrow> r \<in> set ?p \<and> (\<forall>q \<in> set ?p. ?ld r \<le> ?ld q)"
  proof (cases "cl_getActiveNodes s = []")
    case False
    then have ne: "insert (hd ?p) (set (tl ?p)) = set ?p" using regionalPool_ne [OF False, of "cl_heap s" rg] by (cases ?p) auto
    have "?m \<in> set ?p" using foldl_min_mem [of ?ld "hd ?p" "tl ?p"] unfolding ne .
    moreover have "\<forall>q \<in> set ?p. ?ld ?m \<le> ?ld q" using foldl_min_least [of _ "hd ?p" "tl ?p" ?ld] unfolding ne by blast
    ultimately show ?thesis using False by (simp add: leastLoaded_select_def Let_def)
  qed (simp add: leastLoaded_select_def)
qed

definition example_cluster :: cluster where
  "example_cluster = \<lparr>cl_heap = (\<lambda>r. sn_new (if r = 0 then ''a'' else ''b'') (if r = 0 then ''eu'' else ''us'') None),
     cl_nodes = [(''a'', 0), (''b'', 1)], cl_failStreak = [], cl_passStreak = []\<rparr>"

lemma example_cluster_active: "cl_getActiveNodes example_cluster = [0, 1]"
  by (simp add: cl_getActiveNodes_def cl_getNodes_def example_cluster_def sn_new_def)

theorem placement_sound_witness:
  "\<exists>r. fst (cl_assignNode (hs_select hr_len_score) example_cluster (Some ''us'') (Some ''room'') hs_new) = Some r \<and>
     sn_region (cl_heap example_cluster r) = ''us''"
proof -
  have ok: "hs_ok hs_new" by (simp add: hs_ok_def hs_new_def)
  have c: "clean_id (cl_heap example_cluster r)" for r by (simp add: clean_id_def example_cluster_def sn_new_def)
  have us: "1 \<in> set (cl_getActiveNodes example_cluster)" "sn_region (cl_heap example_cluster 1) = ''us''"
    by (simp_all add: example_cluster_active) (simp add: example_cluster_def sn_new_def)
  from placement_sound [where s = example_cluster and sc = hr_len_score and rg = "Some ''us''" and key = "Some ''room''", OF ok c] us
  show ?thesis by (cases "fst (cl_assignNode (hs_select hr_len_score) example_cluster (Some ''us'') (Some ''room'') hs_new)") auto
qed

text \<open>
  The cache key of the hash ring strategy is ambiguous: a node named \<^verbatim>\<open>a:1|b\<close> has the signature of
  the pool of \<^verbatim>\<open>a\<close> and \<^verbatim>\<open>b\<close>, so after a selection among those two the strategy asks the old ring, gets
  an id that is not a candidate, and answers nothing although a node is active.
\<close>

lemma hs_signature_collision:
  assumes "h 0 = sn_new ''a'' [] (Some 1)" "h 1 = sn_new ''b'' [] (Some 1)" "h 2 = sn_new ''a:1|b'' [] (Some 1)"
  shows "let st = snd (hs_select sc h [0, 1] None (Some key) hs_new)
    in fst (hs_select sc h [2] None (Some key) st) = None"
proof -
  have one: "js_nat_str (Suc 0) = ''1''" by (subst js_nat_str.simps) (simp add: char_of_def bit_0)
  have e: "hs_entry (h 0) = ''a:1''" "hs_entry (h 1) = ''b:1''" "hs_entry (h 2) = ''a:1|b:1''" "sn_id (h 2) = ''a:1|b''"
    using assms by (simp_all add: hs_entry_def hs_weight_def sn_new_def one)
  have ids: "sn_id (h 0) = ''a''" "sn_id (h (Suc 0)) = ''b''" using assms by (simp_all add: sn_new_def)
  have sg: "hs_sig h [0, 1] = ''a:1|b:1''" "hs_sig h [2] = ''a:1|b:1''" using e by (simp_all add: hs_sig_def less_eq_char_def)
  obtain ring where r: "hr_add_all [] (hs_nodes h [0, 1]) = Inr ring" "fst ` set ring = fst ` set ([] :: ring) \<union> (\<lambda>r. sn_id (h r)) ` set [0, 1]"
    using hs_add_all by blast
  have ring: "hr_new (hs_nodes h [0, 1]) = Inr ring" by (simp only: hr_new_def r(1))
  have keys: "fst ` set ring = {''a'', ''b''}" unfolding r(2) using ids by simp
  have "ring \<noteq> []"
  proof
    assume "ring = []"
    then show False using keys by simp
  qed
  then obtain i where i: "hr_get sc ring key = Some i" "i \<in> {''a'', ''b''}" using hr_get_some [of ring sc key] unfolding keys by blast
  have i': "i \<noteq> ''a:1|b''" using i(2) by auto
  have "snd (hs_select sc h [0, 1] None (Some key) hs_new) = \<lparr>hs_ring = Some ring, hs_ringSig = ''a:1|b:1''\<rparr>"
    using ring sg by (simp add: hs_select_def regionalPool_def hs_ringFor_def hs_new_def Let_def split_def)
  then show ?thesis
    using i(1) i' sg e(4) by (simp add: hs_select_def regionalPool_def hs_ringFor_def Let_def split_def)
qed

section \<open>Health results\<close>

text \<open>Listeners that leave the nodes' identity and failure flag and the cluster's own books alone.\<close>

definition emit_frame :: "'a cluster_scheme emitter \<Rightarrow> bool" where
  "emit_frame emit \<longleftrightarrow> (\<forall>ev s. cl_failStreak (emit ev s) = cl_failStreak s \<and> cl_passStreak (emit ev s) = cl_passStreak s \<and>
     (\<forall>r. sn_failed (cl_heap (emit ev s) r) = sn_failed (cl_heap s r) \<and> sn_id (cl_heap (emit ev s) r) = sn_id (cl_heap s r)))"

lemma emit_frameD:
  assumes "emit_frame emit"
  shows "cl_failStreak (emit ev s) = cl_failStreak s" "cl_passStreak (emit ev s) = cl_passStreak s"
    "sn_failed (cl_heap (emit ev s) r) = sn_failed (cl_heap s r)" "sn_id (cl_heap (emit ev s) r) = sn_id (cl_heap s r)"
  using assms by (simp_all add: emit_frame_def)

lemma cl_rebalance_frame:
  assumes "emit_frame emit"
  shows "cl_failStreak (cl_rebalance emit s) = cl_failStreak s" "cl_passStreak (cl_rebalance emit s) = cl_passStreak s"
    "sn_failed (cl_heap (cl_rebalance emit s) r) = sn_failed (cl_heap s r)" "sn_id (cl_heap (cl_rebalance emit s) r) = sn_id (cl_heap s r)"
proof -
  have "cl_failStreak (snd (cl_rebalance_loop emit rs b s)) = cl_failStreak s \<and> cl_passStreak (snd (cl_rebalance_loop emit rs b s)) = cl_passStreak s \<and>
      sn_failed (cl_heap (snd (cl_rebalance_loop emit rs b s)) r) = sn_failed (cl_heap s r) \<and>
      sn_id (cl_heap (snd (cl_rebalance_loop emit rs b s)) r) = sn_id (cl_heap s r)" for rs b s
    by (induction rs arbitrary: b s) (simp_all add: Let_def emit_frameD [OF assms])
  then show "cl_failStreak (cl_rebalance emit s) = cl_failStreak s" "cl_passStreak (cl_rebalance emit s) = cl_passStreak s"
    "sn_failed (cl_heap (cl_rebalance emit s) r) = sn_failed (cl_heap s r)" "sn_id (cl_heap (cl_rebalance emit s) r) = sn_id (cl_heap s r)"
    using assms by (simp_all add: cl_rebalance_def split_def Let_def emit_frameD)
qed

text \<open>The number of trailing results equal to \<open>b\<close>.\<close>

definition trailing :: "bool \<Rightarrow> bool list \<Rightarrow> nat" where
  "trailing b bs = length (takeWhile (\<lambda>x. x = b) (rev bs))"

lemma trailing_simps [simp]: "trailing b [] = 0" "trailing b (bs @ [x]) = (if x = b then Suc (trailing b bs) else 0)"
  by (simp_all add: trailing_def)

lemma trailing_suffix: "k \<le> trailing b bs \<longleftrightarrow> (\<exists>ys. bs = ys @ replicate k b)"
proof (induction bs arbitrary: k rule: rev_induct)
  case (snoc x bs)
  show ?case
  proof (cases k)
    case (Suc j)
    then show ?thesis using snoc.IH [of j] by (auto simp: replicate_append_same [symmetric])
  qed simp
qed simp

definition streak_of :: "(string, nat) jsmap \<Rightarrow> string \<Rightarrow> nat" where
  "streak_of m i = (case jm_get m i of Some k \<Rightarrow> k | None \<Rightarrow> 0)"

lemma streak_of_simps [simp]:
  "streak_of (jm_set i k m) j = (if j = i then k else streak_of m j)" "streak_of (jm_delete i m) j = (if j = i then 0 else streak_of m j)"
  by (simp_all add: streak_of_def)

lemma cl_onHealthResult_cases:
  fixes s :: "'a cluster_scheme" and failT recT :: int and r :: nref and healthy :: bool
  assumes "emit_frame emit"
  defines "s' \<equiv> cl_onHealthResult emit failT recT r healthy s" and "i \<equiv> sn_id (cl_heap s r)"
  shows "sn_failed (cl_heap s' q) =
      (if q \<noteq> r then sn_failed (cl_heap s q)
       else if \<not> healthy then sn_failed (cl_heap s r) \<or> failT \<le> int (Suc (streak_of (cl_failStreak s) i))
       else sn_failed (cl_heap s r) \<and> \<not> recT \<le> int (Suc (streak_of (cl_passStreak s) i)))"
    "sn_id (cl_heap s' q) = sn_id (cl_heap s q)"
    "streak_of (cl_failStreak s') j =
      (if j \<noteq> i then streak_of (cl_failStreak s) j
       else if healthy \<or> \<not> sn_failed (cl_heap s r) \<and> failT \<le> int (Suc (streak_of (cl_failStreak s) i)) then 0
       else Suc (streak_of (cl_failStreak s) i))"
    "streak_of (cl_passStreak s') j =
      (if j \<noteq> i then streak_of (cl_passStreak s) j
       else if \<not> healthy then 0
       else if \<not> sn_failed (cl_heap s r) then streak_of (cl_passStreak s) i
       else if recT \<le> int (Suc (streak_of (cl_passStreak s) i)) then 0 else Suc (streak_of (cl_passStreak s) i))"
  using assms(1)
  by (auto simp: s'_def i_def cl_onHealthResult_def Let_def sn_markFailed_def sn_markRecovered_def cl_upd_def cl_rebalance_frame
      emit_frameD sn_stopStatsCollection_def streak_of_def)

text \<open>Health results of several nodes in the order they arrive; those of one node.\<close>

definition health_run :: "'a cluster_scheme emitter \<Rightarrow> int \<Rightarrow> int \<Rightarrow> (nref \<times> bool) list \<Rightarrow> 'a cluster_scheme \<Rightarrow> 'a cluster_scheme" where
  "health_run emit failT recT hs s = fold (\<lambda>(q, b). cl_onHealthResult emit failT recT q b) hs s"

definition results_of :: "nref \<Rightarrow> (nref \<times> bool) list \<Rightarrow> bool list" where
  "results_of r hs = map snd (filter (\<lambda>(q, b). q = r) hs)"

definition health_ok :: "int \<Rightarrow> int \<Rightarrow> nref \<Rightarrow> bool list \<Rightarrow> 'a cluster_scheme \<Rightarrow> bool" where
  "health_ok failT recT r bs s \<longleftrightarrow>
     (let i = sn_id (cl_heap s r) in
      if sn_failed (cl_heap s r)
      then streak_of (cl_passStreak s) i = trailing True bs \<and> int (trailing True bs) < recT
      else streak_of (cl_failStreak s) i = trailing False bs \<and> int (trailing False bs) < failT \<and> streak_of (cl_passStreak s) i = 0)"

lemma health_step:
  assumes "emit_frame emit" "1 \<le> failT" "1 \<le> recT" "health_ok failT recT r bs s"
  shows "health_ok failT recT r (bs @ [b]) (cl_onHealthResult emit failT recT r b s)"
  using assms(2-4) by (auto simp: health_ok_def Let_def cl_onHealthResult_cases [OF assms(1)] split: if_splits)

lemma health_other:
  assumes "emit_frame emit" "q \<noteq> r" "sn_id (cl_heap s q) \<noteq> sn_id (cl_heap s r)" "health_ok failT recT r bs s"
  shows "health_ok failT recT r bs (cl_onHealthResult emit failT recT q b s)"
  using assms(2-4) by (auto simp: health_ok_def Let_def cl_onHealthResult_cases [OF assms(1)] split: if_splits)

lemma health_run_ok:
  assumes "emit_frame emit" "1 \<le> failT" "1 \<le> recT" "\<forall>(q, b) \<in> set hs. q \<noteq> r \<longrightarrow> sn_id (cl_heap s q) \<noteq> sn_id (cl_heap s r)"
    and "\<not> sn_failed (cl_heap s r)" "streak_of (cl_failStreak s) (sn_id (cl_heap s r)) = 0" "streak_of (cl_passStreak s) (sn_id (cl_heap s r)) = 0"
  shows "health_ok failT recT r (results_of r hs) (health_run emit failT recT hs s) \<and>
    (\<forall>q. sn_id (cl_heap (health_run emit failT recT hs s) q) = sn_id (cl_heap s q))"
  using assms(4)
proof (induction hs rule: rev_induct)
  case Nil
  then show ?case using assms(2,5-7) by (simp add: health_ok_def results_of_def health_run_def)
next
  case (snoc x hs)
  obtain q b where x: "x = (q, b)" by fastforce
  let ?t = "health_run emit failT recT hs s"
  have IH: "health_ok failT recT r (results_of r hs) ?t" "\<forall>q. sn_id (cl_heap ?t q) = sn_id (cl_heap s q)"
    using snoc by auto
  have run: "health_run emit failT recT (hs @ [x]) s = cl_onHealthResult emit failT recT q b ?t"
    by (simp add: health_run_def x)
  have ids: "\<forall>p. sn_id (cl_heap (health_run emit failT recT (hs @ [x]) s) p) = sn_id (cl_heap s p)"
    unfolding run using IH(2) by (simp add: cl_onHealthResult_cases(2) [OF assms(1)])
  show ?case
  proof (cases "q = r")
    case True
    then have "results_of r (hs @ [x]) = results_of r hs @ [b]" by (simp add: results_of_def x)
    then show ?thesis using health_step [OF assms(1-3) IH(1), of b] ids True by (simp add: run)
  next
    case False
    then have "results_of r (hs @ [x]) = results_of r hs" by (simp add: results_of_def x)
    moreover have "sn_id (cl_heap ?t q) \<noteq> sn_id (cl_heap ?t r)" using snoc.prems False IH(2) x by auto
    ultimately show ?thesis using health_other [OF assms(1) False _ IH(1), of b] ids by (simp add: run)
  qed
qed

text \<open>
  (C20) Hysteresis of the health checks, with results of other nodes in between and any listeners: after
  \<open>failT\<close> failing results in a row the node is marked failed, after \<open>recT\<close> passing ones it is not, and its
  state changes only on a result that completes such a row.
\<close>

theorem health_hysteresis:
  assumes "emit_frame emit" "1 \<le> failT" "1 \<le> recT" "\<forall>(q, b) \<in> set hs. q \<noteq> r \<longrightarrow> sn_id (cl_heap s q) \<noteq> sn_id (cl_heap s r)"
    and "\<not> sn_failed (cl_heap s r)" "streak_of (cl_failStreak s) (sn_id (cl_heap s r)) = 0" "streak_of (cl_passStreak s) (sn_id (cl_heap s r)) = 0"
  defines "failed \<equiv> \<lambda>hs. sn_failed (cl_heap (health_run emit failT recT hs s) r)"
  shows "((\<exists>ys. results_of r hs = ys @ replicate (nat failT) False) \<longrightarrow> failed hs) \<and>
    ((\<exists>ys. results_of r hs = ys @ replicate (nat recT) True) \<longrightarrow> \<not> failed hs) \<and>
    (failed (hs @ [(r, b)]) \<noteq> failed hs \<longrightarrow>
       (\<exists>ys. results_of r hs @ [b] = ys @ (if b then replicate (nat recT) True else replicate (nat failT) False)))"
proof -
  let ?t = "health_run emit failT recT hs s" and ?bs = "results_of r hs"
  have ok: "health_ok failT recT r ?bs ?t" using health_run_ok [OF assms(1-7)] by blast
  have "failed hs" if "nat failT \<le> trailing False ?bs"
    using ok that assms(2) by (auto simp: failed_def health_ok_def Let_def split: if_splits)
  moreover have "\<not> failed hs" if "nat recT \<le> trailing True ?bs"
    using ok that assms(3) by (auto simp: failed_def health_ok_def Let_def split: if_splits)
  moreover have "nat (if b then recT else failT) \<le> trailing b (?bs @ [b])" if "failed (hs @ [(r, b)]) \<noteq> failed hs"
    using that ok by (auto simp: failed_def health_run_def health_ok_def Let_def cl_onHealthResult_cases(1) [OF assms(1)] nat_le_iff split: if_splits)
  ultimately show ?thesis
    unfolding trailing_suffix by (auto split: if_splits)
qed

theorem health_hysteresis_witness:
  "let r = 0; s = health_run (\<lambda>ev s. s) 3 2 [(0, False), (1, True), (0, True), (0, False), (0, False), (1, False), (0, False)] example_cluster
   in sn_failed (cl_heap s r) \<and> \<not> sn_failed (cl_heap s 1)"
proof -
  let ?hs = "[(0, False), (1, True), (0, True), (0, False), (0, False), (1, False), (0, False)] :: (nref \<times> bool) list"
  have f: "emit_frame (\<lambda>ev (s :: cluster). s)" by (simp add: emit_frame_def)
  have "results_of 0 ?hs = [False, True] @ replicate (nat 3) False" by (simp add: results_of_def numeral_3_eq_3)
  then have "sn_failed (cl_heap (health_run (\<lambda>ev s. s) 3 2 ?hs example_cluster) 0)"
    using health_hysteresis [OF f, of 3 2 ?hs 0 example_cluster] by (auto simp: example_cluster_def sn_new_def streak_of_def)
  moreover have "\<not> sn_failed (cl_heap (health_run (\<lambda>ev s. s) 3 2 ?hs example_cluster) 1)"
    by (simp add: health_run_def example_cluster_def sn_new_def cl_onHealthResult_def sn_markFailed_def cl_upd_def cl_rebalance_def
        cl_getNodes_def sn_stopStatsCollection_def Let_def split_def)
  ultimately show ?thesis by (simp add: Let_def)
qed

end
