(* ===== verification/Cascading.thy ===== *)
theory Cascading
  imports Sfu
begin

text \<open>
  \<^verbatim>\<open>packages/sfu/src/CascadingRouter.ts\<close>: rooms assigned to a primary node and cascaded to others, kept
  consistent with the cluster by the failure tracker. The state is the cluster's, extended by the
  tracker's and the router's.
\<close>

datatype cr_out =
    RoomAssigned string nref
  | CascadeCreated string nref nref
  | RoomDetached string
  | CascadeDropped string nref

record crouter = tracked +
  cr_assignments :: "(string, nref) jsmap"
  cr_cascadeLinks :: "(string, nref list) jsmap"
  cr_log :: "cr_out list"

datatype no_available_node = NoAvailableNode

definition cr_emit :: "cr_out \<Rightarrow> crouter \<Rightarrow> crouter" where
  "cr_emit x s = s\<lparr>cr_log := cr_log s @ [x]\<rparr>"

definition cr_links :: "string \<Rightarrow> crouter \<Rightarrow> nref list" where
  "cr_links roomId s = (case jm_get (cr_cascadeLinks s) roomId of Some ls \<Rightarrow> ls | None \<Rightarrow> [])"

fun cr_drop_cascades :: "string \<Rightarrow> nref list \<Rightarrow> crouter \<Rightarrow> crouter" where
  "cr_drop_cascades roomId [] s = s"
| "cr_drop_cascades roomId (n # ns) s =
     cr_drop_cascades roomId ns (cr_emit (CascadeDropped roomId n) (cl_upd n (sn_untrackRoom roomId) s))"

text \<open>The first loop of \<^verbatim>\<open>_handleNodeGone\<close>, over a copy of the assignments.\<close>

fun cr_gone_primary :: "nref \<Rightarrow> (string \<times> nref) list \<Rightarrow> crouter \<Rightarrow> crouter" where
  "cr_gone_primary node [] s = s"
| "cr_gone_primary node ((roomId, assigned) # rest) s =
     cr_gone_primary node rest
       (if sn_id (cl_heap s assigned) = sn_id (cl_heap s node)
        then (let s1 = cl_upd node (sn_untrackRoom roomId) s;
                  s2 = s1\<lparr>cr_assignments := jm_delete roomId (cr_assignments s1)\<rparr>;
                  s3 = cr_drop_cascades roomId (cr_links roomId s2) s2
              in cr_emit (RoomDetached roomId) (s3\<lparr>cr_cascadeLinks := jm_delete roomId (cr_cascadeLinks s3)\<rparr>))
        else s)"

text \<open>The second loop, over a copy of the cascade links.\<close>

fun cr_gone_links :: "nref \<Rightarrow> (string \<times> nref list) list \<Rightarrow> crouter \<Rightarrow> crouter" where
  "cr_gone_links node [] s = s"
| "cr_gone_links node ((roomId, nodes) # rest) s =
     cr_gone_links node rest
       (let filtered = filter (\<lambda>n. sn_id (cl_heap s n) \<noteq> sn_id (cl_heap s node)) nodes
        in if length filtered \<noteq> length nodes
           then (let s1 = cr_emit (CascadeDropped roomId node) (cl_upd node (sn_untrackRoom roomId) s)
                 in if length filtered = 0 then s1\<lparr>cr_cascadeLinks := jm_delete roomId (cr_cascadeLinks s1)\<rparr>
                    else s1\<lparr>cr_cascadeLinks := jm_set roomId filtered (cr_cascadeLinks s1)\<rparr>)
           else s)"

definition cr_handleNodeGone :: "nref \<Rightarrow> crouter \<Rightarrow> crouter" where
  "cr_handleNodeGone node s =
     (let s1 = cr_gone_primary node (cr_assignments s) s in cr_gone_links node (cr_cascadeLinks s1) s1)"

definition cr_attachRoom ::
  "((nref \<Rightarrow> sfu_node) \<Rightarrow> nref list \<Rightarrow> string option \<Rightarrow> string option \<Rightarrow> 'p \<Rightarrow> nref option \<times> 'p) \<Rightarrow>
   string \<Rightarrow> string option \<Rightarrow> crouter \<times> 'p \<Rightarrow> (no_available_node + nref) \<times> crouter \<times> 'p" where
  "cr_attachRoom select roomId preferredRegion sp =
     (let (s, st) = sp; (sel, st1) = cl_assignNode select s preferredRegion (Some roomId) st
      in case sel of
           None \<Rightarrow> (Inl NoAvailableNode, s, st1)
         | Some node \<Rightarrow>
             (case jm_get (cr_assignments s) roomId of
                Some existing \<Rightarrow>
                  (Inr node,
                   (if sn_id (cl_heap s existing) \<noteq> sn_id (cl_heap s node)
                    then (let links = cr_links roomId s
                          in if \<not> (\<exists>n \<in> set links. sn_id (cl_heap s n) = sn_id (cl_heap s node))
                             then cr_emit (CascadeCreated roomId existing node)
                                    (cl_upd node (sn_trackRoom roomId)
                                       (s\<lparr>cr_cascadeLinks := jm_set roomId (links @ [node]) (cr_cascadeLinks s)\<rparr>))
                             else s)
                    else s), st1)
              | None \<Rightarrow>
                  (Inr node,
                   cr_emit (RoomAssigned roomId node)
                     (cl_upd node (sn_trackRoom roomId) (s\<lparr>cr_assignments := jm_set roomId node (cr_assignments s)\<rparr>)), st1)))"

fun cr_untrack_all :: "string \<Rightarrow> nref list \<Rightarrow> crouter \<Rightarrow> crouter" where
  "cr_untrack_all roomId [] s = s"
| "cr_untrack_all roomId (n # ns) s = cr_untrack_all roomId ns (cl_upd n (sn_untrackRoom roomId) s)"

definition cr_detachRoom :: "string \<Rightarrow> crouter \<Rightarrow> bool \<times> crouter" where
  "cr_detachRoom roomId s =
     (case jm_get (cr_assignments s) roomId of
        None \<Rightarrow> (False, s)
      | Some primary \<Rightarrow>
          (let s1 = cl_upd primary (sn_untrackRoom roomId) s;
               s2 = s1\<lparr>cr_assignments := jm_delete roomId (cr_assignments s1)\<rparr>;
               s3 = cr_untrack_all roomId (cr_links roomId s2) s2
           in (True, cr_emit (RoomDetached roomId) (s3\<lparr>cr_cascadeLinks := jm_delete roomId (cr_cascadeLinks s3)\<rparr>))))"

definition cr_assignmentCount :: "crouter \<Rightarrow> nat" where
  "cr_assignmentCount s = length (cr_assignments s)"

definition cr_getAssignment :: "string \<Rightarrow> crouter \<Rightarrow> nref option" where
  "cr_getAssignment roomId s = jm_get (cr_assignments s) roomId"

definition cr_getCascadeNodes :: "string \<Rightarrow> crouter \<Rightarrow> nref list" where
  "cr_getCascadeNodes roomId s = cr_links roomId s"

text \<open>The listeners of a cluster with a router: the tracker, which calls \<open>cr_handleNodeGone\<close>.\<close>

definition cr_listen :: "crouter emitter" where
  "cr_listen = tk_emit cr_handleNodeGone"

text \<open>Everything that can happen to a cluster with a router.\<close>

datatype cr_op =
    CrAttach string "string option"
  | CrDetach string
  | CrLoad nref int
  | CrFail nref
  | CrRecover nref
  | CrHealth nref bool
  | CrDrain nref
  | CrDrainTimeout nref
  | CrDrainDone nref
  | CrAddNode nref
  | CrRemoveNode string
  | CrRebalance

definition cr_exec ::
  "((nref \<Rightarrow> sfu_node) \<Rightarrow> nref list \<Rightarrow> string option \<Rightarrow> string option \<Rightarrow> 'p \<Rightarrow> nref option \<times> 'p) \<Rightarrow> int \<Rightarrow> int \<Rightarrow>
   cr_op \<Rightarrow> crouter \<times> 'p \<Rightarrow> crouter \<times> 'p" where
  "cr_exec select failT recT x sp =
     (let (s, st) = sp in
      case x of
        CrAttach roomId region \<Rightarrow> snd (cr_attachRoom select roomId region sp)
      | CrDetach roomId \<Rightarrow> (snd (cr_detachRoom roomId s), st)
      | CrLoad r n \<Rightarrow> (sn_reportLoad cr_listen r n s, st)
      | CrFail r \<Rightarrow> (sn_markFailed cr_listen r s, st)
      | CrRecover r \<Rightarrow> (sn_markRecovered cr_listen r s, st)
      | CrHealth r b \<Rightarrow> (cl_onHealthResult cr_listen failT recT r b s, st)
      | CrDrain r \<Rightarrow> (sn_drain cr_listen r s, st)
      | CrDrainTimeout r \<Rightarrow> (sn_drainTimeout r s, st)
      | CrDrainDone r \<Rightarrow> (sn_drainDone cr_listen r s, st)
      | CrAddNode r \<Rightarrow> (cl_addNode cr_listen r s, st)
      | CrRemoveNode i \<Rightarrow> (snd (cl_removeNode cr_listen i s), st)
      | CrRebalance \<Rightarrow> (cl_rebalance cr_listen s, st))"

text \<open>A draining node is removed (or replaced) only once its drain is over: the tracker ignores it otherwise.\<close>

definition cr_enabled :: "cr_op \<Rightarrow> crouter \<Rightarrow> bool" where
  "cr_enabled x s \<longleftrightarrow>
     (case x of
        CrRemoveNode i \<Rightarrow> (\<forall>r. jm_get (cl_nodes s) i = Some r \<longrightarrow> \<not> sn_draining (cl_heap s r))
      | CrAddNode r \<Rightarrow> (\<forall>q. jm_get (cl_nodes s) (sn_id (cl_heap s r)) = Some q \<longrightarrow> \<not> sn_draining (cl_heap s q))
      | _ \<Rightarrow> True)"

inductive cr_step ::
  "((nref \<Rightarrow> sfu_node) \<Rightarrow> nref list \<Rightarrow> string option \<Rightarrow> string option \<Rightarrow> 'p \<Rightarrow> nref option \<times> 'p) \<Rightarrow> crouter \<times> 'p \<Rightarrow> crouter \<times> 'p \<Rightarrow> bool"
  for select where
  step: "cr_enabled x (fst sp) \<Longrightarrow> cr_step select sp (cr_exec select failT recT x sp)"

inductive_cases cr_stepE: "cr_step select sp sp'"

text \<open>A router on a cluster without nodes; the heap holds the nodes that will be added.\<close>

definition cr_new :: "(nref \<Rightarrow> sfu_node) \<Rightarrow> crouter" where
  "cr_new heap = \<lparr>cl_heap = heap, cl_nodes = [], cl_failStreak = [], cl_passStreak = [], tk_listeners = [], tk_gone = [],
     cr_assignments = [], cr_cascadeLinks = [], cr_log = []\<rparr>"

section \<open>Consistency\<close>

definition cr_rooms :: "crouter \<Rightarrow> nref \<Rightarrow> string set" where
  "cr_rooms s q = {room. jm_get (cr_assignments s) room = Some q \<or> q \<in> set (cr_links room s)}"

text \<open>
  The books: each node tracks exactly the rooms that name it; cascades exist only beside a primary and
  name each node once; two nodes in use never share an id.
\<close>

definition cr_books :: "crouter \<Rightarrow> bool" where
  "cr_books s \<longleftrightarrow>
     jm_wf (cr_assignments s) \<and> jm_wf (cr_cascadeLinks s) \<and>
     (\<forall>q. set (sn_rooms (cl_heap s q)) = cr_rooms s q) \<and>
     (\<forall>room. cr_links room s \<noteq> [] \<longrightarrow> jm_get (cr_assignments s) room \<noteq> None) \<and>
     (\<forall>room p. jm_get (cr_assignments s) room = Some p \<longrightarrow> distinct (p # cr_links room s))"

definition cr_used :: "crouter \<Rightarrow> nref set" where
  "cr_used s = {q. cr_rooms s q \<noteq> {}}"

text \<open>The cluster's side: the tracker listens to the registered nodes, and remembers as gone none that is up.\<close>

definition cr_watch :: "crouter \<Rightarrow> bool" where
  "cr_watch s \<longleftrightarrow>
     jm_wf (cl_nodes s) \<and> (\<forall>i r. jm_get (cl_nodes s) i = Some r \<longrightarrow> sn_id (cl_heap s r) = i) \<and>
     (\<forall>i. jm_get (tk_listeners s) i = jm_get (cl_nodes s) i) \<and>
     (\<forall>i r. jm_get (cl_nodes s) i = Some r \<longrightarrow> i \<in> set (tk_gone s) \<longrightarrow> sn_failed (cl_heap s r))"

definition cr_inv :: "crouter \<Rightarrow> bool" where
  "cr_inv s \<longleftrightarrow> cr_books s \<and> cr_watch s \<and>
     (\<forall>q \<in> cr_used s. jm_get (cl_nodes s) (sn_id (cl_heap s q)) = Some q \<and> \<not> sn_failed (cl_heap s q))"

end
