(* ===== verification/CascadingInv.thy ===== *)
theory CascadingInv
  imports Cascading
begin

text \<open>
  The router of cascades stays consistent with the cluster: every operation of the cluster and of the router keeps the invariant of \<open>Cascading\<close>. The
  clearing of a lost node is the delicate part, since its two loops run over copies of the maps they change.
\<close>

section \<open>What clearing leaves alone\<close>

definition sn_core :: "sfu_node \<Rightarrow> sfu_node" where
  "sn_core n = n\<lparr>sn_rooms := [], sn_drainWaiting := False\<rparr>"

definition frame :: "crouter \<Rightarrow> crouter \<Rightarrow> bool" where
  "frame s s' \<longleftrightarrow> cl_nodes s' = cl_nodes s \<and> tk_listeners s' = tk_listeners s \<and> tk_gone s' = tk_gone s \<and>
     (\<forall>q. sn_core (cl_heap s' q) = sn_core (cl_heap s q))"

lemma frame_refl [simp, intro]: "frame s s"
  by (simp add: frame_def)

lemma frame_trans [trans]: "frame s t \<Longrightarrow> frame t u \<Longrightarrow> frame s u"
  by (simp add: frame_def)

lemma sn_coreD:
  assumes "sn_core m = sn_core n"
  shows "sn_id m = sn_id n" "sn_failed m = sn_failed n" "sn_draining m = sn_draining n"
  using assms by (metis sn_core_def sfu_node.select_convs sfu_node.update_convs sfu_node.surjective)+

lemma frame_node: "frame s s' \<Longrightarrow> sn_id (cl_heap s' q) = sn_id (cl_heap s q) \<and> sn_failed (cl_heap s' q) = sn_failed (cl_heap s q)"
  using sn_coreD unfolding frame_def by blast

lemma sn_untrack_core [simp]: "sn_core (sn_untrackRoom room n) = sn_core n" "sn_core (sn_trackRoom room n) = sn_core n"
  by (simp_all add: sn_core_def sn_untrackRoom_def sn_trackRoom_def Let_def)

lemma sn_rooms_track [simp]:
  "set (sn_rooms (sn_untrackRoom room n)) = set (sn_rooms n) - {room}" "set (sn_rooms (sn_trackRoom room n)) = insert room (set (sn_rooms n))"
  by (auto simp: sn_untrackRoom_def sn_trackRoom_def Let_def js_del_def filter_empty_conv)

lemma cl_upd_fields [simp]:
  "cl_nodes (cl_upd r f s) = cl_nodes s" "cl_heap (cl_upd r f s) q = (if q = r then f (cl_heap s r) else cl_heap s q)"
  by (simp_all add: cl_upd_def)

lemma cl_upd_router [simp]:
  "cr_assignments (cl_upd r f s) = cr_assignments s" "cr_cascadeLinks (cl_upd r f s) = cr_cascadeLinks s"
  "tk_listeners (cl_upd r f s) = tk_listeners s" "tk_gone (cl_upd r f s) = tk_gone s"
  by (simp_all add: cl_upd_def)

lemma cr_emit_fields [simp]:
  "cr_assignments (cr_emit x s) = cr_assignments s" "cr_cascadeLinks (cr_emit x s) = cr_cascadeLinks s" "cl_heap (cr_emit x s) = cl_heap s"
  "cl_nodes (cr_emit x s) = cl_nodes s" "tk_listeners (cr_emit x s) = tk_listeners s" "tk_gone (cr_emit x s) = tk_gone s"
  by (simp_all add: cr_emit_def)

lemma frame_steps [simp, intro]:
  "frame s (cr_emit x s)" "frame s (cl_upd r (sn_untrackRoom room) s)" "frame s (cl_upd r (sn_trackRoom room) s)"
  "frame s (s\<lparr>cr_assignments := a\<rparr>)" "frame s (s\<lparr>cr_cascadeLinks := b\<rparr>)"
  by (simp_all add: frame_def)

lemma cr_links_cong: "cr_cascadeLinks s' = cr_cascadeLinks s \<Longrightarrow> cr_links room s' = cr_links room s"
  by (simp add: cr_links_def)

text \<open>Both loops that stop nodes from tracking a room.\<close>

lemma drop_cascades:
  "cr_assignments (cr_drop_cascades room ns s) = cr_assignments s" "cr_cascadeLinks (cr_drop_cascades room ns s) = cr_cascadeLinks s"
  "frame s (cr_drop_cascades room ns s)"
  "set (sn_rooms (cl_heap (cr_drop_cascades room ns s) q)) = set (sn_rooms (cl_heap s q)) - (if q \<in> set ns then {room} else {})"
proof (induction ns arbitrary: s)
  case (Cons n ns)
  { case 3 show ?case using frame_trans [OF frame_trans [OF frame_steps(2) frame_steps(1)] Cons(3)] by simp }
qed auto

lemma untrack_all:
  "cr_assignments (cr_untrack_all room ns s) = cr_assignments s" "cr_cascadeLinks (cr_untrack_all room ns s) = cr_cascadeLinks s"
  "frame s (cr_untrack_all room ns s)"
  "set (sn_rooms (cl_heap (cr_untrack_all room ns s) q)) = set (sn_rooms (cl_heap s q)) - (if q \<in> set ns then {room} else {})"
proof (induction ns arbitrary: s)
  case (Cons n ns)
  { case 3 show ?case using frame_trans [OF frame_steps(2) Cons(3)] by simp }
qed auto

section \<open>Forgetting a room\<close>

text \<open>What detaching a room and losing its primary have in common.\<close>

definition forgets :: "string \<Rightarrow> crouter \<Rightarrow> crouter \<Rightarrow> bool" where
  "forgets room s s' \<longleftrightarrow>
     cr_assignments s' = jm_delete room (cr_assignments s) \<and> cr_cascadeLinks s' = jm_delete room (cr_cascadeLinks s) \<and> frame s s' \<and>
     (\<forall>q. set (sn_rooms (cl_heap s' q)) = set (sn_rooms (cl_heap s q)) -
        (if jm_get (cr_assignments s) room = Some q \<or> q \<in> set (cr_links room s) then {room} else {}))"

lemma forgets_rooms: "forgets room s s' \<Longrightarrow> cr_rooms s' q = cr_rooms s q - {room}"
  by (auto simp: forgets_def cr_rooms_def cr_links_def split: if_splits)

lemma forgets_books:
  assumes b: "cr_books s" and f: "forgets room s s'"
  shows "cr_books s'"
  unfolding cr_books_def
proof (intro conjI allI impI)
  have l: "cr_links r s' = (if r = room then [] else cr_links r s)" for r using f by (simp add: forgets_def cr_links_def)
  show "jm_wf (cr_assignments s')" "jm_wf (cr_cascadeLinks s')" using b f by (auto simp: cr_books_def forgets_def)
  show "set (sn_rooms (cl_heap s' q)) = cr_rooms s' q" for q
  proof -
    have e: "set (sn_rooms (cl_heap s q)) = cr_rooms s q" using b by (simp add: cr_books_def)
    have "room \<in> cr_rooms s q \<longleftrightarrow> jm_get (cr_assignments s) room = Some q \<or> q \<in> set (cr_links room s)" by (simp add: cr_rooms_def)
    then show ?thesis using f e unfolding forgets_rooms [OF f] by (auto simp: forgets_def)
  qed
  show "jm_get (cr_assignments s') r \<noteq> None" if "cr_links r s' \<noteq> []" for r
    using that b f by (auto simp: l forgets_def cr_books_def split: if_splits)
  show "distinct (p # cr_links r s')" if "jm_get (cr_assignments s') r = Some p" for r p
    using that b f by (auto simp: l forgets_def cr_books_def split: if_splits)
qed

lemma detach_forgets: "jm_get (cr_assignments s) room \<noteq> None \<Longrightarrow> forgets room s (snd (cr_detachRoom room s))"
proof -
  assume "jm_get (cr_assignments s) room \<noteq> None"
  then obtain p where p: "jm_get (cr_assignments s) room = Some p" by blast
  define s2 where "s2 = (cl_upd p (sn_untrackRoom room) s)\<lparr>cr_assignments := jm_delete room (cr_assignments s)\<rparr>"
  define s3 where "s3 = cr_untrack_all room (cr_links room s2) s2"
  have l: "cr_links room s2 = cr_links room s" by (simp add: cr_links_def s2_def)
  have "frame s s2" unfolding s2_def by (rule frame_trans [OF frame_steps(2) frame_steps(4)])
  also have "frame s2 s3" unfolding s3_def by (rule untrack_all)
  finally have fr: "frame s s3" .
  have "forgets room s (cr_emit (RoomDetached room) (s3\<lparr>cr_cascadeLinks := jm_delete room (cr_cascadeLinks s3)\<rparr>))"
    unfolding forgets_def using p untrack_all [where room = room and ns = "cr_links room s2" and s = s2, folded s3_def] frame_trans [OF fr frame_trans [OF frame_steps(5) frame_steps(1)]]
    by (auto simp: l) (auto simp: s2_def split: if_splits)
  then show ?thesis using p by (simp add: cr_detachRoom_def Let_def s2_def s3_def)
qed

section \<open>Losing a node\<close>

text \<open>The first loop forgets the rooms whose primary is lost. Ids identify the nodes in use.\<close>

definition own_id :: "nref \<Rightarrow> crouter \<Rightarrow> bool" where
  "own_id node s \<longleftrightarrow> (\<forall>q. cr_rooms s q \<noteq> {} \<longrightarrow> sn_id (cl_heap s q) = sn_id (cl_heap s node) \<longrightarrow> q = node)"

definition shrinks :: "crouter \<Rightarrow> crouter \<Rightarrow> bool" where
  "shrinks s s' \<longleftrightarrow> frame s s' \<and> (\<forall>q. cr_rooms s' q \<subseteq> cr_rooms s q)"

lemma shrinks_refl [simp, intro]: "shrinks s s"
  by (simp add: shrinks_def)

lemma shrinks_trans [trans]: "shrinks s t \<Longrightarrow> shrinks t u \<Longrightarrow> shrinks s u"
  unfolding shrinks_def by (meson frame_trans subset_trans)

lemma own_id_shrinks: "own_id node s \<Longrightarrow> shrinks s s' \<Longrightarrow> own_id node s'"
  unfolding own_id_def shrinks_def using frame_node by (metis subset_empty)

lemma forgets_shrinks: "forgets room s s' \<Longrightarrow> shrinks s s'"
  by (auto simp: shrinks_def forgets_rooms) (simp add: forgets_def)

definition lose_room :: "nref \<Rightarrow> string \<Rightarrow> crouter \<Rightarrow> crouter" where
  "lose_room node room s =
     (let s1 = cl_upd node (sn_untrackRoom room) s;
          s2 = s1\<lparr>cr_assignments := jm_delete room (cr_assignments s1)\<rparr>;
          s3 = cr_drop_cascades room (cr_links room s2) s2
      in cr_emit (RoomDetached room) (s3\<lparr>cr_cascadeLinks := jm_delete room (cr_cascadeLinks s3)\<rparr>))"

lemma lose_room_forgets:
  assumes p: "jm_get (cr_assignments s) room = Some node"
  shows "forgets room s (lose_room node room s)"
proof -
  define s2 where "s2 = (cl_upd node (sn_untrackRoom room) s)\<lparr>cr_assignments := jm_delete room (cr_assignments s)\<rparr>"
  define s3 where "s3 = cr_drop_cascades room (cr_links room s2) s2"
  have l: "cr_links room s2 = cr_links room s" by (simp add: cr_links_def s2_def)
  have "frame s s2" unfolding s2_def by (rule frame_trans [OF frame_steps(2) frame_steps(4)])
  also have "frame s2 s3" unfolding s3_def by (rule drop_cascades)
  finally have fr: "frame s s3" .
  have "forgets room s (cr_emit (RoomDetached room) (s3\<lparr>cr_cascadeLinks := jm_delete room (cr_cascadeLinks s3)\<rparr>))"
    unfolding forgets_def using p drop_cascades [where room = room and ns = "cr_links room s2" and s = s2, folded s3_def] frame_trans [OF fr frame_trans [OF frame_steps(5) frame_steps(1)]]
    by (auto simp: l) (auto simp: s2_def split: if_splits)
  then show ?thesis by (simp add: lose_room_def Let_def s2_def s3_def)
qed

lemma gone_primary:
  assumes "cr_books s" "own_id node s" "distinct (map fst xs)" "\<And>room a. (room, a) \<in> set xs \<Longrightarrow> jm_get (cr_assignments s) room = Some a"
  shows "cr_books (cr_gone_primary node xs s) \<and> shrinks s (cr_gone_primary node xs s) \<and>
    (\<forall>room. jm_get (cr_assignments (cr_gone_primary node xs s)) room = Some node \<longrightarrow>
       jm_get (cr_assignments s) room = Some node \<and> (room, node) \<notin> set xs)"
  using assms
proof (induction xs arbitrary: s)
  case (Cons x xs)
  obtain room a where x: "x = (room, a)" by fastforce
  have a: "jm_get (cr_assignments s) room = Some a" using Cons.prems(4) x by simp
  show ?case
  proof (cases "sn_id (cl_heap s a) = sn_id (cl_heap s node)")
    case True
    have "room \<in> cr_rooms s a" using a by (simp add: cr_rooms_def)
    then have an: "a = node" using Cons.prems(2) True unfolding own_id_def by blast
    define t where "t = lose_room node room s"
    have f: "forgets room s t" unfolding t_def using a an by (intro lose_room_forgets) simp
    have as: "jm_get (cr_assignments t) r = (if r = room then None else jm_get (cr_assignments s) r)" for r using f by (simp add: forgets_def)
    have "cr_books t" "shrinks s t" using forgets_books [OF Cons.prems(1) f] forgets_shrinks [OF f] by simp_all
    moreover have "cr_gone_primary node (x # xs) s = cr_gone_primary node xs t" using True x by (simp add: t_def lose_room_def)
    moreover have "jm_get (cr_assignments t) r = Some b" if "(r, b) \<in> set xs" for r b
      using Cons.prems(3,4) that x as by (auto simp: rev_image_eqI)
    ultimately show ?thesis using Cons.IH [of t] Cons.prems(3) own_id_shrinks [OF Cons.prems(2)] shrinks_trans [of s t] x an as
      by (auto split: if_splits)
  next
    case False
    then have "cr_gone_primary node (x # xs) s = cr_gone_primary node xs s" using x by simp
    moreover have "(room, node) \<noteq> x" using False x by auto
    ultimately show ?thesis using Cons.IH [of s] Cons.prems x False by auto
  qed
qed simp

text \<open>The second loop takes the node out of the cascades of the other rooms.\<close>

definition unlink :: "nref \<Rightarrow> string \<Rightarrow> nref list \<Rightarrow> crouter \<Rightarrow> crouter" where
  "unlink node room nodes s =
     (let filtered = filter (\<lambda>n. sn_id (cl_heap s n) \<noteq> sn_id (cl_heap s node)) nodes
      in if length filtered \<noteq> length nodes
         then (let s1 = cr_emit (CascadeDropped room node) (cl_upd node (sn_untrackRoom room) s)
               in if length filtered = 0 then s1\<lparr>cr_cascadeLinks := jm_delete room (cr_cascadeLinks s1)\<rparr>
                  else s1\<lparr>cr_cascadeLinks := jm_set room filtered (cr_cascadeLinks s1)\<rparr>)
         else s)"

lemma gone_links_Cons: "cr_gone_links node ((room, nodes) # xs) s = cr_gone_links node xs (unlink node room nodes s)"
  by (simp add: unlink_def)

lemma unlink_effect:
  assumes o: "own_id node s" and l: "jm_get (cr_cascadeLinks s) room = Some nodes"
  shows "cr_assignments (unlink node room nodes s) = cr_assignments s" "frame s (unlink node room nodes s)"
    "cr_links r (unlink node room nodes s) = (if r = room then filter (\<lambda>n. n \<noteq> node) nodes else cr_links r s)"
    "set (sn_rooms (cl_heap (unlink node room nodes s) q)) = set (sn_rooms (cl_heap s q)) - (if q = node \<and> node \<in> set nodes then {room} else {})"
    "jm_wf (cr_cascadeLinks s) \<Longrightarrow> jm_wf (cr_cascadeLinks (unlink node room nodes s))"
    "r \<noteq> room \<Longrightarrow> jm_get (cr_cascadeLinks (unlink node room nodes s)) r = jm_get (cr_cascadeLinks s) r"
proof -
  have id: "sn_id (cl_heap s n) = sn_id (cl_heap s node) \<longleftrightarrow> n = node" if "n \<in> set nodes" for n
  proof -
    have "room \<in> cr_rooms s n" using that l by (simp add: cr_rooms_def cr_links_def)
    then show ?thesis using o unfolding own_id_def by blast
  qed
  have f: "filter (\<lambda>n. sn_id (cl_heap s n) \<noteq> sn_id (cl_heap s node)) nodes = filter (\<lambda>n. n \<noteq> node) nodes"
    by (rule filter_cong [OF refl]) (simp add: id)
  have len: "length (filter (\<lambda>n. n \<noteq> node) nodes) \<noteq> length nodes \<longleftrightarrow> node \<in> set nodes"
    by (metis (mono_tags, lifting) filter_id_conv filter_True length_filter_less less_irrefl)
  have same: "node \<notin> set nodes \<Longrightarrow> filter (\<lambda>n. n \<noteq> node) nodes = nodes" by (rule filter_True) auto
  define t where "t = cr_emit (CascadeDropped room node) (cl_upd node (sn_untrackRoom room) s)"
  have t: "frame s t" "cr_assignments t = cr_assignments s" "cr_cascadeLinks t = cr_cascadeLinks s"
    "set (sn_rooms (cl_heap t q)) = set (sn_rooms (cl_heap s q)) - (if q = node then {room} else {})" for q
    unfolding t_def by (rule frame_trans [OF frame_steps(2) frame_steps(1)]) simp_all
  have u: "unlink node room nodes s = (if node \<notin> set nodes then s
    else if filter (\<lambda>n. n \<noteq> node) nodes = [] then t\<lparr>cr_cascadeLinks := jm_delete room (cr_cascadeLinks s)\<rparr>
    else t\<lparr>cr_cascadeLinks := jm_set room (filter (\<lambda>n. n \<noteq> node) nodes) (cr_cascadeLinks s)\<rparr>)"
    unfolding unlink_def Let_def f len t_def [symmetric] by (auto simp: t(3))
  have "frame s (t\<lparr>cr_cascadeLinks := x\<rparr>)" for x by (rule frame_trans [OF t(1) frame_steps(5)])
  then show "frame s (unlink node room nodes s)" by (simp add: u)
  show "cr_links r (unlink node room nodes s) = (if r = room then filter (\<lambda>n. n \<noteq> node) nodes else cr_links r s)"
    using l same by (simp add: u cr_links_def)
  show "set (sn_rooms (cl_heap (unlink node room nodes s) q)) = set (sn_rooms (cl_heap s q)) - (if q = node \<and> node \<in> set nodes then {room} else {})"
    using t(4) by (simp add: u)
qed (auto simp: unlink_def Let_def)

lemma unlink_keeps:
  assumes b: "cr_books s" and o: "own_id node s" and l: "jm_get (cr_cascadeLinks s) room = Some nodes"
    and p: "\<And>r. jm_get (cr_assignments s) r \<noteq> Some node"
  shows "cr_books (unlink node room nodes s)" "shrinks s (unlink node room nodes s)"
proof -
  let ?t = "unlink node room nodes s"
  note e = unlink_effect [OF o l]
  have lr: "cr_links room s = nodes" using l by (simp add: cr_links_def)
  have rooms: "cr_rooms ?t q = cr_rooms s q - (if q = node \<and> node \<in> set nodes then {room} else {})" for q
    using p [of room] lr by (auto simp: cr_rooms_def e)
  show "shrinks s ?t" using e(2) rooms by (auto simp: shrinks_def)
  have sub: "set (cr_links r ?t) \<subseteq> set (cr_links r s)" "distinct (cr_links r s) \<Longrightarrow> distinct (cr_links r ?t)" for r
    using lr by (auto simp: e)
  show "cr_books ?t"
    unfolding cr_books_def
  proof (intro conjI allI impI)
    show "jm_wf (cr_assignments ?t)" "jm_wf (cr_cascadeLinks ?t)" using b e by (simp_all add: cr_books_def)
    show "set (sn_rooms (cl_heap ?t q)) = cr_rooms ?t q" for q using b by (simp add: rooms e cr_books_def)
    show "jm_get (cr_assignments ?t) r \<noteq> None" if "cr_links r ?t \<noteq> []" for r
    proof -
      have "cr_links r s \<noteq> []" using that sub(1) [of r] by (cases "cr_links r ?t") auto
      then show ?thesis using b by (simp add: e(1) cr_books_def)
    qed
    show "distinct (a # cr_links r ?t)" if "jm_get (cr_assignments ?t) r = Some a" for r a
      using that b sub [of r] by (auto simp: e(1) cr_books_def)
  qed
qed

lemma gone_links:
  assumes "cr_books s" "own_id node s" "distinct (map fst xs)" "\<And>room ns. (room, ns) \<in> set xs \<Longrightarrow> jm_get (cr_cascadeLinks s) room = Some ns"
    and "\<And>r. jm_get (cr_assignments s) r \<noteq> Some node"
  shows "cr_books (cr_gone_links node xs s) \<and> shrinks s (cr_gone_links node xs s) \<and>
    cr_assignments (cr_gone_links node xs s) = cr_assignments s \<and>
    (\<forall>room. node \<in> set (cr_links room (cr_gone_links node xs s)) \<longrightarrow> node \<in> set (cr_links room s) \<and> room \<notin> fst ` set xs)"
  using assms
proof (induction xs arbitrary: s)
  case (Cons x xs)
  obtain room nodes where x: "x = (room, nodes)" by fastforce
  define t where "t = unlink node room nodes s"
  have l: "jm_get (cr_cascadeLinks s) room = Some nodes" using Cons.prems(4) x by simp
  note e = unlink_effect [OF Cons.prems(2) l, folded t_def]
  have k: "cr_books t" "shrinks s t" unfolding t_def by (rule unlink_keeps [OF Cons.prems(1,2) l Cons.prems(5)])+
  have pre: "jm_get (cr_cascadeLinks t) r = Some ns" if "(r, ns) \<in> set xs" for r ns
  proof -
    have "r \<noteq> room" using that Cons.prems(3) x by (auto simp: rev_image_eqI)
    then show ?thesis using that Cons.prems(4) by (simp add: e(6))
  qed
  have "cr_books (cr_gone_links node xs t) \<and> shrinks t (cr_gone_links node xs t) \<and> cr_assignments (cr_gone_links node xs t) = cr_assignments t \<and>
    (\<forall>room. node \<in> set (cr_links room (cr_gone_links node xs t)) \<longrightarrow> node \<in> set (cr_links room t) \<and> room \<notin> fst ` set xs)"
    using Cons.prems by (intro Cons.IH k(1) own_id_shrinks [OF Cons.prems(2) k(2)] pre) (simp_all add: e(1))
  moreover have "cr_gone_links node (x # xs) s = cr_gone_links node xs t" by (simp only: x gone_links_Cons t_def)
  ultimately show ?case using shrinks_trans [OF k(2)] x by (auto simp: e(1,3) split: if_splits)
qed simp

lemma gone_clears:
  assumes b: "cr_books s" and o: "own_id node s"
  shows "cr_books (cr_handleNodeGone node s)" "shrinks s (cr_handleNodeGone node s)" "cr_rooms (cr_handleNodeGone node s) node = {}"
proof -
  define t where "t = cr_gone_primary node (cr_assignments s) s"
  define u where "u = cr_gone_links node (cr_cascadeLinks t) t"
  have wf: "jm_wf (cr_assignments s)" using b by (simp add: cr_books_def)
  have t: "cr_books t" "shrinks s t" "\<And>r. jm_get (cr_assignments t) r \<noteq> Some node"
  proof -
    have g: "cr_books t \<and> shrinks s t \<and>
      (\<forall>room. jm_get (cr_assignments t) room = Some node \<longrightarrow>
         jm_get (cr_assignments s) room = Some node \<and> (room, node) \<notin> set (cr_assignments s))"
      unfolding t_def
    proof (rule gone_primary [OF b o])
      show "distinct (map fst (cr_assignments s))" using wf by (simp add: jm_wf_def)
      show "jm_get (cr_assignments s) room = Some a" if "(room, a) \<in> set (cr_assignments s)" for room a
        using that jm_mem_iff [OF wf] by blast
    qed
    then show "cr_books t" "shrinks s t" by simp_all
    fix r
    have "jm_get (cr_assignments s) r = Some node \<Longrightarrow> (r, node) \<in> set (cr_assignments s)" by (rule jm_get_SomeD)
    then show "jm_get (cr_assignments t) r \<noteq> Some node" using g by blast
  qed
  have wt: "jm_wf (cr_cascadeLinks t)" using t(1) by (simp add: cr_books_def)
  have u: "cr_books u" "shrinks t u" "cr_assignments u = cr_assignments t" "\<And>r. node \<notin> set (cr_links r u)"
  proof -
    have g: "cr_books u \<and> shrinks t u \<and> cr_assignments u = cr_assignments t \<and>
      (\<forall>room. node \<in> set (cr_links room u) \<longrightarrow> node \<in> set (cr_links room t) \<and> room \<notin> fst ` set (cr_cascadeLinks t))"
      unfolding u_def
    proof (rule gone_links [OF t(1) own_id_shrinks [OF o t(2)] _ _ t(3)])
      show "distinct (map fst (cr_cascadeLinks t))" using wt by (simp add: jm_wf_def)
      show "jm_get (cr_cascadeLinks t) room = Some ns" if "(room, ns) \<in> set (cr_cascadeLinks t)" for room ns
        using that jm_mem_iff [OF wt] by blast
    qed
    then show "cr_books u" "shrinks t u" "cr_assignments u = cr_assignments t" by simp_all
    fix r
    have "node \<in> set (cr_links r t) \<Longrightarrow> r \<in> fst ` set (cr_cascadeLinks t)"
      by (cases "jm_get (cr_cascadeLinks t) r") (simp add: cr_links_def, force simp: cr_links_def dest!: jm_get_SomeD)
    then show "node \<notin> set (cr_links r u)" using g by blast
  qed
  have e: "cr_handleNodeGone node s = u" by (simp add: cr_handleNodeGone_def t_def u_def Let_def)
  show "cr_books (cr_handleNodeGone node s)" "shrinks s (cr_handleNodeGone node s)" unfolding e using u(1,2) t(2) shrinks_trans by blast+
  show "cr_rooms (cr_handleNodeGone node s) node = {}" unfolding e using u(3,4) t(3) by (simp add: cr_rooms_def)
qed

section \<open>Steps that keep the books\<close>

lemma cr_rooms_cong:
  "cr_assignments s' = cr_assignments s \<Longrightarrow> cr_cascadeLinks s' = cr_cascadeLinks s \<Longrightarrow> cr_rooms s' q = cr_rooms s q"
  by (simp add: cr_rooms_def cr_links_def)

lemma cr_books_cong:
  assumes "cr_books s" "cr_assignments s' = cr_assignments s" "cr_cascadeLinks s' = cr_cascadeLinks s"
    and "\<And>q. sn_rooms (cl_heap s' q) = sn_rooms (cl_heap s q)"
  shows "cr_books s'"
  using assms(1,4) unfolding cr_books_def cr_rooms_cong [OF assms(2,3)] cr_links_cong [OF assms(3)] assms(2,3) by simp

text \<open>A change that does not concern the router: neither ids, failures nor rooms of nodes, nor a map.\<close>

lemma cr_inv_cong:
  assumes i: "cr_inv s" and a: "cr_assignments s' = cr_assignments s" and l: "cr_cascadeLinks s' = cr_cascadeLinks s"
    and m: "cl_nodes s' = cl_nodes s" "tk_listeners s' = tk_listeners s" "tk_gone s' = tk_gone s"
    and n: "\<And>q. sn_id (cl_heap s' q) = sn_id (cl_heap s q)" "\<And>q. sn_failed (cl_heap s' q) = sn_failed (cl_heap s q)"
      "\<And>q. sn_rooms (cl_heap s' q) = sn_rooms (cl_heap s q)"
  shows "cr_inv s'"
proof -
  have b: "cr_books s'" using i by (intro cr_books_cong [OF _ a l n(3)]) (simp add: cr_inv_def)
  show ?thesis using i b unfolding cr_inv_def cr_watch_def cr_used_def m n cr_rooms_cong [OF a l] by simp
qed

lemma cr_watchD:
  assumes "cr_watch s"
  shows "jm_wf (cl_nodes s)" "jm_get (cl_nodes s) k = Some r \<Longrightarrow> sn_id (cl_heap s r) = k" "jm_get (tk_listeners s) k = jm_get (cl_nodes s) k"
    "jm_get (cl_nodes s) k = Some r \<Longrightarrow> k \<in> set (tk_gone s) \<Longrightarrow> sn_failed (cl_heap s r)"
  using assms unfolding cr_watch_def by blast+

lemma frame_watch: "frame s s' \<Longrightarrow> cr_watch s' = cr_watch s"
  using frame_node [of s s'] by (simp add: frame_def cr_watch_def)

text \<open>Once a node is lost, nothing names it; the other nodes keep what the books say.\<close>

lemma gone_inv:
  assumes b: "cr_books s" and w: "cr_watch s"
    and u: "\<And>q. q \<in> cr_used s \<Longrightarrow> q \<noteq> node \<Longrightarrow>
      jm_get (cl_nodes s) (sn_id (cl_heap s q)) = Some q \<and> \<not> sn_failed (cl_heap s q) \<and> sn_id (cl_heap s q) \<noteq> sn_id (cl_heap s node)"
  shows "cr_inv (cr_handleNodeGone node s)"
proof -
  let ?t = "cr_handleNodeGone node s"
  have o: "own_id node s" using u unfolding own_id_def cr_used_def by blast
  note g = gone_clears [OF b o]
  have f: "frame s ?t" using g(2) by (simp add: shrinks_def)
  have "jm_get (cl_nodes ?t) (sn_id (cl_heap ?t q)) = Some q \<and> \<not> sn_failed (cl_heap ?t q)" if q: "q \<in> cr_used ?t" for q
  proof -
    have "q \<noteq> node" "q \<in> cr_used s" using q g(2,3) unfolding cr_used_def shrinks_def by auto
    then show ?thesis using u f frame_node [OF f] by (simp add: frame_def)
  qed
  then show ?thesis unfolding cr_inv_def using g(1) w frame_watch [OF f] by simp
qed

section \<open>The operations of the router\<close>

definition picks :: "((nref \<Rightarrow> sfu_node) \<Rightarrow> nref list \<Rightarrow> string option \<Rightarrow> string option \<Rightarrow> 'p \<Rightarrow> nref option \<times> 'p) \<Rightarrow> bool" where
  "picks select \<longleftrightarrow> (\<forall>h cs rg key st r. fst (select h cs rg key st) = Some r \<longrightarrow> r \<in> set cs)"

text \<open>Assigning a room and cascading it add a node that is registered and up.\<close>

lemma adds_inv:
  assumes i: "cr_inv s" and node: "jm_get (cl_nodes s) (sn_id (cl_heap s node)) = Some node" "\<not> sn_failed (cl_heap s node)"
    and f: "frame s t" and r: "\<And>q. cr_rooms t q = (if q = node then insert room (cr_rooms s q) else cr_rooms s q)"
    and h: "\<And>q. set (sn_rooms (cl_heap t q)) = (if q = node then insert room (set (sn_rooms (cl_heap s q))) else set (sn_rooms (cl_heap s q)))"
    and wf: "jm_wf (cr_assignments t)" "jm_wf (cr_cascadeLinks t)"
    and l: "\<And>k. cr_links k t \<noteq> [] \<Longrightarrow> jm_get (cr_assignments t) k \<noteq> None"
    and d: "\<And>k p. jm_get (cr_assignments t) k = Some p \<Longrightarrow> distinct (p # cr_links k t)"
  shows "cr_inv t"
proof -
  have "cr_books t" unfolding cr_books_def using i wf l d by (simp add: r h cr_inv_def cr_books_def)
  moreover have "cr_watch t" using i frame_watch [OF f] by (simp add: cr_inv_def)
  moreover have "jm_get (cl_nodes t) (sn_id (cl_heap t q)) = Some q \<and> \<not> sn_failed (cl_heap t q)" if "q \<in> cr_used t" for q
  proof (cases "q = node")
    case True
    then show ?thesis using node f frame_node [OF f] by (simp add: frame_def)
  next
    case False
    then have "q \<in> cr_used s" using that by (simp add: cr_used_def r)
    then show ?thesis using i f frame_node [OF f] by (simp add: frame_def cr_inv_def)
  qed
  ultimately show ?thesis by (simp add: cr_inv_def)
qed

definition assign_room :: "string \<Rightarrow> nref \<Rightarrow> crouter \<Rightarrow> crouter" where
  "assign_room room node s =
     cr_emit (RoomAssigned room node) (cl_upd node (sn_trackRoom room) (s\<lparr>cr_assignments := jm_set room node (cr_assignments s)\<rparr>))"

definition cascade_room :: "string \<Rightarrow> nref \<Rightarrow> nref \<Rightarrow> crouter \<Rightarrow> crouter" where
  "cascade_room room existing node s =
     cr_emit (CascadeCreated room existing node)
       (cl_upd node (sn_trackRoom room) (s\<lparr>cr_cascadeLinks := jm_set room (cr_links room s @ [node]) (cr_cascadeLinks s)\<rparr>))"

lemma assign_room_inv:
  assumes i: "cr_inv s" and node: "jm_get (cl_nodes s) (sn_id (cl_heap s node)) = Some node" "\<not> sn_failed (cl_heap s node)"
    and none: "jm_get (cr_assignments s) room = None"
  shows "cr_inv (assign_room room node s)"
proof (rule adds_inv [OF i node, where room = room])
  have nl: "cr_links room s = []" using i none unfolding cr_inv_def cr_books_def by blast
  have l: "cr_links k (assign_room room node s) = cr_links k s" for k by (simp add: assign_room_def cr_links_def)
  have a: "cr_assignments (assign_room room node s) = jm_set room node (cr_assignments s)" by (simp add: assign_room_def)
  show "frame s (assign_room room node s)"
    unfolding assign_room_def by (rule frame_trans [OF frame_steps(4) frame_trans [OF frame_steps(3) frame_steps(1)]])
  show "cr_rooms (assign_room room node s) q = (if q = node then insert room (cr_rooms s q) else cr_rooms s q)" for q
    using none nl by (auto simp: cr_rooms_def l a)
  show "set (sn_rooms (cl_heap (assign_room room node s) q)) =
    (if q = node then insert room (set (sn_rooms (cl_heap s q))) else set (sn_rooms (cl_heap s q)))" for q
    by (simp add: assign_room_def)
  show "jm_wf (cr_assignments (assign_room room node s))" "jm_wf (cr_cascadeLinks (assign_room room node s))"
    using i by (simp_all add: assign_room_def cr_inv_def cr_books_def)
  show "jm_get (cr_assignments (assign_room room node s)) k \<noteq> None" if "cr_links k (assign_room room node s) \<noteq> []" for k
    using i that by (simp add: l a cr_inv_def cr_books_def)
  show "distinct (p # cr_links k (assign_room room node s))" if "jm_get (cr_assignments (assign_room room node s)) k = Some p" for k p
    using i that nl by (auto simp: l a cr_inv_def cr_books_def split: if_splits)
qed

lemma cascade_room_inv:
  assumes i: "cr_inv s" and node: "jm_get (cl_nodes s) (sn_id (cl_heap s node)) = Some node" "\<not> sn_failed (cl_heap s node)"
    and p: "jm_get (cr_assignments s) room = Some e" "e \<noteq> node" "node \<notin> set (cr_links room s)"
  shows "cr_inv (cascade_room room e node s)"
proof (rule adds_inv [OF i node, where room = room])
  let ?t = "cascade_room room e node s"
  have l: "cr_links k ?t = (if k = room then cr_links room s @ [node] else cr_links k s)" for k by (simp add: cascade_room_def cr_links_def)
  have a: "cr_assignments ?t = cr_assignments s" by (simp add: cascade_room_def)
  show "frame s ?t"
    unfolding cascade_room_def by (rule frame_trans [OF frame_steps(5) frame_trans [OF frame_steps(3) frame_steps(1)]])
  show "cr_rooms ?t q = (if q = node then insert room (cr_rooms s q) else cr_rooms s q)" for q
    by (auto simp: cr_rooms_def l a)
  show "set (sn_rooms (cl_heap ?t q)) = (if q = node then insert room (set (sn_rooms (cl_heap s q))) else set (sn_rooms (cl_heap s q)))" for q
    by (simp add: cascade_room_def)
  show "jm_wf (cr_assignments ?t)" "jm_wf (cr_cascadeLinks ?t)" using i by (simp_all add: cascade_room_def cr_inv_def cr_books_def)
  show "jm_get (cr_assignments ?t) k \<noteq> None" if "cr_links k ?t \<noteq> []" for k
    using i that p(1) by (auto simp: l a cr_inv_def cr_books_def split: if_splits)
  show "distinct (x # cr_links k ?t)" if "jm_get (cr_assignments ?t) k = Some x" for k x
    using i that p by (auto simp: l a cr_inv_def cr_books_def split: if_splits)
qed
lemma attach_inv:
  assumes i: "cr_inv s" and sel: "picks select"
  shows "cr_inv (fst (snd (cr_attachRoom select room rg (s, st))))"
proof -
  obtain sel st1 where a: "cl_assignNode select s rg (Some room) st = (sel, st1)" by fastforce
  show ?thesis
  proof (cases sel)
    case None
    then show ?thesis using i a by (simp add: cr_attachRoom_def)
  next
    case (Some node)
    have "node \<in> set (cl_getActiveNodes s)" using a Some sel unfolding cl_assignNode_def picks_def by (metis fst_conv)
    then obtain k where "(k, node) \<in> set (cl_nodes s)" and up: "\<not> sn_failed (cl_heap s node)"
      by (auto simp: cl_getActiveNodes_def cl_getNodes_def)
    then have node: "jm_get (cl_nodes s) (sn_id (cl_heap s node)) = Some node"
      using i jm_mem_iff [of "cl_nodes s" k node] unfolding cr_inv_def cr_watch_def by blast
    show ?thesis
    proof (cases "jm_get (cr_assignments s) room")
      case None
      then show ?thesis using assign_room_inv [OF i node up None] a Some by (simp add: cr_attachRoom_def assign_room_def)
    next
      case (Some e)
      have "cr_inv (cascade_room room e node s)"
        if "sn_id (cl_heap s e) \<noteq> sn_id (cl_heap s node)" "\<forall>n \<in> set (cr_links room s). sn_id (cl_heap s n) \<noteq> sn_id (cl_heap s node)"
        using that by (intro cascade_room_inv [OF i node up Some]) auto
      then show ?thesis using i a \<open>sel = Some node\<close> Some by (simp add: cr_attachRoom_def cascade_room_def Let_def)
    qed
  qed
qed

lemma detach_inv:
  assumes i: "cr_inv s"
  shows "cr_inv (snd (cr_detachRoom room s))"
proof (cases "jm_get (cr_assignments s) room")
  case None
  then show ?thesis using i by (simp add: cr_detachRoom_def)
next
  case (Some p)
  let ?t = "snd (cr_detachRoom room s)"
  have f: "forgets room s ?t" using Some by (intro detach_forgets) simp
  have fr: "frame s ?t" using f by (simp add: forgets_def)
  have "cr_books ?t" using i by (intro forgets_books [OF _ f]) (simp add: cr_inv_def)
  moreover have "cr_used ?t \<subseteq> cr_used s" by (auto simp: cr_used_def forgets_rooms [OF f])
  ultimately show ?thesis using i fr frame_node [OF fr] frame_watch [OF fr] by (auto simp: cr_inv_def frame_def)
qed

section \<open>The operations of the cluster\<close>

lemma cr_listen_quiet [simp]:
  "cr_listen (NodeLoad r n) s = s" "cr_listen (NodeOverloaded r) s = s" "cr_listen (NodeDraining r) s = s" "cr_listen (NodeDrained r) s = s"
  "cr_listen ClusterOverloaded s = s" "cr_listen (ClusterError m) s = s" "cr_listen (OnRebalance m b) s = s"
  by (simp_all add: cr_listen_def tk_emit_def)

lemma rebalance_loop_quiet: "snd (cl_rebalance_loop cr_listen rs needs s) = s"
  by (induction rs arbitrary: needs) (simp_all add: Let_def)

lemma rebalance_quiet [simp]: "cl_rebalance cr_listen s = s"
  using rebalance_loop_quiet [of "cl_getNodes s" False s] by (auto simp: cl_rebalance_def split: prod.splits)

lemma load_inv: "cr_inv s \<Longrightarrow> cr_inv (sn_reportLoad cr_listen r n s)"
  by (rule cr_inv_cong [of s]) (simp_all add: sn_reportLoad_def cl_checkAllOverloaded_def Let_def)

lemma drain_inv:
  "cr_inv s \<Longrightarrow> cr_inv (sn_drain cr_listen r s)" "cr_inv s \<Longrightarrow> cr_inv (sn_drainTimeout r s)" "cr_inv s \<Longrightarrow> cr_inv (sn_drainDone cr_listen r s)"
  by (rule cr_inv_cong [of s]; simp add: sn_drain_def sn_drainTimeout_def sn_drainDone_def sn_stopStatsCollection_def Let_def)+

lemma unused_inv:
  assumes i: "cr_inv s" and q: "r \<notin> cr_used s" and a: "cr_assignments s' = cr_assignments s" and l: "cr_cascadeLinks s' = cr_cascadeLinks s"
    and w: "cr_watch s'" and m: "cl_nodes s' = cl_nodes s"
    and n: "\<And>q. sn_id (cl_heap s' q) = sn_id (cl_heap s q)" "\<And>q. q \<noteq> r \<Longrightarrow> sn_failed (cl_heap s' q) = sn_failed (cl_heap s q)"
      "\<And>q. sn_rooms (cl_heap s' q) = sn_rooms (cl_heap s q)"
  shows "cr_inv s'"
proof -
  have b: "cr_books s'" using i by (intro cr_books_cong [OF _ a l n(3)]) (simp add: cr_inv_def)
  have u: "cr_used s' = cr_used s" unfolding cr_used_def cr_rooms_cong [OF a l] ..
  have "jm_get (cl_nodes s') (sn_id (cl_heap s' p)) = Some p \<and> \<not> sn_failed (cl_heap s' p)" if "p \<in> cr_used s'" for p
  proof -
    have "p \<noteq> r" "p \<in> cr_used s" using q that u by auto
    then show ?thesis using i n m by (simp add: cr_inv_def)
  qed
  then show ?thesis unfolding cr_inv_def using b w by blast
qed

lemma registered_used: "cr_inv s \<Longrightarrow> q \<in> cr_used s \<Longrightarrow> jm_get (cl_nodes s) (sn_id (cl_heap s q)) = Some q \<and> \<not> sn_failed (cl_heap s q)"
  by (simp add: cr_inv_def)

lemma failed_inv:
  assumes i: "cr_inv s"
  shows "cr_inv (sn_markFailed cr_listen r s)"
proof (cases "sn_failed (cl_heap s r)")
  case True
  then show ?thesis using i by (simp add: sn_markFailed_def)
next
  case False
  define t where "t = cl_upd r (\<lambda>x. let x1 = sn_stopStatsCollection (x\<lparr>sn_failed := True\<rparr>)
                            in if sn_draining x1 then x1\<lparr>sn_drainWaiting := False\<rparr> else x1) s"
  have e: "sn_markFailed cr_listen r s = cr_listen (NodeFailed r) t" using False by (simp add: sn_markFailed_def t_def)
  have t: "cr_assignments t = cr_assignments s" "cr_cascadeLinks t = cr_cascadeLinks s" "cl_nodes t = cl_nodes s"
    "tk_listeners t = tk_listeners s" "tk_gone t = tk_gone s"
    by (simp_all add: t_def)
  have n: "sn_id (cl_heap t q) = sn_id (cl_heap s q)" "sn_failed (cl_heap t q) = (q = r \<or> sn_failed (cl_heap s q))" "sn_rooms (cl_heap t q) = sn_rooms (cl_heap s q)" for q
    by (simp_all add: t_def sn_stopStatsCollection_def Let_def)
  have ws: "cr_watch s" using i by (simp add: cr_inv_def)
  have w: "cr_watch t" using i unfolding cr_inv_def cr_watch_def t n by blast
  have b: "cr_books t" using i by (intro cr_books_cong [OF _ t(1,2) n(3)]) (simp add: cr_inv_def)
  show ?thesis
  proof (cases "jm_get (tk_listeners s) (sn_id (cl_heap s r)) = Some r")
    case True
    define g where "g = t\<lparr>tk_gone := js_add (sn_id (cl_heap s r)) (tk_gone s)\<rparr>"
    have reg: "jm_get (cl_nodes s) (sn_id (cl_heap s r)) = Some r" using True cr_watchD(3) [OF ws] by simp
    then have "sn_id (cl_heap s r) \<notin> set (tk_gone s)" using cr_watchD(4) [OF ws] False by blast
    then have "cr_listen (NodeFailed r) t = cr_handleNodeGone r g" using True by (simp add: cr_listen_def tk_emit_def tk_fireGone_def n t g_def)
    moreover have "cr_inv (cr_handleNodeGone r g)"
    proof (rule gone_inv)
      show "cr_books g" by (rule cr_books_cong [OF b]) (simp_all add: g_def)
      show "cr_watch g"
      proof -
        have "sn_failed (cl_heap t q)" if "jm_get (cl_nodes t) k = Some q" "k \<in> set (js_add (sn_id (cl_heap s r)) (tk_gone s))" for k q
        proof (cases "k = sn_id (cl_heap s r)")
          case True
          then have "q = r" using that(1) reg by (simp add: t)
          then show ?thesis by (simp add: n)
        next
          case False
          then have "k \<in> set (tk_gone s)" using that(2) by simp
          then show ?thesis using cr_watchD(4) [OF ws, of k q] that(1) by (simp add: t n)
        qed
        moreover have "cl_nodes g = cl_nodes t" "cl_heap g = cl_heap t" "tk_listeners g = tk_listeners t" "tk_gone g = js_add (sn_id (cl_heap s r)) (tk_gone s)"
          by (simp_all add: g_def)
        ultimately show ?thesis using w unfolding cr_watch_def by metis
      qed
      fix q assume q: "q \<in> cr_used g" "q \<noteq> r"
      have uq: "q \<in> cr_used s" using q(1) by (simp add: cr_used_def cr_rooms_def cr_links_def g_def t)
      show "jm_get (cl_nodes g) (sn_id (cl_heap g q)) = Some q \<and> \<not> sn_failed (cl_heap g q) \<and> sn_id (cl_heap g q) \<noteq> sn_id (cl_heap g r)"
        using registered_used [OF i uq] q(2) reg by (auto simp: g_def t n)
    qed
    ultimately show ?thesis using e by simp
  next
    case no: False
    then have "r \<notin> cr_used s" using registered_used [OF i, of r] cr_watchD(3) [OF ws] by auto
    moreover have "cr_listen (NodeFailed r) t = t" using no by (simp add: cr_listen_def tk_emit_def n t)
    ultimately show ?thesis unfolding e using unused_inv [OF i _ t(1,2) w t(3) n(1) _ n(3)] by (simp add: n)
  qed
qed

lemma recovered_inv:
  assumes i: "cr_inv s"
  shows "cr_inv (sn_markRecovered cr_listen r s)"
proof (cases "sn_failed (cl_heap s r)")
  case True
  let ?t = "sn_markRecovered cr_listen r s"
  have u: "r \<notin> cr_used s" using registered_used [OF i] True by blast
  have n: "sn_id (cl_heap ?t q) = sn_id (cl_heap s q)" "sn_failed (cl_heap ?t q) = (q \<noteq> r \<and> sn_failed (cl_heap s q))" "sn_rooms (cl_heap ?t q) = sn_rooms (cl_heap s q)" for q
    using True by (simp_all add: sn_markRecovered_def cr_listen_def tk_emit_def)
  have m: "cr_assignments ?t = cr_assignments s" "cr_cascadeLinks ?t = cr_cascadeLinks s" "cl_nodes ?t = cl_nodes s" "tk_listeners ?t = tk_listeners s"
    "tk_gone ?t = (if jm_get (tk_listeners s) (sn_id (cl_heap s r)) = Some r then js_del (sn_id (cl_heap s r)) (tk_gone s) else tk_gone s)"
    using True by (simp_all add: sn_markRecovered_def cr_listen_def tk_emit_def)
  have w: "cr_watch s" using i by (simp add: cr_inv_def)
  have "q \<noteq> r \<and> sn_failed (cl_heap s q)" if q: "jm_get (cl_nodes s) k = Some q" "k \<in> set (tk_gone ?t)" for k q
  proof -
    have k: "sn_id (cl_heap s q) = k" "k \<in> set (tk_gone s)" using q cr_watchD(2) [OF w] by (auto simp: m split: if_splits)
    have "k \<notin> set (tk_gone ?t)" if "q = r"
    proof -
      have "jm_get (tk_listeners s) (sn_id (cl_heap s r)) = Some r" using that q(1) k(1) cr_watchD(3) [OF w] by simp
      then show ?thesis using that k(1) by (simp add: m)
    qed
    then show ?thesis using q k cr_watchD(4) [OF w] by blast
  qed
  then have "cr_watch ?t" using w unfolding cr_watch_def m n by blast
  then show ?thesis using unused_inv [OF i u m(1,2) _ m(3) n(1) _ n(3)] by (simp add: n)
next
  case False
  then show ?thesis using i by (simp add: sn_markRecovered_def)
qed
lemma health_inv:
  assumes i: "cr_inv s"
  shows "cr_inv (cl_onHealthResult cr_listen failT recT r b s)"
proof -
  have k: "cr_inv (t\<lparr>cl_passStreak := x\<rparr>)" "cr_inv (t\<lparr>cl_failStreak := x\<rparr>)" if "cr_inv t" for t x
    by (rule cr_inv_cong [OF that]; simp)+
  show ?thesis using i unfolding cl_onHealthResult_def Let_def by (simp add: k failed_inv recovered_inv)
qed

lemma removed_inv:
  assumes i: "cr_inv s" and d: "\<And>r. jm_get (cl_nodes s) k = Some r \<Longrightarrow> \<not> sn_draining (cl_heap s r)"
  shows "cr_inv (snd (cl_removeNode cr_listen k s)) \<and> jm_get (cl_nodes (snd (cl_removeNode cr_listen k s))) k = None \<and>
    (\<forall>q. sn_id (cl_heap (snd (cl_removeNode cr_listen k s)) q) = sn_id (cl_heap s q))"
proof (cases "jm_get (cl_nodes s) k")
  case None
  then show ?thesis using i by (simp add: cl_removeNode_def)
next
  case (Some r)
  define t where "t = s\<lparr>cl_nodes := jm_delete k (cl_nodes s), cl_failStreak := jm_delete k (cl_failStreak s),
    cl_passStreak := jm_delete k (cl_passStreak s), tk_listeners := jm_delete k (tk_listeners s)\<rparr>"
  define g where "g = t\<lparr>tk_gone := js_add k (tk_gone s)\<rparr>"
  have w: "cr_watch s" using i by (simp add: cr_inv_def)
  have rk: "sn_id (cl_heap s r) = k" using cr_watchD(2) [OF w Some] .
  have e: "snd (cl_removeNode cr_listen k s) = (if k \<in> set (tk_gone s) then t else cr_handleNodeGone r g)"
    using Some d [OF Some] rk by (simp add: cl_removeNode_def cr_listen_def tk_emit_def tk_detach_def tk_fireGone_def Let_def t_def g_def)
  have tg: "cr_books t" "cr_books g" using i by (auto simp: cr_inv_def t_def g_def intro: cr_books_cong)
  have wt: "cr_watch t" "cr_watch g" using w by (auto simp: cr_watch_def t_def g_def)
  have u: "jm_get (cl_nodes t) (sn_id (cl_heap t q)) = Some q \<and> \<not> sn_failed (cl_heap t q) \<and> sn_id (cl_heap t q) \<noteq> sn_id (cl_heap t r)"
    if "q \<in> cr_used s" "q \<noteq> r" for q
    using registered_used [OF i that(1)] that(2) Some rk by (auto simp: t_def)
  have us: "cr_used t = cr_used s" "cr_used g = cr_used s" by (simp_all add: cr_used_def cr_rooms_def cr_links_def t_def g_def)
  show ?thesis
  proof (cases "k \<in> set (tk_gone s)")
    case True
    then have "sn_failed (cl_heap s r)" using cr_watchD(4) [OF w Some] by blast
    then have "r \<notin> cr_used s" using registered_used [OF i] by blast
    then have "cr_inv t" unfolding cr_inv_def us using tg(1) wt(1) u by blast
    then show ?thesis unfolding e using True by (simp add: t_def)
  next
    case False
    have "cr_inv (cr_handleNodeGone r g)"
      by (rule gone_inv [OF tg(2) wt(2)]) (use u in \<open>simp add: us, simp add: g_def\<close>)
    moreover have f: "frame g (cr_handleNodeGone r g)"
    proof -
      have "q = r" if "cr_rooms g q \<noteq> {}" "sn_id (cl_heap g q) = sn_id (cl_heap g r)" for q
      proof -
        have "q \<in> cr_used s" using that(1) us(2) by (auto simp: cr_used_def)
        then show ?thesis using u [of q] that(2) by (auto simp: g_def)
      qed
      then have "own_id r g" unfolding own_id_def by blast
      then show ?thesis using gone_clears(2) [OF tg(2)] by (simp add: shrinks_def)
    qed
    moreover have "jm_get (cl_nodes g) k = None" "sn_id (cl_heap g q) = sn_id (cl_heap s q)" for q by (simp_all add: g_def t_def)
    ultimately show ?thesis unfolding e using False frame_node [OF f] by (simp add: frame_def)
  qed
qed

lemma added_inv:
  assumes i: "cr_inv s" and d: "\<And>q. jm_get (cl_nodes s) (sn_id (cl_heap s r)) = Some q \<Longrightarrow> \<not> sn_draining (cl_heap s q)"
  shows "cr_inv (cl_addNode cr_listen r s)"
proof -
  define k where "k = sn_id (cl_heap s r)"
  define t where "t = (if jm_has (cl_nodes s) k then snd (cl_removeNode cr_listen k s) else s)"
  have t: "cr_inv t" "jm_get (cl_nodes t) k = None" "sn_id (cl_heap t r) = k"
    using i removed_inv [OF i d] by (auto simp: t_def k_def jm_has_def)
  have w: "cr_watch t" using t(1) by (simp add: cr_inv_def)
  have nl: "\<not> jm_has (tk_listeners t) k" using t(2) by (simp add: jm_has_def cr_watchD(3) [OF w])
  define a where "a = t\<lparr>cl_nodes := jm_set k r (cl_nodes t), tk_gone := js_del k (tk_gone t), tk_listeners := jm_set k r (tk_listeners t)\<rparr>"
  have e: "cl_addNode cr_listen r s = a"
    using nl t(3) unfolding cl_addNode_def Let_def k_def [symmetric] t_def [symmetric]
    by (simp add: cr_listen_def tk_emit_def tk_attach_def Let_def a_def)
  have "cr_books a" using t(1) by (auto simp: cr_inv_def a_def intro: cr_books_cong)
  moreover have "cr_watch a" using w t(3) by (auto simp: cr_watch_def a_def)
  moreover have "jm_get (cl_nodes a) (sn_id (cl_heap a q)) = Some q \<and> \<not> sn_failed (cl_heap a q)" if "q \<in> cr_used a" for q
  proof -
    have "q \<in> cr_used t" using that by (simp add: cr_used_def cr_rooms_def cr_links_def a_def)
    then show ?thesis using registered_used [OF t(1)] t(2) by (fastforce simp: a_def)
  qed
  ultimately show ?thesis unfolding e cr_inv_def by blast
qed

lemma cr_exec_inv:
  assumes "cr_inv (fst sp)" "picks select" "cr_enabled x (fst sp)"
  shows "cr_inv (fst (cr_exec select failT recT x sp))"
proof -
  obtain s st where sp: "sp = (s, st)" by fastforce
  show ?thesis
  proof (cases x)
    case (CrAttach k rg) then show ?thesis using assms attach_inv by (simp add: cr_exec_def sp)
  next
    case (CrAddNode r) then show ?thesis using assms added_inv by (simp add: cr_exec_def sp cr_enabled_def)
  next
    case (CrRemoveNode k) then show ?thesis using assms removed_inv by (simp add: cr_exec_def sp cr_enabled_def)
  qed (use assms in \<open>simp_all add: cr_exec_def sp detach_inv load_inv failed_inv recovered_inv health_inv drain_inv\<close>)
qed

section \<open>The strategies\<close>

text \<open>What the router relies on: a strategy answers one of its candidates, or nothing.\<close>

locale candidates =
  fixes select :: "(nref \<Rightarrow> sfu_node) \<Rightarrow> nref list \<Rightarrow> string option \<Rightarrow> string option \<Rightarrow> 'p \<Rightarrow> nref option \<times> 'p"
  assumes picks: "picks select"
begin

sublocale routed: safety "\<lambda>sp. \<exists>heap. (\<forall>q. sn_rooms (heap q) = []) \<and> fst sp = cr_new heap" "cr_step select" "\<lambda>sp. cr_inv (fst sp)"
proof
  fix sp sp' :: "crouter \<times> 'p"
  show "cr_inv (fst sp)" if "\<exists>heap. (\<forall>q. sn_rooms (heap q) = []) \<and> fst sp = cr_new heap"
    using that by (auto simp: cr_inv_def cr_books_def cr_watch_def cr_used_def cr_rooms_def cr_links_def cr_new_def)
  show "cr_inv (fst sp')" if "cr_inv (fst sp)" "cr_step select sp sp'"
    using that picks by (auto elim!: cr_stepE intro: cr_exec_inv)
qed

lemma consistent:
  "(\<And>q. sn_rooms (heap q) = []) \<Longrightarrow> (cr_step select)\<^sup>*\<^sup>* (cr_new heap, st) sp \<Longrightarrow> cr_inv (fst sp)"
  using routed.reachable_good [of "(cr_new heap, st)" sp] by auto

end

lemma regionalPool_subset: "set (regionalPool h cs rg) \<subseteq> set cs"
  by (auto simp: regionalPool_def Let_def split: option.splits if_splits)

lemma byId_mem: "jm_get (fold (\<lambda>r m. jm_set (f r) r m) pool m) k = Some r \<Longrightarrow> r \<in> set pool \<or> jm_get m k = Some r"
  by (induction pool arbitrary: m) (fastforce split: if_splits)+

interpretation leastLoaded_routed: candidates ll_select
proof
  show "picks ll_select"
    unfolding picks_def
  proof (intro allI impI)
    fix h cs rg key r and st :: unit
    assume a: "fst (ll_select h cs rg key st) = Some r"
    then have ne: "cs \<noteq> []" by (auto simp: ll_select_def leastLoaded_select_def)
    show "r \<in> set cs" using leastLoaded.select_some [OF _ ne, of h rg key st] a regionalPool_subset [of h cs rg] by auto
  qed
qed

interpretation hashRing_routed: candidates "hs_select sc" for sc
proof
  show "picks (hs_select sc)"
    unfolding picks_def
  proof (intro allI impI)
    fix h cs rg key st r
    assume a: "fst (hs_select sc h cs rg key st) = Some r"
    then have ne: "cs \<noteq> []" by (auto simp: hs_select_def)
    have "r \<in> set (regionalPool h cs rg)"
    proof (cases key)
      case None
      then show ?thesis using a ne regionalPool_ne [OF ne, of h rg] by (auto simp: hs_select_def Let_def)
    next
      case (Some k)
      have "\<exists>i. jm_get (fold (\<lambda>r m. jm_set (sn_id (h r)) r m) (regionalPool h cs rg) []) i = Some r"
        using a ne Some by (auto simp: hs_select_def Let_def split: prod.splits simp: bind_eq_Some_conv)
      then show ?thesis using byId_mem [of "\<lambda>r. sn_id (h r)"] by fastforce
    qed
    then show "r \<in> set cs" using regionalPool_subset by blast
  qed
qed
section \<open>Consistency\<close>

text \<open>
  (C11) Whatever happens to the nodes (failures, recoveries, drains, additions, removals of nodes that are
  not draining) and to the rooms, the router agrees with the cluster, for every strategy that answers one of its candidates. Removing or
  replacing a node that is draining is excluded: the tracker does not report it as gone, and the agreement is lost. A room's primary is a registered
  node that is up; its cascade nodes are too, are different from the primary and from each other, and
  exist only while there is a primary; and a node tracks exactly the rooms whose primary or cascade it is.
\<close>

theorem cascading_consistent:
  assumes "picks select" "\<And>q. sn_rooms (heap q) = []" "(cr_step select)\<^sup>*\<^sup>* (cr_new heap, st) (s, st')"
  shows "(\<forall>room p. cr_getAssignment room s = Some p \<longrightarrow>
      p \<in> set (cl_getNodes s) \<and> \<not> sn_failed (cl_heap s p) \<and> distinct (p # cr_getCascadeNodes room s)) \<and>
    (\<forall>room. \<forall>n \<in> set (cr_getCascadeNodes room s).
      n \<in> set (cl_getNodes s) \<and> \<not> sn_failed (cl_heap s n) \<and> cr_getAssignment room s \<noteq> None) \<and>
    (\<forall>q room. room \<in> set (sn_rooms (cl_heap s q)) \<longleftrightarrow> cr_getAssignment room s = Some q \<or> q \<in> set (cr_getCascadeNodes room s))"
proof -
  have "candidates select" using assms(1) by unfold_locales
  then have i: "cr_inv s" using candidates.consistent [OF _ assms(2,3)] by simp
  have b: "cr_books s" using i by (simp add: cr_inv_def)
  have used: "q \<in> set (cl_getNodes s) \<and> \<not> sn_failed (cl_heap s q)" if "room \<in> cr_rooms s q" for q room
  proof -
    have "q \<in> cr_used s" using that by (auto simp: cr_used_def)
    then show ?thesis using registered_used [OF i, of q] jm_get_SomeD [of "cl_nodes s" "sn_id (cl_heap s q)" q] by (force simp: cl_getNodes_def)
  qed
  have "p \<in> set (cl_getNodes s) \<and> \<not> sn_failed (cl_heap s p) \<and> distinct (p # cr_links room s)" if "jm_get (cr_assignments s) room = Some p" for room p
    using used [of room p] that b by (simp add: cr_rooms_def cr_books_def)
  moreover have "n \<in> set (cl_getNodes s) \<and> \<not> sn_failed (cl_heap s n) \<and> jm_get (cr_assignments s) room \<noteq> None" if "n \<in> set (cr_links room s)" for room n
  proof -
    have "cr_links room s \<noteq> []" using that by auto
    then have "jm_get (cr_assignments s) room \<noteq> None" using b unfolding cr_books_def by blast
    then show ?thesis using used [of room n] that by (simp add: cr_rooms_def)
  qed
  moreover have "room \<in> set (sn_rooms (cl_heap s q)) \<longleftrightarrow> jm_get (cr_assignments s) room = Some q \<or> q \<in> set (cr_links room s)" for q room
    using b by (auto simp: cr_books_def cr_rooms_def)
  ultimately show ?thesis unfolding cr_getAssignment_def cr_getCascadeNodes_def by blast
qed

text \<open>Two nodes of different regions, and a third that takes the place of one of them.\<close>

definition ex_heap :: "nref \<Rightarrow> sfu_node" where
  "ex_heap r = (if r = 0 then sn_new ''a'' ''eu'' None else if r = 1 then sn_new ''b'' ''us'' None else sn_new ''c'' ''us'' None)"

definition ex_ops :: "cr_op list" where
  "ex_ops = [CrAddNode 0, CrAddNode 1, CrAddNode 2, CrAttach ''r'' (Some ''eu''), CrAttach ''r'' (Some ''us''), CrFail 1, CrAttach ''r'' (Some ''us''), CrRemoveNode ''b'']"

definition ex_run :: "cr_op list \<Rightarrow> crouter \<times> unit" where
  "ex_run xs = fold (cr_exec ll_select 3 2) xs (cr_new ex_heap, ())"

lemma ex_run_snoc: "ex_run (xs @ [x]) = cr_exec ll_select 3 2 x (ex_run xs)"
  by (simp add: ex_run_def)

lemma ex_run_step:
  "(cr_step ll_select)\<^sup>*\<^sup>* (cr_new ex_heap, ()) (ex_run xs) \<Longrightarrow> cr_enabled x (fst (ex_run xs)) \<Longrightarrow>
   (cr_step ll_select)\<^sup>*\<^sup>* (cr_new ex_heap, ()) (ex_run (xs @ [x]))"
  unfolding ex_run_snoc by (blast intro: rtranclp.rtrancl_into_rtrancl cr_step.intros)

lemma ex_run_reached:
  assumes "\<And>n. n < length xs \<Longrightarrow> cr_enabled (xs ! n) (fst (ex_run (take n xs)))"
  shows "n \<le> length xs \<Longrightarrow> (cr_step ll_select)\<^sup>*\<^sup>* (cr_new ex_heap, ()) (ex_run (take n xs))"
proof (induction n)
  case (Suc n)
  then show ?case using ex_run_step [of "take n xs" "xs ! n"] assms [of n] by (simp add: take_Suc_conv_app_nth)
qed (simp add: ex_run_def)

lemma ex_enabled:
  "(\<forall>r \<in> set (cl_getNodes s). \<not> sn_draining (cl_heap s r)) \<Longrightarrow> cr_enabled x s"
  by (auto simp: cr_enabled_def cl_getNodes_def dest!: jm_get_SomeD split: cr_op.splits)

lemma ex_up: "\<forall>n \<in> set [0..<8]. \<forall>r \<in> set (cl_getNodes (fst (ex_run (take n ex_ops)))). \<not> sn_draining (cl_heap (fst (ex_run (take n ex_ops))) r)"
  by code_simp

theorem cascading_consistent_witness:
  "cr_getAssignment ''r'' (fst (ex_run ex_ops)) = Some 0 \<and> cr_getCascadeNodes ''r'' (fst (ex_run ex_ops)) = [2] \<and>
   2 \<in> set (cl_getNodes (fst (ex_run ex_ops))) \<and> \<not> sn_failed (cl_heap (fst (ex_run ex_ops)) 2) \<and> ''r'' \<notin> set (sn_rooms (cl_heap (fst (ex_run ex_ops)) 1))"
proof -
  have "(cr_step ll_select)\<^sup>*\<^sup>* (cr_new ex_heap, ()) (ex_run (take 8 ex_ops))"
    by (rule ex_run_reached) (use ex_up in \<open>auto simp: ex_ops_def intro!: ex_enabled\<close>)
  then have r: "(cr_step ll_select)\<^sup>*\<^sup>* (cr_new ex_heap, ()) (fst (ex_run ex_ops), ())"
    by (cases "ex_run ex_ops") (simp add: ex_ops_def)
  have h: "sn_rooms (ex_heap q) = []" for q by (simp add: ex_heap_def sn_new_def)
  have e: "cr_getAssignment ''r'' (fst (ex_run ex_ops)) = Some 0 \<and> cr_getCascadeNodes ''r'' (fst (ex_run ex_ops)) = [2]" by code_simp
  show ?thesis using cascading_consistent [OF leastLoaded_routed.picks h r] e by (metis list.set_intros(1) option.inject one_eq_numeral_iff zero_neq_one empty_iff empty_set set_ConsD semiring_norm(83))
qed

end
