(* ===== verification/CascadeTree.thy ===== *)
theory CascadeTree
  imports CascadePlan Sfu
begin

text \<open>
  The class \<^verbatim>\<open>CascadeTree\<close> of \<^verbatim>\<open>packages/sfu/src/CascadeTree.ts\<close>: one plan per room over the cluster's active
  nodes, rebuilt when a node of it is lost. What listeners hear is a log; the links a listener has open after
  hearing it (\<open>open_links\<close>) are compared with the links of the current plan.
\<close>

datatype ct_out =
    TreeBuilt string cascade_plan
  | LinkCreated string string string
  | LinkDropped string string string
  | LeafAssigned string string int
  | TreeDropped string
  | CapacityShortfall string int
  | OriginLost string string

record room_tree =
  ctr_originId :: string
  ctr_viewerCount :: int
  ctr_plan :: cascade_plan

record ctree = tracked +
  ct_fanout :: int
  ct_viewersPerNode :: int
  ct_rooms :: "(string, room_tree) jsmap"
  ct_log :: "ct_out list"

definition ct_emits :: "ct_out list \<Rightarrow> ctree \<Rightarrow> ctree" where
  "ct_emits evs s = s\<lparr>ct_log := ct_log s @ evs\<rparr>"

definition cascadeLinkKey :: "string \<Rightarrow> string \<Rightarrow> string" where
  "cascadeLinkKey from to = from @ ''>'' @ to"

definition linkKey :: "cascade_link \<Rightarrow> string" where
  "linkKey l = cascadeLinkKey (fst l) (snd l)"

definition ct_nodeIndex :: "ctree \<Rightarrow> (string, nref) jsmap" where
  "ct_nodeIndex s = fold (\<lambda>r m. jm_set (sn_id (cl_heap s r)) r m) (cl_getNodes s) []"

definition ct_activePool :: "string \<Rightarrow> ctree \<Rightarrow> string list" where
  "ct_activePool originId s =
     map (\<lambda>r. sn_id (cl_heap s r)) (filter (\<lambda>r. sn_id (cl_heap s r) \<noteq> originId) (cl_getActiveNodes s))"

definition ct_diff :: "string \<Rightarrow> cascade_plan option \<Rightarrow> cascade_plan \<Rightarrow> ctree \<Rightarrow> ctree" where
  "ct_diff roomId oldPlan newPlan s =
     (let old = (case oldPlan of Some p \<Rightarrow> cp_links p | None \<Rightarrow> []);
          oldLinks = map linkKey old; newLinks = map linkKey (cp_links newPlan)
      in ct_emits (map (\<lambda>l. LinkCreated roomId (fst l) (snd l)) (filter (\<lambda>l. linkKey l \<notin> set oldLinks) (cp_links newPlan)))
           (ct_emits (map (\<lambda>l. LinkDropped roomId (fst l) (snd l)) (filter (\<lambda>l. linkKey l \<notin> set newLinks) old)) s))"

text \<open>\<^verbatim>\<open>index.get(id)?.f(roomId)\<close> for each id.\<close>

fun ct_each :: "(sfu_node \<Rightarrow> sfu_node) \<Rightarrow> string list \<Rightarrow> (string, nref) jsmap \<Rightarrow> ctree \<Rightarrow> ctree" where
  "ct_each f [] index s = s"
| "ct_each f (i # ids) index s =
     ct_each f ids index (case jm_get index i of Some r \<Rightarrow> cl_upd r f s | None \<Rightarrow> s)"

definition ct_build :: "string \<Rightarrow> string \<Rightarrow> int \<Rightarrow> ctree \<Rightarrow> (plan_error + cascade_plan) \<times> ctree" where
  "ct_build roomId originId viewerCount s =
     (let index = ct_nodeIndex s in
      case planCascadeTree originId viewerCount (ct_fanout s) (ct_viewersPerNode s) (ct_activePool originId s)
             (Some (\<lambda>i. case jm_get index i of Some r \<Rightarrow> sn_capacity (cl_heap s r) | None \<Rightarrow> ct_viewersPerNode s)) of
        Inl e \<Rightarrow> (Inl e, s)
      | Inr plan \<Rightarrow>
          (let prev = jm_get (ct_rooms s) roomId;
               s1 = ct_diff roomId (map_option ctr_plan prev) plan s;
               nowIds = jm_keys (cp_nodes plan);
               s2 = (case prev of
                       Some p \<Rightarrow> ct_each (sn_untrackRoom roomId) (filter (\<lambda>i. i \<notin> set nowIds) (jm_keys (cp_nodes (ctr_plan p)))) index s1
                     | None \<Rightarrow> s1);
               s3 = ct_each (sn_trackRoom roomId) nowIds index s2;
               s4 = s3\<lparr>ct_rooms := jm_set roomId \<lparr>ctr_originId = originId, ctr_viewerCount = viewerCount, ctr_plan = plan\<rparr> (ct_rooms s3)\<rparr>;
               s5 = ct_emits (map (\<lambda>e. LeafAssigned roomId e (case jm_get (cp_nodes plan) e of Some n \<Rightarrow> pn_viewerSlots n | None \<Rightarrow> 0)) (cp_edges plan)) s4;
               s6 = (if cp_unmetViewers plan > 0 then ct_emits [CapacityShortfall roomId (cp_unmetViewers plan)] s5 else s5)
           in (Inr plan, ct_emits [TreeBuilt roomId plan] s6)))"

definition ct_detach :: "string \<Rightarrow> ctree \<Rightarrow> bool \<times> ctree" where
  "ct_detach roomId s =
     (case jm_get (ct_rooms s) roomId of
        None \<Rightarrow> (False, s)
      | Some room \<Rightarrow>
          (let s1 = ct_each (sn_untrackRoom roomId) (jm_keys (cp_nodes (ctr_plan room))) (ct_nodeIndex s) s;
               s2 = ct_emits (map (\<lambda>l. LinkDropped roomId (fst l) (snd l)) (cp_links (ctr_plan room))) s1
           in (True, ct_emits [TreeDropped roomId] (s2\<lparr>ct_rooms := jm_delete roomId (ct_rooms s2)\<rparr>))))"

definition ct_getPlan :: "string \<Rightarrow> ctree \<Rightarrow> cascade_plan option" where
  "ct_getPlan roomId s = map_option ctr_plan (jm_get (ct_rooms s) roomId)"

text \<open>The loop over a copy of the rooms; a throw of \<^verbatim>\<open>build\<close> ends it.\<close>

fun ct_gone_loop :: "string \<Rightarrow> (string \<times> room_tree) list \<Rightarrow> ctree \<Rightarrow> ctree" where
  "ct_gone_loop nodeId [] s = s"
| "ct_gone_loop nodeId ((roomId, room) # rest) s =
     (if \<not> jm_has (cp_nodes (ctr_plan room)) nodeId then ct_gone_loop nodeId rest s
      else if nodeId = ctr_originId room
      then ct_gone_loop nodeId rest (ct_emits [OriginLost roomId nodeId] (snd (ct_detach roomId s)))
      else (case ct_build roomId (ctr_originId room) (ctr_viewerCount room) s of
              (Inl e, s1) \<Rightarrow> s1
            | (Inr plan, s1) \<Rightarrow> ct_gone_loop nodeId rest s1))"

definition ct_onNodeGone :: "nref \<Rightarrow> ctree \<Rightarrow> ctree" where
  "ct_onNodeGone r s = ct_gone_loop (sn_id (cl_heap s r)) (ct_rooms s) s"

definition ct_dispose :: "ctree \<Rightarrow> ctree" where
  "ct_dispose s = tk_dispose s"

definition ct_listen :: "ctree emitter" where
  "ct_listen = tk_emit ct_onNodeGone"

text \<open>A tree on a cluster; the options default to 8 and 1000.\<close>

definition ct_new :: "cluster \<Rightarrow> int option \<Rightarrow> int option \<Rightarrow> ctree" where
  "ct_new c fanout viewersPerNode =
     tk_attachAll (cl_getNodes c)
       \<lparr>cl_heap = cl_heap c, cl_nodes = cl_nodes c, cl_failStreak = cl_failStreak c, cl_passStreak = cl_passStreak c,
        tk_listeners = [], tk_gone = [],
        ct_fanout = (case fanout of Some f \<Rightarrow> f | None \<Rightarrow> 8), ct_viewersPerNode = (case viewersPerNode of Some v \<Rightarrow> v | None \<Rightarrow> 1000),
        ct_rooms = [], ct_log = []\<rparr>"

text \<open>Everything that can happen to a cluster with a tree.\<close>

datatype ct_op =
    CtBuild string string int
  | CtDetach string
  | CtLoad nref int
  | CtFail nref
  | CtRecover nref
  | CtHealth int int nref bool
  | CtDrain nref
  | CtDrainTimeout nref
  | CtDrainDone nref
  | CtAddNode nref
  | CtRemoveNode string
  | CtRebalance

fun ct_exec :: "ct_op \<Rightarrow> ctree \<Rightarrow> ctree" where
  "ct_exec (CtBuild roomId originId n) s = snd (ct_build roomId originId n s)"
| "ct_exec (CtDetach roomId) s = snd (ct_detach roomId s)"
| "ct_exec (CtLoad r n) s = sn_reportLoad ct_listen r n s"
| "ct_exec (CtFail r) s = sn_markFailed ct_listen r s"
| "ct_exec (CtRecover r) s = sn_markRecovered ct_listen r s"
| "ct_exec (CtHealth failT recT r b) s = cl_onHealthResult ct_listen failT recT r b s"
| "ct_exec (CtDrain r) s = sn_drain ct_listen r s"
| "ct_exec (CtDrainTimeout r) s = sn_drainTimeout r s"
| "ct_exec (CtDrainDone r) s = sn_drainDone ct_listen r s"
| "ct_exec (CtAddNode r) s = cl_addNode ct_listen r s"
| "ct_exec (CtRemoveNode i) s = snd (cl_removeNode ct_listen i s)"
| "ct_exec CtRebalance s = cl_rebalance ct_listen s"

section \<open>Invariants under whatever the cluster does\<close>

text \<open>
  A property of the state that the listeners keep, and that no change of the cluster's own fields breaks, is
  kept by every operation of the cluster: ids of nodes never change, and a node is registered under its id.
\<close>

locale cluster_listener =
  fixes emit :: "'a cluster_scheme emitter"
    and good :: "'a cluster_scheme \<Rightarrow> bool"
  assumes emit_good: "good s \<Longrightarrow> good (emit ev s)"
    and heap_good: "good s \<Longrightarrow> (\<And>q. sn_id (h q) = sn_id (cl_heap s q)) \<Longrightarrow> good (s\<lparr>cl_heap := h\<rparr>)"
    and delete_good: "good s \<Longrightarrow> good (s\<lparr>cl_nodes := jm_delete i (cl_nodes s)\<rparr>)"
    and set_good: "good s \<Longrightarrow> good (s\<lparr>cl_nodes := jm_set (sn_id (cl_heap s r)) r (cl_nodes s)\<rparr>)"
    and streak_good: "good s \<Longrightarrow> good (s\<lparr>cl_failStreak := a\<rparr>)" "good s \<Longrightarrow> good (s\<lparr>cl_passStreak := a\<rparr>)"
    and emit_id: "sn_id (cl_heap (emit ev s) q) = sn_id (cl_heap s q)"
begin

lemma upd_good: "good s \<Longrightarrow> sn_id (f (cl_heap s r)) = sn_id (cl_heap s r) \<Longrightarrow> good (cl_upd r f s)"
  unfolding cl_upd_def by (rule heap_good) simp_all

lemma load_good: "good s \<Longrightarrow> good (sn_reportLoad emit r n s)"
  by (simp add: sn_reportLoad_def cl_checkAllOverloaded_def Let_def emit_good upd_good)

lemma failed_good: "good s \<Longrightarrow> good (sn_markFailed emit r s)"
  by (simp add: sn_markFailed_def emit_good upd_good Let_def sn_stopStatsCollection_def)

lemma recovered_good: "good s \<Longrightarrow> good (sn_markRecovered emit r s)"
  by (simp add: sn_markRecovered_def emit_good upd_good)

lemma drain_good: "good s \<Longrightarrow> good (sn_drain emit r s)" "good s \<Longrightarrow> good (sn_drainTimeout r s)" "good s \<Longrightarrow> good (sn_drainDone emit r s)"
  by (simp_all add: sn_drain_def sn_drainTimeout_def sn_drainDone_def Let_def emit_good upd_good sn_stopStatsCollection_def)

lemma remove_good: "good s \<Longrightarrow> good (snd (cl_removeNode emit i s))"
proof -
  assume g: "good s"
  have "good (s\<lparr>cl_nodes := jm_delete i (cl_nodes s), cl_failStreak := a, cl_passStreak := b\<rparr>)" for a b
    by (intro streak_good delete_good g)
  then show ?thesis using g by (simp add: cl_removeNode_def emit_good split: option.splits)
qed

lemma remove_id: "sn_id (cl_heap (snd (cl_removeNode emit i s)) r) = sn_id (cl_heap s r)"
  by (simp add: cl_removeNode_def emit_id split: option.splits)

lemma add_good: "good s \<Longrightarrow> good (cl_addNode emit r s)"
proof -
  assume g: "good s"
  let ?i = "sn_id (cl_heap s r)"
  define t where "t = (if jm_has (cl_nodes s) ?i then snd (cl_removeNode emit ?i s) else s)"
  have "good t" "sn_id (cl_heap t r) = ?i" using g by (simp_all add: t_def remove_good remove_id)
  then have "good (t\<lparr>cl_nodes := jm_set ?i r (cl_nodes t)\<rparr>)" using set_good [of t r] by simp
  then show ?thesis unfolding cl_addNode_def Let_def t_def [symmetric] by (rule emit_good)
qed

lemma rebalance_good: "good s \<Longrightarrow> good (cl_rebalance emit s)"
proof -
  have loop: "good s \<Longrightarrow> good (snd (cl_rebalance_loop emit rs needs s))" for rs needs
    by (induction rs arbitrary: s needs) (simp_all add: Let_def emit_good)
  assume "good s"
  then show ?thesis using loop [of "cl_getNodes s" False] by (cases "cl_rebalance_loop emit (cl_getNodes s) False s") (auto simp: cl_rebalance_def emit_good)
qed

lemma health_good: "good s \<Longrightarrow> good (cl_onHealthResult emit failT recT r b s)"
  unfolding cl_onHealthResult_def Let_def by (simp add: streak_good emit_good failed_good recovered_good rebalance_good)

end

section \<open>Where a plan takes its nodes from\<close>

definition drawn :: "string set \<Rightarrow> planner \<Rightarrow> bool" where
  "drawn S s \<longleftrightarrow> pn_id ` set (pl_objs s) \<subseteq> S \<and> set (pl_pool s) \<subseteq> S \<and> set (pl_links s) \<subseteq> S \<times> S \<and> set (jm_keys (pl_nodes s)) \<subseteq> S"

lemma drawn_attach:
  assumes "drawn S s" "p < length (pl_objs s)" "pl_pool s = c # pool"
  shows "drawn S (pl_attach p c t pool s)" "length (pl_objs (pl_attach p c t pool s)) = Suc (length (pl_objs s))"
proof -
  have "pn_id (pl_objs s ! p) \<in> S" "c \<in> S" "set pool \<subseteq> S" using assms by (auto simp: drawn_def)
  moreover from this have "pn_id ` set ((pl_objs s)[p := (pl_objs s ! p)\<lparr>pn_children := x\<rparr>]) \<subseteq> S" for x
  proof -
    have "pn_id ` set (pl_objs s) \<subseteq> S" using assms(1) by (simp add: drawn_def)
    moreover have "map pn_id ((pl_objs s)[p := (pl_objs s ! p)\<lparr>pn_children := x\<rparr>]) = map pn_id (pl_objs s)" by (rule map_upd_same) simp
    ultimately show ?thesis by (metis set_map)
  qed
  ultimately show "drawn S (pl_attach p c t pool s)" using assms(1) by (simp add: drawn_def pl_attach_def Let_def)
  show "length (pl_objs (pl_attach p c t pool s)) = Suc (length (pl_objs s))" by (simp add: pl_attach_def Let_def)
qed

lemma drawn_children:
  assumes "drawn S s" "p < length (pl_objs s)"
  shows "drawn S (snd (pl_children k p t s)) \<and> length (pl_objs s) \<le> length (pl_objs (snd (pl_children k p t s))) \<and>
    (\<forall>n \<in> set (fst (pl_children k p t s)). n < length (pl_objs (snd (pl_children k p t s))))"
  using assms
proof (induction k arbitrary: s)
  case (Suc k)
  show ?case
  proof (cases "pl_pool s")
    case (Cons c pool)
    note a = drawn_attach [OF Suc.prems Cons, of t]
    show ?thesis using Suc.IH [OF a(1)] Suc.prems(2) a(2) Cons by (auto simp: split_def Let_def)
  qed (use Suc.prems in simp)
qed simp

lemma drawn_frontier:
  assumes "drawn S s" "\<forall>p \<in> set fr. p < length (pl_objs s)"
  shows "drawn S (snd (pl_frontier f fr t s)) \<and> length (pl_objs s) \<le> length (pl_objs (snd (pl_frontier f fr t s))) \<and>
    (\<forall>n \<in> set (fst (pl_frontier f fr t s)). n < length (pl_objs (snd (pl_frontier f fr t s))))"
  using assms
proof (induction fr arbitrary: s)
  case (Cons p fr)
  let ?s = "snd (pl_children f p t s)"
  have c: "drawn S ?s" "length (pl_objs s) \<le> length (pl_objs ?s)" "\<forall>n \<in> set (fst (pl_children f p t s)). n < length (pl_objs ?s)"
    using drawn_children [of S s p f t] Cons.prems by auto
  have "\<forall>q \<in> set fr. q < length (pl_objs ?s)" using Cons.prems(2) c(2) by fastforce
  then show ?case using Cons.IH [OF c(1)] c by (auto simp: split_def Let_def)
qed simp

lemma drawn_relays:
  assumes "drawn S s" "\<forall>p \<in> set fr. p < length (pl_objs s)"
  shows "drawn S (pl_relays fr s)"
proof -
  have "map pn_id (pl_objs (pl_relays fr s)) = map pn_id (pl_objs s)"
    using assms(2) by (intro nth_equalityI) (auto simp: pl_relays_objs)
  then have "pn_id ` set (pl_objs (pl_relays fr s)) = pn_id ` set (pl_objs s)" by (metis set_map)
  then show ?thesis using assms(1) by (simp add: drawn_def)
qed

lemma drawn_loop:
  assumes "drawn S s" "\<forall>p \<in> set fr. p < length (pl_objs s)"
  shows "drawn S (snd (pl_loop f vpn vc fr t s))"
  using assms
proof (induction f vpn vc fr t s rule: pl_loop.induct)
  case (1 f vpn vc fr t s)
  obtain n s1 where fr: "pl_frontier f fr t s = (n, s1)" by fastforce
  have w: "drawn S s1" "length (pl_objs s) \<le> length (pl_objs s1)" "\<forall>p \<in> set n. p < length (pl_objs s1)"
    using drawn_frontier [OF 1(2,3), of f t] fr by simp_all
  have "drawn S (pl_relays fr s1)" by (rule drawn_relays [OF w(1)]) (use 1(3) w(2) in fastforce)
  then show ?case using 1 fr w by (subst pl_loop.simps) simp
qed

lemma plan_drawn:
  assumes "planCascadeTree org vc fanout vpn avail capOf = Inr plan"
  shows "set (jm_keys (cp_nodes plan)) \<subseteq> insert org (set avail)" "set (cp_links plan) \<subseteq> insert org (set avail) \<times> insert org (set avail)"
proof -
  let ?S = "insert org (set avail)"
  obtain t s where loop: "pl_loop (nat fanout) vpn vc [0] 0 (pl_start org avail) = (t, s)" by fastforce
  have "drawn ?S (pl_start org avail)" by (auto simp: drawn_def pl_start_def)
  then have "drawn ?S s" using drawn_loop [of ?S "pl_start org avail" "[0]" "nat fanout" vpn vc 0] loop by (simp add: pl_start_def)
  moreover have "jm_keys (cp_nodes plan) = jm_keys (pl_nodes s)" "cp_links plan = pl_links s"
    using assms loop by (auto simp: planCascadeTree_def Let_def split: if_splits prod.splits)
  ultimately show "set (jm_keys (cp_nodes plan)) \<subseteq> ?S" "set (cp_links plan) \<subseteq> ?S \<times> ?S" by (simp_all add: drawn_def)
qed
section \<open>What a listener knows\<close>

definition link_effect :: "string \<Rightarrow> ct_out \<Rightarrow> cascade_link set \<Rightarrow> cascade_link set" where
  "link_effect roomId ev L =
     (case ev of
        LinkCreated room f t \<Rightarrow> if room = roomId then insert (f, t) L else L
      | LinkDropped room f t \<Rightarrow> if room = roomId then L - {(f, t)} else L
      | _ \<Rightarrow> L)"

definition open_links :: "string \<Rightarrow> ct_out list \<Rightarrow> cascade_link set" where
  "open_links roomId evs = fold (link_effect roomId) evs {}"

definition tree_links :: "string \<Rightarrow> ctree \<Rightarrow> cascade_link set" where
  "tree_links roomId s = (case ct_getPlan roomId s of Some p \<Rightarrow> set (cp_links p) | None \<Rightarrow> {})"

lemma created_effect: "fold (link_effect q) (map (\<lambda>l. LinkCreated room (fst l) (snd l)) xs) L = (if room = q then L \<union> set xs else L)"
  by (induction xs arbitrary: L) (auto simp: link_effect_def)

lemma dropped_effect: "fold (link_effect q) (map (\<lambda>l. LinkDropped room (fst l) (snd l)) xs) L = (if room = q then L - set xs else L)"
  by (induction xs arbitrary: L) (auto simp: link_effect_def)

lemma leaf_effect: "fold (link_effect q) (map (\<lambda>e. LeafAssigned room e (f e)) xs) L = L"
  by (induction xs arbitrary: L) (auto simp: link_effect_def)

lemma open_links_append: "open_links q (a @ b) = fold (link_effect q) b (open_links q a)"
  by (simp add: open_links_def)

text \<open>Ids without the separator, for which keys of links are unique.\<close>

definition plain_id :: "string \<Rightarrow> bool" where
  "plain_id i \<longleftrightarrow> CHR ''>'' \<notin> set i"

lemma linkKey_inj:
  assumes "linkKey l = linkKey m" "plain_id (fst l)" "plain_id (fst m)"
  shows "l = m"
proof -
  have "takeWhile (\<lambda>c. c \<noteq> CHR ''>'') (linkKey l) = fst l" "takeWhile (\<lambda>c. c \<noteq> CHR ''>'') (linkKey m) = fst m"
    using assms(2,3) by (simp_all add: linkKey_def cascadeLinkKey_def plain_id_def takeWhile_upto)
  then have "fst l = fst m" using assms(1) by simp
  then show ?thesis using assms(1) by (simp add: linkKey_def cascadeLinkKey_def prod_eq_iff)
qed

definition plain_links :: "cascade_link list \<Rightarrow> bool" where
  "plain_links ls \<longleftrightarrow> (\<forall>l \<in> set ls. plain_id (fst l))"

text \<open>The difference of two plans takes a listener from the links of the one to those of the other.\<close>

definition old_links :: "cascade_plan option \<Rightarrow> cascade_link list" where
  "old_links p = (case p of Some p \<Rightarrow> cp_links p | None \<Rightarrow> [])"

lemma diff_log:
  "ct_log (ct_diff room old new s) = ct_log s @
     map (\<lambda>l. LinkDropped room (fst l) (snd l)) (filter (\<lambda>l. linkKey l \<notin> set (map linkKey (cp_links new))) (old_links old)) @
     map (\<lambda>l. LinkCreated room (fst l) (snd l)) (filter (\<lambda>l. linkKey l \<notin> set (map linkKey (old_links old))) (cp_links new))"
  by (simp add: ct_diff_def Let_def ct_emits_def old_links_def)

lemma diff_other: "q \<noteq> room \<Longrightarrow> open_links q (ct_log (ct_diff room old new s)) = open_links q (ct_log s)"
  by (simp add: ct_diff_def Let_def ct_emits_def open_links_append created_effect dropped_effect)

lemma diff_effect:
  assumes p: "plain_links (cp_links new)" "plain_links (old_links old)" and o: "open_links room (ct_log s) = set (old_links old)"
  shows "open_links room (ct_log (ct_diff room old new s)) = set (cp_links new)"
proof -
  have k: "linkKey l \<in> set (map linkKey ys) \<longleftrightarrow> l \<in> set ys" if "l \<in> set xs" "plain_links xs" "plain_links ys" for l xs ys
  proof
    assume "linkKey l \<in> set (map linkKey ys)"
    then obtain m where m: "m \<in> set ys" "linkKey l = linkKey m" by auto
    have "l = m" by (rule linkKey_inj [OF m(2)]) (use that m in \<open>auto simp: plain_links_def\<close>)
    then show "l \<in> set ys" using m by simp
  qed simp
  have d: "set (filter (\<lambda>l. linkKey l \<notin> set (map linkKey (cp_links new))) (old_links old)) = set (old_links old) - set (cp_links new)"
    unfolding set_filter using k [OF _ p(2,1)] by blast
  have c: "set (filter (\<lambda>l. linkKey l \<notin> set (map linkKey (old_links old))) (cp_links new)) = set (cp_links new) - set (old_links old)"
    unfolding set_filter using k [OF _ p] by blast
  have "open_links room (ct_log (ct_diff room old new s)) =
    open_links room (ct_log s) - (set (old_links old) - set (cp_links new)) \<union> (set (cp_links new) - set (old_links old))"
    unfolding diff_log open_links_append created_effect dropped_effect fold_append comp_apply d c by simp
  then show ?thesis unfolding o by blast
qed
section \<open>The links of every tree are the links the listeners were told about\<close>

definition tree_good :: "ctree \<Rightarrow> bool" where
  "tree_good s \<longleftrightarrow> (\<forall>r. plain_id (sn_id (cl_heap s r))) \<and>
     (\<forall>room t. jm_get (ct_rooms s) room = Some t \<longrightarrow> plain_id (ctr_originId t) \<and> plain_links (cp_links (ctr_plan t))) \<and>
     (\<forall>room. open_links room (ct_log s) = tree_links room s)"

lemma each_frame [simp]:
  "ct_rooms (ct_each f ids index s) = ct_rooms s" "ct_log (ct_each f ids index s) = ct_log s" "cl_nodes (ct_each f ids index s) = cl_nodes s"
  "tk_listeners (ct_each f ids index s) = tk_listeners s" "tk_gone (ct_each f ids index s) = tk_gone s"
  "ct_fanout (ct_each f ids index s) = ct_fanout s" "ct_viewersPerNode (ct_each f ids index s) = ct_viewersPerNode s"
  by (induction ids arbitrary: s) (simp_all add: cl_upd_def split: option.splits)

lemma each_node:
  assumes "\<And>n. g (f n) = g n"
  shows "g (cl_heap (ct_each f ids index s) q) = g (cl_heap s q)"
  by (induction ids arbitrary: s) (auto simp: cl_upd_def assms split: option.splits)

lemma diff_frame [simp]:
  "ct_rooms (ct_diff room old new s) = ct_rooms s" "cl_heap (ct_diff room old new s) = cl_heap s" "cl_nodes (ct_diff room old new s) = cl_nodes s"
  "tk_listeners (ct_diff room old new s) = tk_listeners s" "tk_gone (ct_diff room old new s) = tk_gone s"
  "ct_fanout (ct_diff room old new s) = ct_fanout s" "ct_viewersPerNode (ct_diff room old new s) = ct_viewersPerNode s"
  by (simp_all add: ct_diff_def Let_def ct_emits_def)

lemma emits_frame [simp]:
  "ct_rooms (ct_emits evs s) = ct_rooms s" "cl_heap (ct_emits evs s) = cl_heap s" "cl_nodes (ct_emits evs s) = cl_nodes s"
  "tk_listeners (ct_emits evs s) = tk_listeners s" "tk_gone (ct_emits evs s) = tk_gone s" "ct_log (ct_emits evs s) = ct_log s @ evs"
  "ct_fanout (ct_emits evs s) = ct_fanout s" "ct_viewersPerNode (ct_emits evs s) = ct_viewersPerNode s"
  by (simp_all add: ct_emits_def)

lemma tracking_keeps [simp]:
  "sn_id (sn_trackRoom room n) = sn_id n" "sn_id (sn_untrackRoom room n) = sn_id n" "sn_failed (sn_trackRoom room n) = sn_failed n"
  "sn_failed (sn_untrackRoom room n) = sn_failed n" "sn_draining (sn_trackRoom room n) = sn_draining n" "sn_draining (sn_untrackRoom room n) = sn_draining n"
  by (simp_all add: sn_trackRoom_def sn_untrackRoom_def Let_def)

text \<open>What \<^verbatim>\<open>build\<close> does, as one step.\<close>

definition ct_plan :: "string \<Rightarrow> int \<Rightarrow> ctree \<Rightarrow> plan_error + cascade_plan" where
  "ct_plan originId viewerCount s =
     planCascadeTree originId viewerCount (ct_fanout s) (ct_viewersPerNode s) (ct_activePool originId s)
       (Some (\<lambda>i. case jm_get (ct_nodeIndex s) i of Some r \<Rightarrow> sn_capacity (cl_heap s r) | None \<Rightarrow> ct_viewersPerNode s))"

lemma build_error: "ct_plan org n s = Inl e \<Longrightarrow> ct_build room org n s = (Inl e, s)"
  by (simp add: ct_build_def ct_plan_def Let_def)

lemma build_effect:
  assumes p: "ct_plan org n s = Inr plan"
  shows "fst (ct_build room org n s) = Inr plan"
    "ct_rooms (snd (ct_build room org n s)) = jm_set room \<lparr>ctr_originId = org, ctr_viewerCount = n, ctr_plan = plan\<rparr> (ct_rooms s)"
    "cl_nodes (snd (ct_build room org n s)) = cl_nodes s" "tk_gone (snd (ct_build room org n s)) = tk_gone s"
    "tk_listeners (snd (ct_build room org n s)) = tk_listeners s"
    "ct_fanout (snd (ct_build room org n s)) = ct_fanout s" "ct_viewersPerNode (snd (ct_build room org n s)) = ct_viewersPerNode s"
    "open_links q (ct_log (snd (ct_build room org n s))) = open_links q (ct_log (ct_diff room (map_option ctr_plan (jm_get (ct_rooms s) room)) plan s))"
    "(\<And>m. g (sn_trackRoom room m) = g m) \<Longrightarrow> (\<And>m. g (sn_untrackRoom room m) = g m) \<Longrightarrow> g (cl_heap (snd (ct_build room org n s)) r) = g (cl_heap s r)"
  using p unfolding ct_build_def ct_plan_def Let_def
  by (simp_all add: open_links_append leaf_effect link_effect_def each_node split: option.splits)

lemma detach_effect:
  assumes "jm_get (ct_rooms s) room = Some t"
  shows "ct_rooms (snd (ct_detach room s)) = jm_delete room (ct_rooms s)" "cl_nodes (snd (ct_detach room s)) = cl_nodes s"
    "tk_gone (snd (ct_detach room s)) = tk_gone s" "tk_listeners (snd (ct_detach room s)) = tk_listeners s"
    "ct_fanout (snd (ct_detach room s)) = ct_fanout s" "ct_viewersPerNode (snd (ct_detach room s)) = ct_viewersPerNode s"
    "open_links q (ct_log (snd (ct_detach room s))) = (if q = room then open_links q (ct_log s) - set (cp_links (ctr_plan t)) else open_links q (ct_log s))"
    "(\<And>m. g (sn_untrackRoom room m) = g m) \<Longrightarrow> g (cl_heap (snd (ct_detach room s)) r) = g (cl_heap s r)"
  using assms unfolding ct_detach_def Let_def
  by (simp_all add: open_links_append dropped_effect link_effect_def each_node)

lemma build_good:
  assumes g: "tree_good s" and o: "plain_id org"
  shows "tree_good (snd (ct_build room org n s))"
proof (cases "ct_plan org n s")
  case (Inl e)
  then show ?thesis using g by (simp add: build_error)
next
  case (Inr plan)
  note e = build_effect [OF Inr, where room = room]
  have pool: "plain_id i" if "i \<in> set (ct_activePool org s)" for i using that g by (auto simp: ct_activePool_def tree_good_def)
  have "plain_links (cp_links plan)"
    unfolding plain_links_def
  proof
    fix l assume "l \<in> set (cp_links plan)"
    then have "fst l \<in> insert org (set (ct_activePool org s))" using plan_drawn(2) [OF Inr [unfolded ct_plan_def]] by auto
    then show "plain_id (fst l)" using pool o by auto
  qed
  moreover have "plain_links (old_links (map_option ctr_plan (jm_get (ct_rooms s) room)))"
    using g by (cases "jm_get (ct_rooms s) room") (simp_all add: old_links_def tree_good_def plain_links_def)
  moreover have "open_links room (ct_log s) = set (old_links (map_option ctr_plan (jm_get (ct_rooms s) room)))"
    using g by (cases "jm_get (ct_rooms s) room") (simp_all add: tree_good_def tree_links_def ct_getPlan_def old_links_def)
  ultimately have l: "open_links room (ct_log (snd (ct_build room org n s))) = set (cp_links plan)" and pl: "plain_links (cp_links plan)"
    unfolding e(8) by (rule diff_effect) fact
  have t: "tree_links q (snd (ct_build room org n s)) = (if q = room then set (cp_links plan) else tree_links q s)" for q
    by (simp add: tree_links_def ct_getPlan_def e(2))
  have "open_links q (ct_log (snd (ct_build room org n s))) = tree_links q (snd (ct_build room org n s))" for q
    using l g by (cases "q = room") (simp_all add: t e(8) diff_other tree_good_def)
  then show ?thesis
    unfolding tree_good_def e(2) using g o pl by (auto simp: e(9) tree_good_def)
qed

lemma detach_good:
  assumes g: "tree_good s"
  shows "tree_good (snd (ct_detach room s))"
proof (cases "jm_get (ct_rooms s) room")
  case None
  then show ?thesis using g by (simp add: ct_detach_def)
next
  case (Some t)
  note e = detach_effect [OF Some]
  have "open_links room (ct_log s) = set (cp_links (ctr_plan t))" using g Some by (simp add: tree_good_def tree_links_def ct_getPlan_def)
  then have "open_links q (ct_log (snd (ct_detach room s))) = tree_links q (snd (ct_detach room s))" for q
    using g by (simp add: e tree_links_def ct_getPlan_def tree_good_def)
  then show ?thesis unfolding tree_good_def e(1) using g by (auto simp: e(8) tree_good_def)
qed

lemma quiet_good: "tree_good s \<Longrightarrow> tree_good (ct_emits [OriginLost room i] s)"
  by (simp add: tree_good_def tree_links_def ct_getPlan_def open_links_append link_effect_def)

lemma gone_loop_good:
  assumes "tree_good s" "\<And>room t. (room, t) \<in> set xs \<Longrightarrow> plain_id (ctr_originId t)"
  shows "tree_good (ct_gone_loop i xs s)"
  using assms
proof (induction i xs s rule: ct_gone_loop.induct)
  case (2 i room t xs s)
  obtain res s1 where b: "ct_build room (ctr_originId t) (ctr_viewerCount t) s = (res, s1)" by fastforce
  have "plain_id (ctr_originId t)" using 2(5) [of room t] by simp
  then have s1: "tree_good s1" using build_good [OF 2(4), of "ctr_originId t" room "ctr_viewerCount t"] b by simp
  show ?case
  proof (cases res)
    case (Inl e)
    then show ?thesis using 2 b s1 by (auto simp: detach_good quiet_good)
  next
    case (Inr p)
    then show ?thesis using 2 b s1 by (auto simp: detach_good quiet_good)
  qed
qed simp
lemma tree_good_cong:
  assumes "tree_good s" "\<And>r. sn_id (cl_heap s' r) = sn_id (cl_heap s r)" "ct_rooms s' = ct_rooms s" "ct_log s' = ct_log s"
  shows "tree_good s'"
  using assms by (simp add: tree_good_def tree_links_def ct_getPlan_def)

lemma onNodeGone_good:
  assumes g: "tree_good s" and wf: "jm_wf (ct_rooms s)"
  shows "tree_good (ct_onNodeGone r s)"
  unfolding ct_onNodeGone_def
proof (rule gone_loop_good [OF g])
  show "plain_id (ctr_originId t)" if "(room, t) \<in> set (ct_rooms s)" for room t
    using that g jm_mem_iff [OF wf] unfolding tree_good_def by blast
qed

lemma gone_loop_node:
  assumes "\<And>room n. g (sn_trackRoom room n) = g n" "\<And>room n. g (sn_untrackRoom room n) = g n"
  shows "g (cl_heap (ct_gone_loop i xs s) q) = g (cl_heap s q)"
proof (induction i xs s rule: ct_gone_loop.induct)
  case (2 i room t xs s)
  have d: "g (cl_heap (snd (ct_detach room s)) q) = g (cl_heap s q)"
    by (cases "jm_get (ct_rooms s) room") (simp add: ct_detach_def, simp add: detach_effect(8) assms)
  have b: "g (cl_heap (snd (ct_build room (ctr_originId t) (ctr_viewerCount t) s)) q) = g (cl_heap s q)"
    by (cases "ct_plan (ctr_originId t) (ctr_viewerCount t) s") (simp add: build_error, simp add: build_effect(9) assms)
  obtain res s1 where e: "ct_build room (ctr_originId t) (ctr_viewerCount t) s = (res, s1)" by fastforce
  show ?case using 2 b d e by (cases res) auto
qed simp

lemma gone_loop_wf: "jm_wf (ct_rooms s) \<Longrightarrow> jm_wf (ct_rooms (ct_gone_loop i xs s))"
proof (induction i xs s rule: ct_gone_loop.induct)
  case (2 i room t xs s)
  have d: "jm_wf (ct_rooms (snd (ct_detach room s)))"
    using 2(4) by (cases "jm_get (ct_rooms s) room") (simp add: ct_detach_def, simp add: detach_effect(1))
  have b: "jm_wf (ct_rooms (snd (ct_build room (ctr_originId t) (ctr_viewerCount t) s)))"
    using 2(4) by (cases "ct_plan (ctr_originId t) (ctr_viewerCount t) s") (simp add: build_error, simp add: build_effect(2))
  obtain res s1 where e: "ct_build room (ctr_originId t) (ctr_viewerCount t) s = (res, s1)" by fastforce
  show ?case using 2 b d e by (cases res) auto
qed simp

lemma listen_cases:
  assumes "P s" "\<And>t r. P t \<Longrightarrow> P (ct_onNodeGone r t)" "\<And>t a. P t \<Longrightarrow> P (t\<lparr>tk_gone := a\<rparr>)" "\<And>t a. P t \<Longrightarrow> P (t\<lparr>tk_listeners := a\<rparr>)"
  shows "P (ct_listen ev s)"
  using assms by (cases ev) (simp_all add: ct_listen_def tk_emit_def tk_fireGone_def tk_attach_def tk_detach_def Let_def)

definition tree_sound :: "ctree \<Rightarrow> bool" where
  "tree_sound s \<longleftrightarrow> tree_good s \<and> jm_wf (ct_rooms s)"

lemma listen_sound: "tree_sound s \<Longrightarrow> tree_sound (ct_listen ev s)"
proof (rule listen_cases [where P = tree_sound])
  show "tree_sound (ct_onNodeGone r t)" if "tree_sound t" for r t
    using that onNodeGone_good gone_loop_wf by (simp add: tree_sound_def ct_onNodeGone_def)
  show "tree_sound (t\<lparr>tk_gone := a\<rparr>)" if "tree_sound t" for t a
    using that tree_good_cong [of t "t\<lparr>tk_gone := a\<rparr>"] by (simp add: tree_sound_def)
  show "tree_sound (t\<lparr>tk_listeners := a\<rparr>)" if "tree_sound t" for t a
    using that tree_good_cong [of t "t\<lparr>tk_listeners := a\<rparr>"] by (simp add: tree_sound_def)
qed

lemma listen_id: "sn_id (cl_heap (ct_listen ev s) q) = sn_id (cl_heap s q)"
  by (rule listen_cases [where P = "\<lambda>t. sn_id (cl_heap t q) = sn_id (cl_heap s q)"]) (simp_all add: ct_onNodeGone_def gone_loop_node)

interpretation tree_listener: cluster_listener ct_listen tree_sound
proof
  fix s :: ctree and ev i r q
  show "tree_sound (ct_listen ev s)" if "tree_sound s" using that by (rule listen_sound)
  show "sn_id (cl_heap (ct_listen ev s) q) = sn_id (cl_heap s q)" by (rule listen_id)
  show "tree_sound (s\<lparr>cl_heap := h\<rparr>)" if "tree_sound s" "\<And>q. sn_id (h q) = sn_id (cl_heap s q)" for h
    using that tree_good_cong [of s "s\<lparr>cl_heap := h\<rparr>"] by (simp add: tree_sound_def)
qed (auto simp: tree_sound_def intro: tree_good_cong)

section \<open>Reachable trees\<close>

definition ct_enabled :: "ct_op \<Rightarrow> bool" where
  "ct_enabled x \<longleftrightarrow> (case x of CtBuild room originId n \<Rightarrow> plain_id originId | _ \<Rightarrow> True)"

inductive ct_step :: "ctree \<Rightarrow> ctree \<Rightarrow> bool" where
  step: "ct_enabled x \<Longrightarrow> ct_step s (ct_exec x s)"

inductive_cases ct_stepE: "ct_step s s'"

lemma ct_exec_sound:
  assumes "tree_sound s" "ct_enabled x"
  shows "tree_sound (ct_exec x s)"
proof (cases x)
  case (CtBuild room org n)
  then have "tree_good (snd (ct_build room org n s))" using assms by (simp add: tree_sound_def ct_enabled_def build_good)
  moreover have "jm_wf (ct_rooms (snd (ct_build room org n s)))"
    using assms by (cases "ct_plan org n s") (simp_all add: build_error build_effect(2) tree_sound_def)
  ultimately show ?thesis using CtBuild by (simp add: tree_sound_def)
next
  case (CtDetach room)
  have "jm_wf (ct_rooms (snd (ct_detach room s)))"
    using assms by (cases "jm_get (ct_rooms s) room") (simp add: ct_detach_def tree_sound_def, simp add: detach_effect(1) tree_sound_def)
  then show ?thesis using CtDetach assms by (simp add: tree_sound_def detach_good)
qed (use assms in \<open>simp_all add: tree_listener.load_good tree_listener.failed_good tree_listener.recovered_good tree_listener.health_good
  tree_listener.drain_good tree_listener.add_good tree_listener.remove_good tree_listener.rebalance_good\<close>)

lemma attachAll_frame:
  "ct_rooms (tk_attachAll rs s) = ct_rooms s" "ct_log (tk_attachAll rs s) = ct_log s" "cl_heap (tk_attachAll rs s) = cl_heap s"
  by (induction rs arbitrary: s) (simp_all add: tk_attach_def Let_def)

interpretation tree_safe: safety "\<lambda>s. \<exists>c f v. (\<forall>r. plain_id (sn_id (cl_heap c r))) \<and> s = ct_new c f v" ct_step tree_sound
proof
  fix s t :: ctree
  show "tree_sound s" if "\<exists>c f v. (\<forall>r. plain_id (sn_id (cl_heap c r))) \<and> s = ct_new c f v"
    using that by (auto simp: ct_new_def tree_sound_def tree_good_def attachAll_frame open_links_def tree_links_def ct_getPlan_def)
  show "tree_sound t" if "tree_sound s" "ct_step s t" using that by (auto elim!: ct_stepE intro: ct_exec_sound)
qed

text \<open>
  (C12) Listeners that open the links they are told about and close the ones they are told are dropped have,
  for every room and after every sequence of operations, exactly the links of the room's current plan open, and
  none for a room without a tree. The ids must not contain the separator of link keys.
\<close>

theorem tree_replay:
  assumes "\<And>r. plain_id (sn_id (cl_heap c r))" "ct_step\<^sup>*\<^sup>* (ct_new c f v) s"
  shows "open_links room (ct_log s) = (case ct_getPlan room s of Some p \<Rightarrow> set (cp_links p) | None \<Rightarrow> {})"
proof -
  have "tree_sound s" using tree_safe.reachable_good [OF _ assms(2)] assms(1) by blast
  then show ?thesis by (simp add: tree_sound_def tree_good_def tree_links_def)
qed
definition ex_cluster :: cluster where
  "ex_cluster = \<lparr>cl_heap = (\<lambda>r. sn_new (if r = 0 then ''a'' else if r = 1 then ''b'' else ''c'') ''eu'' None),
     cl_nodes = [(''a'', 0), (''b'', 1), (''c'', 2)], cl_failStreak = [], cl_passStreak = []\<rparr>"

definition ex_tree :: ctree where
  "ex_tree = ct_exec (CtBuild ''r'' ''a'' 150) (ct_new ex_cluster (Some 2) (Some 100))"

lemma ex_cluster_plain: "plain_id (sn_id (cl_heap ex_cluster r))"
  by (simp add: ex_cluster_def sn_new_def plain_id_def)

theorem tree_replay_witness:
  "open_links ''r'' (ct_log ex_tree) = {(''a'', ''b''), (''a'', ''c'')} \<and> open_links ''r'' (ct_log (ct_exec (CtFail 1) ex_tree)) = {(''a'', ''c'')}"
proof -
  have e: "ct_enabled (CtBuild ''r'' ''a'' 150)" "ct_enabled (CtFail 1)" by (simp_all add: ct_enabled_def plain_id_def)
  have r: "ct_step\<^sup>*\<^sup>* (ct_new ex_cluster (Some 2) (Some 100)) ex_tree" unfolding ex_tree_def by (intro r_into_rtranclp ct_step.step e)
  have r': "ct_step\<^sup>*\<^sup>* (ct_new ex_cluster (Some 2) (Some 100)) (ct_exec (CtFail 1) ex_tree)"
    by (rule rtranclp.rtrancl_into_rtrancl [OF r ct_step.step [OF e(2)]])
  have "map_option cp_links (ct_getPlan ''r'' ex_tree) = Some [(''a'', ''b''), (''a'', ''c'')]"
    "map_option cp_links (ct_getPlan ''r'' (ct_exec (CtFail 1) ex_tree)) = Some [(''a'', ''c'')]" by code_simp+
  then show ?thesis using tree_replay [OF ex_cluster_plain r, of "''r''"] tree_replay [OF ex_cluster_plain r', of "''r''"] by (auto split: option.splits)
qed

section \<open>Losing a node\<close>

text \<open>What becomes of a room's tree when the node \<open>i\<close> is lost.\<close>

definition lost_outcome :: "string \<Rightarrow> room_tree option \<Rightarrow> room_tree option \<Rightarrow> bool" where
  "lost_outcome i old new \<longleftrightarrow>
     (case old of
        None \<Rightarrow> new = None
      | Some t \<Rightarrow>
          if \<not> jm_has (cp_nodes (ctr_plan t)) i then new = Some t
          else if ctr_originId t = i then new = None
          else (case new of
                  None \<Rightarrow> False
                | Some t' \<Rightarrow> ctr_originId t' = ctr_originId t \<and> ctr_viewerCount t' = ctr_viewerCount t \<and> \<not> jm_has (cp_nodes (ctr_plan t')) i))"

definition tree_ready :: "string \<Rightarrow> ctree \<Rightarrow> bool" where
  "tree_ready i s \<longleftrightarrow> 1 \<le> ct_fanout s \<and> 1 \<le> ct_viewersPerNode s \<and> (\<forall>r \<in> set (cl_getActiveNodes s). sn_id (cl_heap s r) \<noteq> i)"

lemma tree_ready_cong:
  assumes "tree_ready i s" "ct_fanout s' = ct_fanout s" "ct_viewersPerNode s' = ct_viewersPerNode s" "cl_nodes s' = cl_nodes s"
    "\<And>r. sn_id (cl_heap s' r) = sn_id (cl_heap s r)" "\<And>r. sn_failed (cl_heap s' r) = sn_failed (cl_heap s r)"
    "\<And>r. sn_draining (cl_heap s' r) = sn_draining (cl_heap s r)"
  shows "tree_ready i s'"
  using assms by (simp add: tree_ready_def cl_getActiveNodes_def cl_getNodes_def)

lemma rebuilt:
  assumes "tree_ready i s" "org \<noteq> i"
  shows "\<exists>plan. ct_plan org n s = Inr plan \<and> \<not> jm_has (cp_nodes plan) i"
proof -
  obtain plan where p: "ct_plan org n s = Inr plan"
    using assms(1) by (cases "ct_plan org n s") (auto simp: ct_plan_def tree_ready_def planCascadeTree_def Let_def split: if_splits prod.splits)
  have "i \<notin> set (ct_activePool org s)" using assms(1) by (auto simp: tree_ready_def ct_activePool_def)
  then have "i \<notin> set (jm_keys (cp_nodes plan))" using plan_drawn(1) [OF p [unfolded ct_plan_def]] assms(2) by blast
  then show ?thesis using p by (simp add: jm_has_iff)
qed

lemma gone_loop_outcome:
  assumes "tree_ready i s" "distinct (map fst xs)" "\<And>room t. (room, t) \<in> set xs \<Longrightarrow> jm_get (ct_rooms s) room = Some t"
  shows "if q \<in> fst ` set xs then lost_outcome i (jm_get (ct_rooms s) q) (jm_get (ct_rooms (ct_gone_loop i xs s)) q)
    else jm_get (ct_rooms (ct_gone_loop i xs s)) q = jm_get (ct_rooms s) q"
  using assms
proof (induction xs arbitrary: s)
  case (Cons x xs)
  obtain room t where x: "x = (room, t)" by fastforce
  have t: "jm_get (ct_rooms s) room = Some t" using Cons.prems(3) x by simp
  have new: "room \<notin> fst ` set xs" using Cons.prems(2) x by auto
  have pre: "jm_get (ct_rooms s') r = Some u"
    if "(r, u) \<in> set xs" "\<And>k. k \<noteq> room \<Longrightarrow> jm_get (ct_rooms s') k = jm_get (ct_rooms s) k" for s' r u
    using that new Cons.prems(3) by (metis fst_conv image_eqI list.set_intros(2))
  have go: ?case if k: "ct_gone_loop i (x # xs) s = ct_gone_loop i xs s'" "tree_ready i s'" "\<And>k. k \<noteq> room \<Longrightarrow> jm_get (ct_rooms s') k = jm_get (ct_rooms s) k"
    "lost_outcome i (Some t) (jm_get (ct_rooms s') room)" for s'
  proof -
    have h: "if q \<in> fst ` set xs then lost_outcome i (jm_get (ct_rooms s') q) (jm_get (ct_rooms (ct_gone_loop i xs s')) q)
      else jm_get (ct_rooms (ct_gone_loop i xs s')) q = jm_get (ct_rooms s') q"
      using Cons.prems(2) pre k by (intro Cons.IH) auto
    show ?thesis
    proof (cases "q = room")
      case True
      then show ?thesis using h k(1,4) new t x by simp
    next
      case False
      then have e: "jm_get (ct_rooms s') q = jm_get (ct_rooms s) q" "q \<in> fst ` set (x # xs) \<longleftrightarrow> q \<in> fst ` set xs" using k(3) x by auto
      show ?thesis using h unfolding k(1) e(2) e(1) [symmetric] .
    qed
  qed
  show ?case
  proof (cases "jm_has (cp_nodes (ctr_plan t)) i")
    case False
    show ?thesis by (rule go [of s]) (use False x t Cons.prems(1) in \<open>simp_all add: lost_outcome_def\<close>)
  next
    case h: True
    show ?thesis
    proof (cases "ctr_originId t = i")
      case True
      define s' where "s' = ct_emits [OriginLost room i] (snd (ct_detach room s))"
      note e = detach_effect [OF t]
      have "tree_ready i s'" by (rule tree_ready_cong [OF Cons.prems(1)]) (simp_all add: s'_def e)
      then show ?thesis by (rule go [rotated]) (use True h x in \<open>simp_all add: s'_def e lost_outcome_def\<close>)
    next
      case False
      obtain plan where p: "ct_plan (ctr_originId t) (ctr_viewerCount t) s = Inr plan" "\<not> jm_has (cp_nodes plan) i"
        using rebuilt [OF Cons.prems(1) False] by blast
      define s' where "s' = snd (ct_build room (ctr_originId t) (ctr_viewerCount t) s)"
      note e = build_effect [OF p(1), where room = room, folded s'_def]
      have b: "ct_build room (ctr_originId t) (ctr_viewerCount t) s = (Inr plan, s')" using e(1) by (simp add: s'_def prod_eq_iff)
      have "tree_ready i s'" by (rule tree_ready_cong [OF Cons.prems(1)]) (simp_all add: e)
      then show ?thesis by (rule go [rotated]) (use False h x b p(2) in \<open>simp_all add: e(2) lost_outcome_def\<close>)
    qed
  qed
qed simp

lemma gone_outcome:
  assumes "tree_ready (sn_id (cl_heap s r)) s" and wf: "jm_wf (ct_rooms s)"
  shows "lost_outcome (sn_id (cl_heap s r)) (jm_get (ct_rooms s) q) (jm_get (ct_rooms (ct_onNodeGone r s)) q)"
proof -
  let ?t = "ct_gone_loop (sn_id (cl_heap s r)) (ct_rooms s) s"
  have o: "if q \<in> fst ` set (ct_rooms s) then lost_outcome (sn_id (cl_heap s r)) (jm_get (ct_rooms s) q) (jm_get (ct_rooms ?t) q)
    else jm_get (ct_rooms ?t) q = jm_get (ct_rooms s) q"
  proof (rule gone_loop_outcome [OF assms(1)])
    show "distinct (map fst (ct_rooms s))" using wf by (simp add: jm_wf_def)
    show "jm_get (ct_rooms s) room = Some t" if "(room, t) \<in> set (ct_rooms s)" for room t using that jm_mem_iff [OF wf] by blast
  qed
  show ?thesis
  proof (cases "q \<in> fst ` set (ct_rooms s)")
    case True
    then show ?thesis using o by (simp add: ct_onNodeGone_def)
  next
    case False
    then have "jm_get (ct_rooms s) q = None" by (simp add: map_of_eq_None_iff)
    then show ?thesis using o False by (simp add: ct_onNodeGone_def lost_outcome_def)
  qed
qed

text \<open>
  (C39) When a registered node fails, or is removed without draining, every room's tree is right afterwards: a room
  without the node keeps its tree, a room whose origin it was loses its tree, and every other room that used it has a
  new tree with the same origin and the same number of viewers in which the node has no place.
\<close>

theorem tree_lost_node:
  assumes "jm_wf (ct_rooms s)" "jm_wf (cl_nodes s)" "\<And>k q. jm_get (cl_nodes s) k = Some q \<Longrightarrow> sn_id (cl_heap s q) = k"
    and "jm_get (cl_nodes s) i = Some r" "jm_get (tk_listeners s) i = Some r" "i \<notin> set (tk_gone s)" "\<not> sn_failed (cl_heap s r)"
    and "1 \<le> ct_fanout s" "1 \<le> ct_viewersPerNode s"
    and "s' = sn_markFailed ct_listen r s \<or> \<not> sn_draining (cl_heap s r) \<and> s' = snd (cl_removeNode ct_listen i s)"
  shows "lost_outcome i (jm_get (ct_rooms s) room) (jm_get (ct_rooms s') room)"
proof -
  have ri: "sn_id (cl_heap s r) = i" by (rule assms(3) [OF assms(4)])
  have only: "q = r" if q: "q \<in> set (cl_getNodes s)" "sn_id (cl_heap s q) = i" for q
  proof -
    obtain k where "(k, q) \<in> set (cl_nodes s)" using q(1) by (auto simp: cl_getNodes_def)
    then have "jm_get (cl_nodes s) k = Some q" using jm_mem_iff [OF assms(2)] by blast
    moreover from this have "k = i" using assms(3) q(2) by blast
    ultimately show ?thesis using assms(4) by simp
  qed
  show ?thesis
    using assms(10)
  proof
    assume e: "s' = sn_markFailed ct_listen r s"
    define t where "t = (cl_upd r (\<lambda>x. let x1 = sn_stopStatsCollection (x\<lparr>sn_failed := True\<rparr>)
                            in if sn_draining x1 then x1\<lparr>sn_drainWaiting := False\<rparr> else x1) s)\<lparr>tk_gone := js_add i (tk_gone s)\<rparr>"
    have id: "sn_id (cl_heap t q) = sn_id (cl_heap s q)" "sn_failed (cl_heap t r)" for q
      by (simp_all add: t_def cl_upd_def sn_stopStatsCollection_def Let_def)
    have m: "ct_rooms t = ct_rooms s" "cl_nodes t = cl_nodes s" "ct_fanout t = ct_fanout s" "ct_viewersPerNode t = ct_viewersPerNode s"
      by (simp_all add: t_def cl_upd_def)
    have s': "s' = ct_onNodeGone r t"
      using assms(5-7) ri unfolding e sn_markFailed_def ct_listen_def tk_emit_def tk_fireGone_def
      by (simp add: t_def cl_upd_def sn_stopStatsCollection_def Let_def)
    have "tree_ready (sn_id (cl_heap t r)) t"
      using only id assms(8,9) by (auto simp: tree_ready_def m ri cl_getActiveNodes_def cl_getNodes_def)
    then show ?thesis using gone_outcome [of t r room] assms(1) by (simp add: s' m id ri)
  next
    assume e: "\<not> sn_draining (cl_heap s r) \<and> s' = snd (cl_removeNode ct_listen i s)"
    define t where "t = s\<lparr>cl_nodes := jm_delete i (cl_nodes s), cl_failStreak := jm_delete i (cl_failStreak s), cl_passStreak := jm_delete i (cl_passStreak s),
      tk_listeners := jm_delete i (tk_listeners s), tk_gone := js_add i (tk_gone s)\<rparr>"
    have s': "s' = ct_onNodeGone r t"
      using e assms(4,6) ri by (simp add: cl_removeNode_def ct_listen_def tk_emit_def tk_detach_def tk_fireGone_def Let_def t_def)
    have "sn_id (cl_heap s q) \<noteq> i" if q: "q \<in> set (cl_getNodes t)" for q
    proof -
      obtain k where k: "(k, q) \<in> set (cl_nodes s)" "k \<noteq> i" using q by (auto simp: cl_getNodes_def t_def set_jm_delete)
      then show ?thesis using assms(3) jm_mem_iff [OF assms(2)] by blast
    qed
    then have "tree_ready (sn_id (cl_heap t r)) t"
      using assms(8,9) ri by (auto simp: tree_ready_def cl_getActiveNodes_def t_def)
    then show ?thesis using gone_outcome [of t r room] assms(1) by (simp add: s' ri) (simp add: t_def ri)
  qed
qed

theorem tree_lost_node_witness:
  "lost_outcome ''b'' (jm_get (ct_rooms ex_tree) ''r'') (jm_get (ct_rooms (sn_markFailed ct_listen 1 ex_tree)) ''r'') \<and>
   jm_has (cp_nodes (ctr_plan (the (jm_get (ct_rooms ex_tree) ''r'')))) ''b''"
proof -
  have n: "cl_nodes ex_tree = [(''a'', 0), (''b'', 1), (''c'', 2)]" by code_simp
  have i: "sn_id (cl_heap ex_tree 0) = ''a''" "sn_id (cl_heap ex_tree 1) = ''b''" "sn_id (cl_heap ex_tree 2) = ''c''" by code_simp+
  have keys: "sn_id (cl_heap ex_tree q) = k" if "jm_get (cl_nodes ex_tree) k = Some q" for k q
    using that i unfolding n by (auto split: if_splits)
  have "jm_wf (ct_rooms ex_tree)" "jm_wf (cl_nodes ex_tree)" "jm_get (cl_nodes ex_tree) ''b'' = Some 1" "jm_get (tk_listeners ex_tree) ''b'' = Some 1"
    "''b'' \<notin> set (tk_gone ex_tree)" "\<not> sn_failed (cl_heap ex_tree 1)" "1 \<le> ct_fanout ex_tree" "1 \<le> ct_viewersPerNode ex_tree" by code_simp+
  then have "lost_outcome ''b'' (jm_get (ct_rooms ex_tree) ''r'') (jm_get (ct_rooms (sn_markFailed ct_listen 1 ex_tree)) ''r'')"
    using tree_lost_node [OF _ _ keys] by blast
  moreover have "jm_has (cp_nodes (ctr_plan (the (jm_get (ct_rooms ex_tree) ''r'')))) ''b''" by code_simp
  ultimately show ?thesis by blast
qed

end
