(* ===== verification/FtWire.thy ===== *)
theory FtWire
  imports Prelude "HOL-Library.Sublist"
begin

text \<open>
  The wire formats of \<^verbatim>\<open>packages/sdk/src/filetransfer\<close>: \<^verbatim>\<open>errors.ts\<close>, \<^verbatim>\<open>framing.ts\<close>, \<^verbatim>\<open>checksum.ts\<close>,
  \<^verbatim>\<open>protocol.ts\<close>, \<^verbatim>\<open>sanitize.ts\<close>. Bytes are \<open>8 word\<close>s and the frame header is a \<open>32 word\<close>, so the
  wrap-around of \<^verbatim>\<open>setUint32\<close> is part of the model. WebCrypto's SHA-256 is a parameter (\<open>hasher\<close>), absent where the
  platform has none. A control message on the wire is a \<open>json\<close> value: \<^verbatim>\<open>JSON.stringify\<close> and
  \<^verbatim>\<open>JSON.parse\<close> are taken as inverse to each other.
\<close>

unbundle bit_operations_syntax

section \<open>Errors\<close>

datatype ft_code =
    OfferRejected | ChecksumMismatch | Cancelled | SinkWriteFailed | SourceReadFailed | ChannelClosed
  | InvalidFrame | InvalidState | Timeout

datatype ft_error = FtError (fe_message: string) (fe_code: ft_code) (fe_transferId: "string option")

section \<open>Framing\<close>

type_synonym bytes = "8 word list"

definition FRAME_HEADER_BYTES :: nat where "FRAME_HEADER_BYTES = 4"

text \<open>\<^verbatim>\<open>DataView.setUint32\<close> and \<^verbatim>\<open>getUint32\<close>, big-endian.\<close>

definition setUint32 :: "nat \<Rightarrow> bytes" where
  "setUint32 n = map (\<lambda>k. ucast (drop_bit (8 * k) (of_nat n :: 32 word))) [3, 2, 1, 0]"

definition getUint32 :: "bytes \<Rightarrow> nat" where
  "getUint32 bs = unat (foldl (\<lambda>a b. push_bit 8 a OR ucast b) (0 :: 32 word) (take 4 bs))"

definition encodeFrame :: "nat \<Rightarrow> bytes \<Rightarrow> bytes" where
  "encodeFrame seq payload = setUint32 seq @ payload"

definition decodeFrame :: "bytes \<Rightarrow> ft_error + nat \<times> bytes" where
  "decodeFrame data =
     (if length data < FRAME_HEADER_BYTES
      then Inl (FtError (''frame too small: '' @ js_nat_str (length data) @ '' bytes'') InvalidFrame None)
      else Inr (getUint32 data, drop FRAME_HEADER_BYTES data))"

text \<open>What a data channel delivers: bytes (an \<^verbatim>\<open>ArrayBuffer\<close>, a view or a \<^verbatim>\<open>Blob\<close>), or a value of another type.\<close>

datatype channel_data = Binary bytes | OtherType string

fun toArrayBuffer :: "channel_data \<Rightarrow> ft_error + bytes" where
  "toArrayBuffer (Binary bs) = Inr bs"
| "toArrayBuffer (OtherType t) = Inl (FtError (''unsupported data-channel message type: '' @ t) InvalidFrame None)"

section \<open>Checksums\<close>

type_synonym hasher = "(bytes \<Rightarrow> bytes) option"

definition sha256Raw :: "hasher \<Rightarrow> bytes \<Rightarrow> ft_error + bytes" where
  "sha256Raw subtle bs =
     (case subtle of
        None \<Rightarrow> Inl (FtError ''WebCrypto SubtleCrypto is unavailable; cannot compute checksum'' InvalidState None)
      | Some digest \<Rightarrow> Inr (digest bs))"

definition hex_char :: "nat \<Rightarrow> char" where
  "hex_char n = (''0123456789abcdef'' ! n)"

definition hex :: "bytes \<Rightarrow> string" where
  "hex bs = concat (map (\<lambda>b. [hex_char (unat b div 16), hex_char (unat b mod 16)]) bs)"

definition sha256Hex :: "hasher \<Rightarrow> bytes \<Rightarrow> ft_error + string" where
  "sha256Hex subtle bs = (case sha256Raw subtle bs of Inl e \<Rightarrow> Inl e | Inr d \<Rightarrow> Inr (hex d))"

type_synonym digests = "(nat, bytes) jsmap"

definition dg_update :: "hasher \<Rightarrow> nat \<Rightarrow> bytes \<Rightarrow> digests \<Rightarrow> ft_error + digests" where
  "dg_update subtle seq bs ds = (case sha256Raw subtle bs of Inl e \<Rightarrow> Inl e | Inr d \<Rightarrow> Inr (jm_set seq d ds))"

text \<open>\<^verbatim>\<open>Uint8Array.set\<close> within the buffer.\<close>

definition u8_set :: "bytes \<Rightarrow> nat \<Rightarrow> bytes \<Rightarrow> bytes" where
  "u8_set buf off data = take off buf @ data @ drop (off + length data) buf"

definition dg_joined :: "digests \<Rightarrow> bytes" where
  "dg_joined ds =
     (let seqs = sort (jm_keys ds)
      in snd (fold (\<lambda>s (off, joined). (off + 32, u8_set joined off (the (jm_get ds s)))) seqs
                (0, replicate (length seqs * 32) 0)))"

definition dg_finalize :: "hasher \<Rightarrow> digests \<Rightarrow> ft_error + string" where
  "dg_finalize subtle ds = sha256Hex subtle (dg_joined ds)"

definition dg_reset :: "digests \<Rightarrow> digests" where
  "dg_reset ds = []"

section \<open>Control messages\<close>

record offer =
  of_version :: "int option"
  of_name :: string
  of_mimeType :: string
  of_size :: nat
  of_chunkSize :: nat
  of_totalChunks :: nat
  of_parallelChannels :: nat
  of_checksum :: bool

datatype control_message =
    Offer string offer
  | Accept string "nat list option"
  | Reject string "string option"
  | ResumeRequest string "nat list"
  | Sent string "string option"
  | Complete string
  | ChecksumMismatchMsg string
  | Cancel string "string option"
  | Pause string
  | Resume string

fun cm_transferId :: "control_message \<Rightarrow> string" where
  "cm_transferId (Offer i _) = i"
| "cm_transferId (Accept i _) = i"
| "cm_transferId (Reject i _) = i"
| "cm_transferId (ResumeRequest i _) = i"
| "cm_transferId (Sent i _) = i"
| "cm_transferId (Complete i) = i"
| "cm_transferId (ChecksumMismatchMsg i) = i"
| "cm_transferId (Cancel i _) = i"
| "cm_transferId (Pause i) = i"
| "cm_transferId (Resume i) = i"

definition FT_PROTOCOL_VERSION :: int where "FT_PROTOCOL_VERSION = 1"

text \<open>The JSON of a message; an \<^verbatim>\<open>undefined\<close> property is left out.\<close>

definition j_int :: "int \<Rightarrow> json" where
  "j_int n = JNumber (JFin (of_int n))"

definition j_opt :: "string \<Rightarrow> json option \<Rightarrow> (string \<times> json) list" where
  "j_opt k v = (case v of None \<Rightarrow> [] | Some x \<Rightarrow> [(k, x)])"

definition j_msg :: "string \<Rightarrow> string \<Rightarrow> (string \<times> json) list \<Rightarrow> json" where
  "j_msg t i fs = JObject ((''type'', JString t) # (''transferId'', JString i) # fs)"

definition j_nats :: "nat list \<Rightarrow> json" where
  "j_nats ns = JArray (map (\<lambda>n. j_int (int n)) ns)"

fun cm_json :: "control_message \<Rightarrow> json" where
  "cm_json (Offer i f) =
     j_msg ''ft-offer'' i
       (j_opt ''version'' (map_option j_int (of_version f)) @
        [(''name'', JString (of_name f)), (''mimeType'', JString (of_mimeType f)), (''size'', j_int (int (of_size f))),
         (''chunkSize'', j_int (int (of_chunkSize f))), (''totalChunks'', j_int (int (of_totalChunks f))),
         (''parallelChannels'', j_int (int (of_parallelChannels f))), (''checksum'', JBool (of_checksum f))])"
| "cm_json (Accept i have) = j_msg ''ft-accept'' i (j_opt ''haveChunks'' (map_option j_nats have))"
| "cm_json (Reject i reason) = j_msg ''ft-reject'' i (j_opt ''reason'' (map_option JString reason))"
| "cm_json (ResumeRequest i have) = j_msg ''ft-resume-request'' i [(''haveChunks'', j_nats have)]"
| "cm_json (Sent i digest) = j_msg ''ft-sent'' i (j_opt ''digest'' (map_option JString digest))"
| "cm_json (Complete i) = j_msg ''ft-complete'' i []"
| "cm_json (ChecksumMismatchMsg i) = j_msg ''ft-checksum-mismatch'' i []"
| "cm_json (Cancel i reason) = j_msg ''ft-cancel'' i (j_opt ''reason'' (map_option JString reason))"
| "cm_json (Pause i) = j_msg ''ft-pause'' i []"
| "cm_json (Resume i) = j_msg ''ft-resume'' i []"

text \<open>The schema: \<^verbatim>\<open>z.string()\<close>, \<^verbatim>\<open>z.boolean()\<close>, \<^verbatim>\<open>z.number().int()\<close> with their bounds, \<^verbatim>\<open>.optional()\<close>.\<close>

fun z_string :: "json \<Rightarrow> string option" where
  "z_string (JString s) = Some s"
| "z_string _ = None"

fun z_bool :: "json \<Rightarrow> bool option" where
  "z_bool (JBool b) = Some b"
| "z_bool _ = None"

text \<open>\<^verbatim>\<open>z.number().int()\<close> accepts only the safe integers.\<close>

definition safe_int :: "int \<Rightarrow> bool" where
  "safe_int n \<longleftrightarrow> \<bar>n\<bar> \<le> 2 ^ 53 - 1"

fun z_int :: "json \<Rightarrow> int option" where
  "z_int (JNumber (JFin r)) = (if jsnum_integer (JFin r) \<and> safe_int \<lfloor>r\<rfloor> then Some \<lfloor>r\<rfloor> else None)"
| "z_int _ = None"

definition z_nat :: "json \<Rightarrow> nat option" where
  "z_nat j = (case z_int j of Some n \<Rightarrow> if 0 \<le> n then Some (nat n) else None | None \<Rightarrow> None)"

definition z_pos :: "json \<Rightarrow> nat option" where
  "z_pos j = (case z_nat j of Some n \<Rightarrow> if 0 < n then Some n else None | None \<Rightarrow> None)"

fun z_all :: "(json \<Rightarrow> 'a option) \<Rightarrow> json list \<Rightarrow> 'a list option" where
  "z_all f [] = Some []"
| "z_all f (x # xs) = (case f x of None \<Rightarrow> None | Some y \<Rightarrow> map_option (Cons y) (z_all f xs))"

fun z_nats :: "json \<Rightarrow> nat list option" where
  "z_nats (JArray xs) = z_all z_nat xs"
| "z_nats _ = None"

definition z_field :: "(json \<Rightarrow> 'a option) \<Rightarrow> string \<Rightarrow> json \<Rightarrow> 'a option" where
  "z_field f k j = Option.bind (json_field j k) f"

definition z_optional :: "(json \<Rightarrow> 'a option) \<Rightarrow> string \<Rightarrow> json \<Rightarrow> 'a option option" where
  "z_optional f k j = (case json_field j k of None \<Rightarrow> Some None | Some x \<Rightarrow> map_option Some (f x))"

definition z_offer :: "json \<Rightarrow> offer option" where
  "z_offer j =
     (case (z_optional z_int ''version'' j, z_field z_string ''name'' j, z_field z_string ''mimeType'' j, z_field z_nat ''size'' j,
            z_field z_pos ''chunkSize'' j, z_field z_nat ''totalChunks'' j, z_field z_pos ''parallelChannels'' j,
            z_field z_bool ''checksum'' j) of
        (Some v, Some n, Some m, Some s, Some c, Some t, Some p, Some b) \<Rightarrow>
          Some \<lparr>of_version = v, of_name = n, of_mimeType = m, of_size = s, of_chunkSize = c, of_totalChunks = t,
                of_parallelChannels = p, of_checksum = b\<rparr>
      | _ \<Rightarrow> None)"

definition cm_parse :: "json \<Rightarrow> control_message option" where
  "cm_parse j =
     (case (z_field z_string ''type'' j, z_field z_string ''transferId'' j) of
        (Some t, Some i) \<Rightarrow>
          if t = ''ft-offer'' then map_option (Offer i) (z_offer j)
          else if t = ''ft-accept'' then map_option (Accept i) (z_optional z_nats ''haveChunks'' j)
          else if t = ''ft-reject'' then map_option (Reject i) (z_optional z_string ''reason'' j)
          else if t = ''ft-resume-request'' then map_option (ResumeRequest i) (z_field z_nats ''haveChunks'' j)
          else if t = ''ft-sent'' then map_option (Sent i) (z_optional z_string ''digest'' j)
          else if t = ''ft-complete'' then Some (Complete i)
          else if t = ''ft-checksum-mismatch'' then Some (ChecksumMismatchMsg i)
          else if t = ''ft-cancel'' then map_option (Cancel i) (z_optional z_string ''reason'' j)
          else if t = ''ft-pause'' then Some (Pause i)
          else if t = ''ft-resume'' then Some (Resume i)
          else None
      | _ \<Rightarrow> None)"

section \<open>Channel labels\<close>

definition CONTROL_CHANNEL_LABEL :: string where "CONTROL_CHANNEL_LABEL = ''rtcforge-ft-ctrl''"

definition dataChannelLabel :: "string \<Rightarrow> nat \<Rightarrow> string" where
  "dataChannelLabel transferId index = ''rtcforge-ft-'' @ transferId @ ''-'' @ js_nat_str index"

definition is_digit :: "char \<Rightarrow> bool" where
  "is_digit c \<longleftrightarrow> 48 \<le> (of_char c :: nat) \<and> (of_char c :: nat) \<le> 57"

text \<open>
  The pattern \<^verbatim>\<open>^rtcforge-ft-(.+)-(\d+)$\<close>: digits hold no dash, so the second group is the run of digits at the
  end and the first group ends at the dash before it; the dot matches no line terminator.
\<close>

definition parseDataChannelLabel :: "string \<Rightarrow> (string \<times> nat) option" where
  "parseDataChannelLabel label =
     (if \<not> prefix ''rtcforge-ft-'' label then None
      else (let rest = drop (length ''rtcforge-ft-'') label;
                digits = rev (takeWhile is_digit (rev rest));
                front = take (length rest - length digits) rest
            in if digits = [] \<or> front = [] \<or> last front \<noteq> CHR ''-'' \<or> butlast front = [] \<or>
                  (\<exists>c \<in> set (butlast front). c = CHR 0x0A \<or> c = CHR 0x0D)
               then None else Some (butlast front, js_digits_val digits)))"

section \<open>File names\<close>

text \<open>The white space \<^verbatim>\<open>trim\<close> removes.\<close>

definition u16_space :: "16 word \<Rightarrow> bool" where
  "u16_space c \<longleftrightarrow> c \<in> {0x20, 0xA0, 0x1680, 0x2028, 0x2029, 0x202F, 0x205F, 0x3000, 0xFEFF} \<or>
     0x09 \<le> c \<and> c \<le> 0x0D \<or> 0x2000 \<le> c \<and> c \<le> 0x200A"

definition u16_trim :: "utf16 \<Rightarrow> utf16" where
  "u16_trim s = rev (dropWhile u16_space (rev (dropWhile u16_space s)))"

definition unsafe_unit :: "16 word \<Rightarrow> bool" where
  "unsafe_unit c \<longleftrightarrow> c \<le> 0x1F \<or> c \<in> set (u16 ''<>:|?*'') \<or> c = 0x22"

definition separator_unit :: "16 word \<Rightarrow> bool" where
  "separator_unit c \<longleftrightarrow> c = 0x2F \<or> c = 0x5C"

definition sanitizeFileName :: "utf16 \<Rightarrow> utf16" where
  "sanitizeFileName name =
     (let base = rev (takeWhile (\<lambda>c. \<not> separator_unit c) (rev name));
          cleaned = u16_trim (dropWhile (\<lambda>c. c = 0x2E) (filter (\<lambda>c. \<not> unsafe_unit c) base))
      in if length cleaned > 0 then take 255 cleaned else u16 ''download'')"

section \<open>Frames round trip\<close>

lemma setUint32_length [simp]: "length (setUint32 n) = 4"
  by (simp add: setUint32_def)

lemma unat_of_nat32: "unat (of_nat n :: 32 word) = n mod 2 ^ 32"
  by (simp add: unat_of_nat)

lemma be_word:
  fixes w :: "32 word"
  shows "foldl (\<lambda>a b. push_bit 8 a OR ucast b) (0 :: 32 word)
           (map (\<lambda>k. ucast (drop_bit (8 * k) w) :: 8 word) [3, 2, 1, 0]) = w"
proof (rule bit_word_eqI)
  fix k :: nat
  assume "k < LENGTH(32)"
  then have "k < 8 \<or> (8 \<le> k \<and> k < 16) \<or> (16 \<le> k \<and> k < 24) \<or> (24 \<le> k \<and> k < 32)" by auto
  then show "bit (foldl (\<lambda>a b. push_bit 8 a OR ucast b) (0 :: 32 word)
      (map (\<lambda>k. ucast (drop_bit (8 * k) w) :: 8 word) [3, 2, 1, 0])) k = bit w k"
    by (elim disjE) (auto simp: bit_simps)
qed

lemma getUint32_set: "getUint32 (setUint32 n @ rest) = n mod 2 ^ 32"
proof -
  have "take 4 (setUint32 n @ rest) = setUint32 n" by simp
  then show ?thesis
    unfolding getUint32_def by (simp only: setUint32_def be_word unat_of_nat32)
qed

lemma decode_encode: "decodeFrame (encodeFrame seq payload) = Inr (seq mod 2 ^ 32, payload)"
  by (simp add: decodeFrame_def encodeFrame_def FRAME_HEADER_BYTES_def getUint32_set)

section \<open>Control messages round trip\<close>

definition safe_nats :: "nat list \<Rightarrow> bool" where
  "safe_nats ns \<longleftrightarrow> list_all (\<lambda>n. safe_int (int n)) ns"

text \<open>What the schema asks of the numbers of a message.\<close>

fun cm_valid :: "control_message \<Rightarrow> bool" where
  "cm_valid (Offer i f) \<longleftrightarrow> of_chunkSize f > 0 \<and> of_parallelChannels f > 0 \<and>
     safe_nats [of_size f, of_chunkSize f, of_totalChunks f, of_parallelChannels f] \<and>
     (case of_version f of Some v \<Rightarrow> safe_int v | None \<Rightarrow> True)"
| "cm_valid (Accept i h) \<longleftrightarrow> (case h of Some ns \<Rightarrow> safe_nats ns | None \<Rightarrow> True)"
| "cm_valid (ResumeRequest i ns) \<longleftrightarrow> safe_nats ns"
| "cm_valid _ \<longleftrightarrow> True"

named_theorems z_simps \<open>reading back what \<open>cm_json\<close> writes\<close>

lemma z_int_j [z_simps]: "safe_int n \<Longrightarrow> z_int (j_int n) = Some n"
  by (simp add: j_int_def)

lemma z_nat_j [z_simps]: "safe_int (int n) \<Longrightarrow> z_nat (j_int (int n)) = Some n"
  by (simp add: z_nat_def z_int_j)

lemma z_pos_j [z_simps]: "safe_int (int n) \<Longrightarrow> 0 < n \<Longrightarrow> z_pos (j_int (int n)) = Some n"
  by (simp add: z_pos_def z_nat_j)

lemma z_nats_j [z_simps]: "safe_nats ns \<Longrightarrow> z_nats (j_nats ns) = Some ns"
  unfolding j_nats_def z_nats.simps by (induction ns) (simp_all add: z_nat_j safe_nats_def)

lemma json_field_msg [z_simps]:
  "json_field (j_msg t i fs) k =
     (if k = ''type'' then Some (JString t) else if k = ''transferId'' then Some (JString i) else map_of fs k)"
  by (simp add: j_msg_def)

lemma map_of_j_opt_alone [z_simps]: "map_of (j_opt k v) k' = (if k' = k then v else None)"
  by (auto simp: j_opt_def split: option.splits)

lemmas z_defs = z_simps z_field_def z_optional_def cm_parse_def option.map_comp comp_def

lemma z_offer_json: "cm_valid (Offer i f) \<Longrightarrow> z_offer (cm_json (Offer i f)) = Some f"
  by (cases f; cases "of_version f") (simp_all add: z_offer_def z_defs j_opt_def safe_nats_def)

lemma cm_roundtrip_offer: "cm_valid (Offer i f) \<Longrightarrow> cm_parse (cm_json (Offer i f)) = Some (Offer i f)"
proof -
  assume v: "cm_valid (Offer i f)"
  have "z_field z_string ''type'' (cm_json (Offer i f)) = Some ''ft-offer''"
    "z_field z_string ''transferId'' (cm_json (Offer i f)) = Some i" by (simp_all add: z_field_def json_field_msg)
  then show ?thesis using z_offer_json [OF v] by (simp add: cm_parse_def del: cm_json.simps)
qed

lemma cm_roundtrip_rest:
  "cm_valid (Accept i h) \<Longrightarrow> cm_parse (cm_json (Accept i h)) = Some (Accept i h)"
  "cm_parse (cm_json (Reject i r)) = Some (Reject i r)"
  "cm_valid (ResumeRequest i n) \<Longrightarrow> cm_parse (cm_json (ResumeRequest i n)) = Some (ResumeRequest i n)"
  "cm_parse (cm_json (Sent i d)) = Some (Sent i d)"
  "cm_parse (cm_json (Complete i)) = Some (Complete i)"
  "cm_parse (cm_json (ChecksumMismatchMsg i)) = Some (ChecksumMismatchMsg i)"
  "cm_parse (cm_json (Cancel i r)) = Some (Cancel i r)"
  "cm_parse (cm_json (Pause i)) = Some (Pause i)"
  "cm_parse (cm_json (Resume i)) = Some (Resume i)"
  by (cases h; simp add: z_defs) (cases r; cases d; simp add: z_defs)+

lemma cm_roundtrip: "cm_valid m \<Longrightarrow> cm_parse (cm_json m) = Some m"
  by (cases m) (simp_all only: cm_roundtrip_rest cm_roundtrip_offer)

section \<open>Labels round trip\<close>

lemma takeWhile_digits:
  "takeWhile is_digit (rev (js_nat_str n) @ CHR ''-'' # xs) = rev (js_nat_str n)"
proof -
  have "is_digit c" if "c \<in> set (rev (js_nat_str n))" for c
    using js_nat_str_digits [of c n] that by (simp add: is_digit_def)
  moreover have "\<not> is_digit (CHR ''-'')" by (simp add: is_digit_def)
  ultimately show ?thesis by (subst takeWhile_append2) auto
qed

lemma label_parse:
  assumes "transferId \<noteq> []" "CHR 0x0A \<notin> set transferId" "CHR 0x0D \<notin> set transferId"
  shows "parseDataChannelLabel (dataChannelLabel transferId index) = Some (transferId, index)"
proof -
  let ?rest = "transferId @ ''-'' @ js_nat_str index"
  have p: "prefix ''rtcforge-ft-'' (dataChannelLabel transferId index)" by (simp add: dataChannelLabel_def)
  have d: "drop (length ''rtcforge-ft-'') (dataChannelLabel transferId index) = ?rest" by (simp add: dataChannelLabel_def)
  have r: "rev ?rest = rev (js_nat_str index) @ CHR ''-'' # rev transferId" by simp
  have w: "rev (takeWhile is_digit (rev ?rest)) = js_nat_str index" unfolding r takeWhile_digits by simp
  have t: "take (length ?rest - length (js_nat_str index)) ?rest = transferId @ ''-''" by simp
  have n: "\<not> (\<exists>c \<in> set transferId. c = CHR 0x0A \<or> c = CHR 0x0D)" using assms(2,3) by blast
  show ?thesis
    unfolding parseDataChannelLabel_def Let_def d w t using p n assms(1) by simp
qed

lemma control_label_no_data: "parseDataChannelLabel CONTROL_CHANNEL_LABEL = None"
  by (simp add: parseDataChannelLabel_def CONTROL_CHANNEL_LABEL_def is_digit_def)

lemma data_label_no_control: "transferId \<noteq> [] \<Longrightarrow> dataChannelLabel transferId index \<noteq> CONTROL_CHANNEL_LABEL"
proof
  assume "dataChannelLabel transferId index = CONTROL_CHANNEL_LABEL"
  then have "last (js_nat_str index) = CHR ''l''"
    by (metis CONTROL_CHANNEL_LABEL_def append_is_Nil_conv dataChannelLabel_def js_nat_str_ne last_appendR last.simps list.distinct(1))
  moreover have "last (js_nat_str index) \<in> set (js_nat_str index)" by simp
  ultimately show False using js_nat_str_digits [of "CHR ''l''" index] by auto
qed

section \<open>Safe file names\<close>

lemma u16_trim_subset: "set (u16_trim s) \<subseteq> set s"
  unfolding u16_trim_def by (auto dest!: set_dropWhileD)

lemma sanitize_cleaned:
  "c \<in> set (sanitizeFileName name) \<Longrightarrow> \<not> separator_unit c \<and> \<not> unsafe_unit c"
proof -
  assume c: "c \<in> set (sanitizeFileName name)"
  have "\<not> separator_unit c \<and> \<not> unsafe_unit c" if "c \<in> set (u16 ''download'')"
    using that by (auto simp: u16_def separator_unit_def unsafe_unit_def)
  moreover have "\<not> separator_unit c \<and> \<not> unsafe_unit c"
    if "c \<in> set (u16_trim (dropWhile (\<lambda>c. c = 0x2E) (filter (\<lambda>c. \<not> unsafe_unit c) (rev (takeWhile (\<lambda>c. \<not> separator_unit c) (rev name))))))"
    using subsetD [OF u16_trim_subset that] by (auto dest!: set_dropWhileD set_takeWhileD)
  ultimately show ?thesis using c by (auto simp: sanitizeFileName_def Let_def split: if_splits dest: in_set_takeD)
qed

lemma sanitize_length: "0 < length (sanitizeFileName name)" "length (sanitizeFileName name) \<le> 255"
  by (auto simp: sanitizeFileName_def Let_def u16_def)

lemma dropWhile_hd: "xs \<noteq> [] \<Longrightarrow> dropWhile P xs = xs \<or> P (hd xs)"
  by (cases xs) auto

lemma u16_trim_hd:
  assumes "s \<noteq> []" "\<not> u16_space (hd s)"
  shows "u16_trim s \<noteq> []" "hd (u16_trim s) = hd s"
proof -
  obtain c cs where s: "s = c # cs" "\<not> u16_space c" using assms by (cases s) auto
  have d: "dropWhile u16_space (rev cs @ [c]) = dropWhile u16_space (rev cs) @ [c]"
    using s(2) by (induction "rev cs" arbitrary: cs rule: list.induct) (auto simp: dropWhile_append)
  show "u16_trim s \<noteq> []" "hd (u16_trim s) = hd s" using s by (simp_all add: u16_trim_def d)
qed

section \<open>Digests\<close>

lemma u8_set_length [simp]: "off + length data \<le> length buf \<Longrightarrow> length (u8_set buf off data) = length buf"
  by (simp add: u8_set_def)

lemma fold_u8_set:
  assumes "\<And>s. s \<in> set seqs \<Longrightarrow> length (f s) = 32" "length buf = off + length seqs * 32"
  shows "snd (fold (\<lambda>s (off, joined). (off + 32, u8_set joined off (f s))) seqs (off, buf)) = take off buf @ concat (map f seqs)"
  using assms
proof (induction seqs arbitrary: off buf)
  case (Cons s seqs)
  have l: "length (f s) = 32" using Cons.prems(1) by simp
  have b: "length (u8_set buf off (f s)) = (off + 32) + length seqs * 32" using Cons.prems(2) l by (subst u8_set_length) auto
  have t: "take (off + 32) (u8_set buf off (f s)) = take off buf @ f s"
    using Cons.prems(2) l by (simp add: u8_set_def)
  show ?case using Cons.IH [OF Cons.prems(1) b] t by simp
qed simp

lemma dg_joined_concat:
  assumes "\<And>s d. jm_get ds s = Some d \<Longrightarrow> length d = 32"
  shows "dg_joined ds = concat (map (\<lambda>s. the (jm_get ds s)) (sort (jm_keys ds)))"
proof -
  have "length (the (jm_get ds s)) = 32" if mem: "s \<in> set (sort (jm_keys ds))" for s
  proof -
    obtain d where "jm_get ds s = Some d" using mem by (cases "jm_get ds s") (auto simp: map_of_eq_None_iff)
    then show ?thesis using assms by simp
  qed
  then show ?thesis unfolding dg_joined_def Let_def by (subst fold_u8_set) auto
qed

lemma sorted_upto:
  assumes "jm_wf ds" "set (jm_keys ds) = {..<n}"
  shows "sort (jm_keys ds) = [0..<n]"
  using assms by (intro sorted_distinct_set_unique) (auto simp: jm_wf_def)

lemma concat_eq_lengths:
  "concat (map f xs) = concat (map g xs) \<Longrightarrow> (\<And>x. x \<in> set xs \<Longrightarrow> length (f x) = length (g x)) \<Longrightarrow> x \<in> set xs \<Longrightarrow> f x = g x"
  by (induction xs) auto

lemma hex_char_inj: "m < 16 \<Longrightarrow> n < 16 \<Longrightarrow> hex_char m = hex_char n \<Longrightarrow> m = n"
proof -
  have d: "distinct ''0123456789abcdef''" by simp
  show "m < 16 \<Longrightarrow> n < 16 \<Longrightarrow> hex_char m = hex_char n \<Longrightarrow> m = n"
    using nth_eq_iff_index_eq [OF d, of m n] by (simp add: hex_char_def)
qed

lemma hex_Cons: "hex (b # bs) = hex_char (unat b div 16) # hex_char (unat b mod 16) # hex bs"
  by (simp add: hex_def)

lemma hex_inj: "hex xs = hex ys \<Longrightarrow> xs = ys"
proof (induction xs arbitrary: ys)
  case Nil
  then show ?case by (cases ys) (simp_all add: hex_Cons, simp add: hex_def)
next
  case (Cons x xs)
  then obtain y ys' where ys: "ys = y # ys'" by (cases ys) (simp_all add: hex_Cons, simp add: hex_def)
  have lt: "unat b div 16 < 16" "unat b mod 16 < 16" for b :: "8 word"
    using unsigned_less [of b, where ?'a = nat] by (simp_all add: less_mult_imp_div_less)
  have "unat x div 16 = unat y div 16" "unat x mod 16 = unat y mod 16"
    using Cons.prems ys by (auto simp: hex_Cons intro: hex_char_inj lt)
  then have "unat x = unat y" by (metis div_mult_mod_eq)
  then have "x = y" by (rule unsigned_word_eqI)
  moreover have "xs = ys'" using Cons.prems ys by (intro Cons.IH) (simp add: hex_Cons)
  ultimately show ?case using ys by simp
qed

section \<open>Properties of the formats\<close>

text \<open>(C21) Whatever is put on the wire is read back: a frame gives its sequence number and payload (for
  sequence numbers below \<open>2 ^ 32\<close>), a control message whose numbers are safe integers, with a positive chunk size and channel count,
  passes the schema and gives the same message, and the label of a data channel whose transfer id is not empty and has no line break gives
  that id and the index and is never taken for the control channel's.\<close>

theorem ft_wire_roundtrip:
  assumes "seq < 2 ^ 32" "cm_valid m"
    and "transferId \<noteq> []" "CHR 0x0A \<notin> set transferId" "CHR 0x0D \<notin> set transferId"
  shows "decodeFrame (encodeFrame seq payload) = Inr (seq, payload) \<and> cm_parse (cm_json m) = Some m \<and>
    parseDataChannelLabel (dataChannelLabel transferId index) = Some (transferId, index) \<and>
    dataChannelLabel transferId index \<noteq> CONTROL_CHANNEL_LABEL"
  using assms decode_encode [of seq payload] cm_roundtrip label_parse data_label_no_control by simp

theorem ft_wire_roundtrip_witness:
  "decodeFrame (encodeFrame 258 [7, 9]) = Inr (258, [7, 9]) \<and>
   cm_parse (cm_json (Accept ''a-1'' (Some [0, 2]))) = Some (Accept ''a-1'' (Some [0, 2])) \<and>
   parseDataChannelLabel (dataChannelLabel ''a-1'' 12) = Some (''a-1'', 12)"
  using ft_wire_roundtrip [of 258 "Accept ''a-1'' (Some [0, 2])" "''a-1''" "[7, 9]" 12] by (simp add: safe_nats_def safe_int_def)

text \<open>The last path segment of a name, without the reserved characters.\<close>

definition name_kept :: "utf16 \<Rightarrow> utf16" where
  "name_kept name = filter (\<lambda>c. \<not> unsafe_unit c) (rev (takeWhile (\<lambda>c. \<not> separator_unit c) (rev name)))"

lemma sanitize_kept:
  "sanitizeFileName name =
     (let cleaned = u16_trim (dropWhile (\<lambda>c. c = 0x2E) (name_kept name)) in if cleaned \<noteq> [] then take 255 cleaned else u16 ''download'')"
  by (simp add: sanitizeFileName_def name_kept_def Let_def)

lemma trim_prefix: "prefix (u16_trim s) (dropWhile u16_space s)"
proof -
  have "suffix (dropWhile u16_space (rev (dropWhile u16_space s))) (rev (dropWhile u16_space s))" by (rule suffix_dropWhile)
  then show ?thesis by (simp add: u16_trim_def suffix_to_prefix)
qed

lemma sanitize_dot:
  assumes "hd (sanitizeFileName name) = 0x2E"
  shows "\<exists>dots ws rest. name_kept name = dots @ ws @ 0x2E # rest \<and> (\<forall>c \<in> set dots. c = 0x2E) \<and> ws \<noteq> [] \<and> (\<forall>c \<in> set ws. u16_space c)"
proof -
  define kept where "kept = dropWhile (\<lambda>c. c = 0x2E) (name_kept name)"
  have ne: "u16_trim kept \<noteq> []" using assms by (auto simp: sanitize_kept kept_def u16_def Let_def split: if_splits)
  then have hd: "hd (u16_trim kept) = 0x2E" using assms by (simp add: sanitize_kept kept_def [symmetric] hd_take)
  obtain rest where r: "dropWhile u16_space kept = 0x2E # rest"
    using trim_prefix [of kept] ne hd by (cases "u16_trim kept") (auto simp: prefix_def)
  have w: "takeWhile u16_space kept \<noteq> []"
  proof
    assume "takeWhile u16_space kept = []"
    then have "dropWhile u16_space kept = kept" by (metis append_Nil takeWhile_dropWhile_id)
    then have "kept = 0x2E # rest" using r by simp
    then show False using hd_dropWhile [of "\<lambda>c. c = (0x2E :: 16 word)" "name_kept name"] unfolding kept_def by simp
  qed
  have n: "name_kept name = takeWhile (\<lambda>c. c = 0x2E) (name_kept name) @ takeWhile u16_space kept @ 0x2E # rest"
    unfolding r [symmetric] takeWhile_dropWhile_id unfolding kept_def takeWhile_dropWhile_id ..
  have "\<forall>c \<in> set (takeWhile (\<lambda>c. c = 0x2E) (name_kept name)). c = 0x2E" "\<forall>c \<in> set (takeWhile u16_space kept). u16_space c"
    by (auto dest: set_takeWhileD)
  then show ?thesis by (intro exI conjI) (rule n, assumption, rule w, assumption)
qed

text \<open>(C29) Whatever the remote peer names its file, the sanitized name is not empty, has at most 255 code units, and
  holds no path separator, no control character and none of the reserved characters. It begins with a dot only where the last path
  segment, rid of the reserved characters, has (after its leading dots) white space and then that dot.\<close>

theorem sanitize_safe:
  "sanitizeFileName name \<noteq> [] \<and> length (sanitizeFileName name) \<le> 255 \<and>
   (\<forall>c. c \<in> set (sanitizeFileName name) \<longrightarrow> \<not> separator_unit c \<and> \<not> unsafe_unit c) \<and>
   (hd (sanitizeFileName name) = 0x2E \<longrightarrow>
     (\<exists>dots ws rest. name_kept name = dots @ ws @ 0x2E # rest \<and> (\<forall>c \<in> set dots. c = 0x2E) \<and> ws \<noteq> [] \<and> (\<forall>c \<in> set ws. u16_space c)))"
proof (intro conjI impI allI)
  show "sanitizeFileName name \<noteq> []" "length (sanitizeFileName name) \<le> 255" using sanitize_length [of name] by auto
  show "\<not> separator_unit c" "\<not> unsafe_unit c" if "c \<in> set (sanitizeFileName name)" for c using sanitize_cleaned [OF that] by auto
qed (rule sanitize_dot)

theorem sanitize_safe_witness:
  "hd (sanitizeFileName (u16 '' .x'')) = 0x2E \<and>
   (\<exists>dots ws rest. name_kept (u16 '' .x'') = dots @ ws @ 0x2E # rest \<and> ws \<noteq> [] \<and> (\<forall>c \<in> set ws. u16_space c)) \<and>
   hd (sanitizeFileName (u16 ''../.ssh'')) \<noteq> 0x2E"
proof -
  have d: "hd (sanitizeFileName (u16 '' .x'')) = 0x2E" "hd (sanitizeFileName (u16 ''../.ssh'')) \<noteq> 0x2E"
    by (simp_all add: sanitizeFileName_def u16_def separator_unit_def unsafe_unit_def u16_trim_def u16_space_def)
  show ?thesis using sanitize_safe [of "u16 '' .x''"] d by blast
qed

end
