(* ===== verification/FtTransfer.thy ===== *)
theory FtTransfer
  imports FtWire
begin

text \<open>
  What both directions of a file transfer share: the state machine of \<^verbatim>\<open>Transfer.ts\<close>, the storage sinks
  (\<^verbatim>\<open>sink/MemorySink.ts\<close>, \<^verbatim>\<open>node/NodeFileSink.ts\<close>) and the blob source (\<^verbatim>\<open>source/BlobFileSource.ts\<close>).
  A transfer is a record with a log of what it emits, sends and closes; its hooks (\<^verbatim>\<open>_onTerminal\<close>,
  \<^verbatim>\<open>_notifyRemoteFailure\<close>) are arguments, since the subclasses override them. \<open>tf_linkUp\<close> says whether the
  control sender delivers or throws. Listeners are not run: they appear in the log only.
\<close>

section \<open>Transfer\<close>

datatype transfer_state =
    Idle | Offered | Accepted | Active | Paused | Completing | Completed | Failed | TCancelled

record transfer_progress =
  tp_transferId :: string
  tp_transferredBytes :: nat
  tp_totalBytes :: nat
  tp_ratio :: rat
  tp_transferredChunks :: nat
  tp_totalChunks :: nat

datatype tf_out =
    StateChanged transfer_state transfer_state
  | Progress transfer_progress
  | CompleteEv string
  | ErrorEv ft_error
  | Control control_message
  | CloseChannel nat
  | CloseSource

fun LEGAL_TRANSITIONS_ft :: "transfer_state \<Rightarrow> transfer_state list" where
  "LEGAL_TRANSITIONS_ft Idle = [Offered]"
| "LEGAL_TRANSITIONS_ft Offered = [Accepted]"
| "LEGAL_TRANSITIONS_ft Accepted = [Active]"
| "LEGAL_TRANSITIONS_ft Active = [Paused, Completing]"
| "LEGAL_TRANSITIONS_ft Paused = [Active]"
| "LEGAL_TRANSITIONS_ft Completing = [Completed]"
| "LEGAL_TRANSITIONS_ft Completed = []"
| "LEGAL_TRANSITIONS_ft Failed = []"
| "LEGAL_TRANSITIONS_ft TCancelled = []"

definition TERMINAL :: "transfer_state list" where
  "TERMINAL = [Completed, Failed, TCancelled]"

record file_metadata =
  fm_name :: utf16
  fm_mimeType :: string
  fm_size :: nat

record transfer =
  tf_id :: string
  tf_peerId :: string
  tf_metadata :: file_metadata
  tf_chunkSize :: nat
  tf_totalChunks :: nat
  tf_state :: transfer_state
  tf_transferredBytes :: nat
  tf_transferredChunks :: nat
  tf_linkUp :: bool
  tf_log :: "tf_out list"

definition tf_new :: "string \<Rightarrow> string \<Rightarrow> file_metadata \<Rightarrow> nat \<Rightarrow> nat \<Rightarrow> transfer" where
  "tf_new i peerId meta chunkSize totalChunks =
     \<lparr>tf_id = i, tf_peerId = peerId, tf_metadata = meta, tf_chunkSize = chunkSize, tf_totalChunks = totalChunks,
      tf_state = Idle, tf_transferredBytes = 0, tf_transferredChunks = 0, tf_linkUp = True, tf_log = []\<rparr>"

definition tf_isTerminal :: "'a transfer_scheme \<Rightarrow> bool" where
  "tf_isTerminal s \<longleftrightarrow> tf_state s \<in> set TERMINAL"

definition tf_emit :: "tf_out \<Rightarrow> 'a transfer_scheme \<Rightarrow> 'a transfer_scheme" where
  "tf_emit x s = s\<lparr>tf_log := tf_log s @ [x]\<rparr>"

definition tf_progress :: "'a transfer_scheme \<Rightarrow> transfer_progress" where
  "tf_progress s =
     (let total = fm_size (tf_metadata s)
      in \<lparr>tp_transferId = tf_id s, tp_transferredBytes = tf_transferredBytes s, tp_totalBytes = total,
          tp_ratio = (if total > 0 then min 1 (rat_of_nat (tf_transferredBytes s) / rat_of_nat total) else 0),
          tp_transferredChunks = tf_transferredChunks s, tp_totalChunks = tf_totalChunks s\<rparr>)"

definition tf_emitProgress :: "'a transfer_scheme \<Rightarrow> 'a transfer_scheme" where
  "tf_emitProgress s = tf_emit (Progress (tf_progress s)) s"

definition tf_transitionTo ::
  "('a transfer_scheme \<Rightarrow> 'a transfer_scheme) \<Rightarrow> transfer_state \<Rightarrow> 'a transfer_scheme \<Rightarrow> bool \<times> 'a transfer_scheme" where
  "tf_transitionTo onTerminal n s =
     (if tf_state s = n then (True, s)
      else if tf_isTerminal s then (False, s)
      else if \<not> (n = Failed \<or> n = TCancelled) \<and> n \<notin> set (LEGAL_TRANSITIONS_ft (tf_state s)) then (False, s)
      else (let s1 = tf_emit (StateChanged n (tf_state s)) (s\<lparr>tf_state := n\<rparr>)
            in (True, if n \<in> set TERMINAL then onTerminal s1 else s1)))"

definition tf_fail ::
  "('a transfer_scheme \<Rightarrow> 'a transfer_scheme) \<Rightarrow> (ft_error \<Rightarrow> 'a transfer_scheme \<Rightarrow> 'a transfer_scheme) \<Rightarrow>
   ft_error \<Rightarrow> bool \<Rightarrow> 'a transfer_scheme \<Rightarrow> 'a transfer_scheme" where
  "tf_fail onTerminal notify err notifyRemote s =
     (if tf_isTerminal s then s
      else (let s1 = snd (tf_transitionTo onTerminal Failed s);
                s2 = (if notifyRemote then notify err s1 else s1)
            in tf_emit (ErrorEv err) s2))"

text \<open>A thrown value: an error of the engine, or any other error with its message.\<close>

datatype thrown = TransferErr ft_error | OtherErr string

fun toTransferError :: "string \<Rightarrow> thrown \<Rightarrow> ft_code \<Rightarrow> ft_error" where
  "toTransferError i (TransferErr e) code = e"
| "toTransferError i (OtherErr msg) code = FtError msg code (Some i)"

text \<open>A text in single quotes, for messages.\<close>

definition quoted :: "string \<Rightarrow> string" where
  "quoted t = CHR 0x27 # t @ [CHR 0x27]"

text \<open>The control sender: \<open>Some\<close> the state with the message in the log, or \<open>None\<close> when it throws.\<close>

definition tf_sendControl :: "control_message \<Rightarrow> 'a transfer_scheme \<Rightarrow> 'a transfer_scheme option" where
  "tf_sendControl msg s = (if tf_linkUp s then Some (tf_emit (Control msg) s) else None)"

definition link_error :: "'a transfer_scheme \<Rightarrow> thrown" where
  "link_error s = TransferErr (FtError (''no connection to peer '' @ quoted (tf_peerId s)) ChannelClosed None)"

section \<open>Storage\<close>

record sink_result =
  sr_bytes :: "bytes option"
  sr_path :: "utf16 option"

text \<open>A sink is a state with the operations of \<^verbatim>\<open>StorageSink\<close>; each but \<^verbatim>\<open>abort\<close> may fail with an error.\<close>

record 'k sink_ops =
  sk_open :: "file_metadata \<Rightarrow> 'k \<Rightarrow> thrown + 'k"
  sk_write :: "nat \<Rightarrow> bytes \<Rightarrow> 'k \<Rightarrow> thrown + 'k"
  sk_close :: "'k \<Rightarrow> thrown + sink_result \<times> 'k"
  sk_abort :: "'k \<Rightarrow> 'k"

subsection \<open>MemorySink\<close>

record memory_sink =
  ms_buffer :: "bytes option"
  ms_mime :: string

definition ms_new :: memory_sink where
  "ms_new = \<lparr>ms_buffer = None, ms_mime = ''application/octet-stream''\<rparr>"

definition ms_open :: "file_metadata \<Rightarrow> memory_sink \<Rightarrow> memory_sink" where
  "ms_open meta k =
     k\<lparr>ms_buffer := Some (replicate (fm_size meta) 0), ms_mime := (if fm_mimeType meta = [] then ms_mime k else fm_mimeType meta)\<rparr>"

definition ms_write :: "nat \<Rightarrow> bytes \<Rightarrow> memory_sink \<Rightarrow> memory_sink" where
  "ms_write off data k =
     (let buffer = (case ms_buffer k of None \<Rightarrow> replicate (off + length data) 0 | Some b \<Rightarrow> b);
          grown = (if off + length data > length buffer then u8_set (replicate (off + length data) 0) 0 buffer else buffer)
      in k\<lparr>ms_buffer := Some (u8_set grown off data)\<rparr>)"

definition ms_close :: "memory_sink \<Rightarrow> sink_result" where
  "ms_close k = \<lparr>sr_bytes = Some (case ms_buffer k of None \<Rightarrow> [] | Some b \<Rightarrow> b), sr_path = None\<rparr>"

definition ms_abort :: "memory_sink \<Rightarrow> memory_sink" where
  "ms_abort k = k\<lparr>ms_buffer := None\<rparr>"

definition memory_ops :: "memory_sink sink_ops" where
  "memory_ops = \<lparr>sk_open = (\<lambda>m k. Inr (ms_open m k)), sk_write = (\<lambda>off d k. Inr (ms_write off d k)),
     sk_close = (\<lambda>k. Inr (ms_close k, k)), sk_abort = ms_abort\<rparr>"

subsection \<open>NodeFileSink\<close>

text \<open>
  With the file it names: \<open>ns_file\<close> is its contents while it exists. Opening with flag \<^verbatim>\<open>w\<close> creates or truncates
  it, a write beyond its end leaves a hole of zeros, \<^verbatim>\<open>unlink\<close> removes it. \<open>join\<close> is \<^verbatim>\<open>path.join\<close>.
\<close>

record node_sink =
  ns_path :: utf16
  ns_dir :: "utf16 option"
  ns_handle :: bool
  ns_file :: "bytes option"

definition ns_new :: "utf16 \<Rightarrow> bool \<Rightarrow> node_sink" where
  "ns_new path deriveName = \<lparr>ns_path = path, ns_dir = (if deriveName then Some path else None), ns_handle = False, ns_file = None\<rparr>"

definition ns_openFile :: "node_sink \<Rightarrow> node_sink" where
  "ns_openFile k = k\<lparr>ns_handle := True, ns_file := Some []\<rparr>"

definition ns_open :: "(utf16 \<Rightarrow> utf16 \<Rightarrow> utf16) \<Rightarrow> file_metadata \<Rightarrow> node_sink \<Rightarrow> node_sink" where
  "ns_open join meta k =
     ns_openFile (case ns_dir k of None \<Rightarrow> k | Some dir \<Rightarrow> k\<lparr>ns_path := join dir (sanitizeFileName (fm_name meta))\<rparr>)"

definition file_write :: "nat \<Rightarrow> bytes \<Rightarrow> bytes \<Rightarrow> bytes" where
  "file_write off data file =
     (if data = [] then file
      else u8_set (file @ replicate (off + length data - length file) 0) off data)"

definition ns_write :: "nat \<Rightarrow> bytes \<Rightarrow> node_sink \<Rightarrow> node_sink" where
  "ns_write off data k =
     (let k1 = (if ns_handle k then k else ns_openFile k)
      in k1\<lparr>ns_file := map_option (file_write off data) (ns_file k1)\<rparr>)"

definition ns_close :: "node_sink \<Rightarrow> sink_result \<times> node_sink" where
  "ns_close k = (\<lparr>sr_bytes = None, sr_path = Some (ns_path k)\<rparr>, k\<lparr>ns_handle := False\<rparr>)"

definition ns_abort :: "node_sink \<Rightarrow> node_sink" where
  "ns_abort k = k\<lparr>ns_handle := False, ns_file := None\<rparr>"

definition node_ops :: "(utf16 \<Rightarrow> utf16 \<Rightarrow> utf16) \<Rightarrow> node_sink sink_ops" where
  "node_ops join = \<lparr>sk_open = (\<lambda>m k. Inr (ns_open join m k)), sk_write = (\<lambda>off d k. Inr (ns_write off d k)),
     sk_close = (\<lambda>k. Inr (ns_close k)), sk_abort = ns_abort\<rparr>"

subsection \<open>BlobFileSource\<close>

record blob_source =
  bs_name :: utf16
  bs_mimeType :: string
  bs_blob :: bytes

definition bs_new :: "bytes \<Rightarrow> string \<Rightarrow> utf16 option \<Rightarrow> utf16 option \<Rightarrow> blob_source" where
  "bs_new blob type fileName name =
     \<lparr>bs_name = (case name of Some n \<Rightarrow> n | None \<Rightarrow> (case fileName of Some n \<Rightarrow> n | None \<Rightarrow> u16 ''file'')),
      bs_mimeType = (if type = [] then ''application/octet-stream'' else type), bs_blob = blob\<rparr>"

definition bs_size :: "blob_source \<Rightarrow> nat" where
  "bs_size b = length (bs_blob b)"

definition bs_slice :: "blob_source \<Rightarrow> nat \<Rightarrow> nat \<Rightarrow> bytes" where
  "bs_slice b off len = take len (drop off (bs_blob b))"

subsection \<open>NodeFileSource\<close>

text \<open>The contents of the file are the argument \<open>disk\<close>; a read at its end is cut short.\<close>

record node_source =
  nf_path :: utf16
  nf_name :: utf16
  nf_mimeType :: string
  nf_size :: nat
  nf_handle :: bool

definition nf_create :: "(utf16 \<Rightarrow> utf16) \<Rightarrow> bytes \<Rightarrow> utf16 \<Rightarrow> utf16 option \<Rightarrow> string option \<Rightarrow> node_source" where
  "nf_create basename disk path name mimeType =
     \<lparr>nf_path = path, nf_name = (case name of Some n \<Rightarrow> n | None \<Rightarrow> basename path),
      nf_mimeType = (case mimeType of Some m \<Rightarrow> m | None \<Rightarrow> ''application/octet-stream''), nf_size = length disk, nf_handle = False\<rparr>"

definition nf_slice :: "bytes \<Rightarrow> nat \<Rightarrow> nat \<Rightarrow> node_source \<Rightarrow> bytes \<times> node_source" where
  "nf_slice disk off len s = (take len (drop off disk), s\<lparr>nf_handle := True\<rparr>)"

definition nf_close :: "node_source \<Rightarrow> node_source" where
  "nf_close s = s\<lparr>nf_handle := False\<rparr>"

section \<open>The life cycle\<close>

text \<open>What \<^verbatim>\<open>transitionTo\<close> does to the state field alone.\<close>

definition ft_edge :: "transfer_state \<Rightarrow> transfer_state \<Rightarrow> bool" where
  "ft_edge st n \<longleftrightarrow> st \<notin> set TERMINAL \<and> st \<noteq> n \<and> (n = Failed \<or> n = TCancelled \<or> n \<in> set (LEGAL_TRANSITIONS_ft st))"

definition ft_move :: "transfer_state \<Rightarrow> transfer_state \<Rightarrow> transfer_state \<times> bool" where
  "ft_move st n = (if st = n then (st, True) else if ft_edge st n then (n, True) else (st, False))"

interpretation ftLife: lifecycle ft_move ft_edge "\<lambda>st. st \<in> set TERMINAL"
  by unfold_locales (auto simp: ft_move_def ft_edge_def)

lemma tf_transitionTo_move:
  assumes "\<And>s. tf_state (onTerminal s) = tf_state s"
  shows "tf_state (snd (tf_transitionTo onTerminal n s)) = fst (ft_move (tf_state s) n)"
    "fst (tf_transitionTo onTerminal n s) = snd (ft_move (tf_state s) n)"
  using assms by (auto simp: tf_transitionTo_def ft_move_def ft_edge_def tf_isTerminal_def tf_emit_def Let_def)

lemmas terminal_simps = tf_isTerminal_def TERMINAL_def

section \<open>What a receiver relies on in a sink\<close>

text \<open>
  \<open>ready n\<close>: the sink is open for a file of \<open>n\<close> bytes; \<open>img\<close>: the byte it holds at a position. A write within the size keeps the sink ready
  and changes exactly the bytes it covers.
\<close>

locale storage_sink =
  fixes ops :: "'k sink_ops"
    and ready :: "nat \<Rightarrow> 'k \<Rightarrow> bool"
    and img :: "'k \<Rightarrow> nat \<Rightarrow> 8 word"
  assumes open_ready: "sk_open ops meta k = Inr k' \<Longrightarrow> ready (fm_size meta) k'"
    and write_ready: "ready n k \<Longrightarrow> off + length d \<le> n \<Longrightarrow> sk_write ops off d k = Inr k' \<Longrightarrow> ready n k'"
    and write_img: "ready n k \<Longrightarrow> off + length d \<le> n \<Longrightarrow> sk_write ops off d k = Inr k' \<Longrightarrow>
      img k' j = (if off \<le> j \<and> j < off + length d then d ! (j - off) else img k j)"
begin

text \<open>The chunks of \<open>W\<close> are in place.\<close>

definition placed :: "nat \<Rightarrow> (nat \<Rightarrow> bytes) \<Rightarrow> nat set \<Rightarrow> 'k \<Rightarrow> bool" where
  "placed cs acc W k \<longleftrightarrow> (\<forall>seq \<in> W. \<forall>j < length (acc seq). img k (seq * cs + j) = acc seq ! j)"

lemma placed_write:
  assumes "ready n k" "placed cs acc W k" "seq \<notin> W" "\<And>q. q \<in> insert seq W \<Longrightarrow> length (acc q) \<le> cs"
    and "seq * cs + length (acc seq) \<le> n" "sk_write ops (seq * cs) (acc seq) k = Inr k'"
  shows "placed cs acc (insert seq W) k'"
  unfolding placed_def
proof (intro ballI allI impI)
  fix q j
  assume q: "q \<in> insert seq W" and j: "j < length (acc q)"
  have w: "img k' p = (if seq * cs \<le> p \<and> p < seq * cs + length (acc seq) then acc seq ! (p - seq * cs) else img k p)" for p
    by (rule write_img [OF assms(1,5,6)])
  show "img k' (q * cs + j) = acc q ! j"
  proof (cases "q = seq")
    case True
    then show ?thesis using j by (simp add: w)
  next
    case False
    then have "q \<in> W" using q by blast
    have "\<not> (seq * cs \<le> q * cs + j \<and> q * cs + j < seq * cs + length (acc seq))"
    proof (cases "q < seq")
      case True
      then have "Suc q * cs \<le> seq * cs" by (intro mult_le_mono1) simp
      then show ?thesis using j assms(4) [of q] q by simp
    next
      case False
      then have "Suc seq * cs \<le> q * cs" using \<open>q \<noteq> seq\<close> by (intro mult_le_mono1) simp
      then show ?thesis using assms(4) [of seq] by simp
    qed
    then have "img k' (q * cs + j) = img k (q * cs + j)" unfolding w by (rule if_not_P)
    then show ?thesis using \<open>q \<in> W\<close> assms(2) j by (simp add: placed_def)
  qed
qed

lemma placed_mono: "placed cs acc W k \<Longrightarrow> W' \<subseteq> W \<Longrightarrow> placed cs acc W' k"
  by (auto simp: placed_def)

lemma placed_cong: "(\<And>q. q \<in> W \<Longrightarrow> acc' q = acc q) \<Longrightarrow> placed cs acc' W k = placed cs acc W k"
  by (simp add: placed_def)

end

subsection \<open>The memory sink\<close>

definition ms_ready :: "nat \<Rightarrow> memory_sink \<Rightarrow> bool" where
  "ms_ready n k \<longleftrightarrow> (\<exists>b. ms_buffer k = Some b \<and> length b = n)"

definition ms_img :: "memory_sink \<Rightarrow> nat \<Rightarrow> 8 word" where
  "ms_img k j = (case ms_buffer k of None \<Rightarrow> 0 | Some b \<Rightarrow> if j < length b then b ! j else 0)"

lemma u8_set_nth:
  "off + length d \<le> length b \<Longrightarrow> j < length b \<Longrightarrow>
   u8_set b off d ! j = (if off \<le> j \<and> j < off + length d then d ! (j - off) else b ! j)"
  by (auto simp: u8_set_def nth_append min_def)


interpretation memory: storage_sink memory_ops ms_ready ms_img
proof
  fix meta k k' n off d j
  show "sk_open memory_ops meta k = Inr k' \<Longrightarrow> ms_ready (fm_size meta) k'"
    by (auto simp: memory_ops_def ms_open_def ms_ready_def)
  assume r: "ms_ready n k" "off + length d \<le> n" "sk_write memory_ops off d k = Inr k'"
  then obtain b where b: "ms_buffer k = Some b" "length b = n" "ms_buffer k' = Some (u8_set b off d)"
    by (auto simp: memory_ops_def ms_write_def ms_ready_def)
  show "ms_ready n k'" using b r(2) by (simp add: ms_ready_def)
  show "ms_img k' j = (if off \<le> j \<and> j < off + length d then d ! (j - off) else ms_img k j)"
    using b r(2) by (simp add: ms_img_def u8_set_nth)
qed

subsection \<open>The file sink\<close>

definition ns_ready :: "nat \<Rightarrow> node_sink \<Rightarrow> bool" where
  "ns_ready n k \<longleftrightarrow> ns_handle k \<and> (\<exists>f. ns_file k = Some f)"

definition ns_img :: "node_sink \<Rightarrow> nat \<Rightarrow> 8 word" where
  "ns_img k j = (case ns_file k of None \<Rightarrow> 0 | Some f \<Rightarrow> if j < length f then f ! j else 0)"

lemma file_write_nth:
  "(if j < length (file_write off d f) then file_write off d f ! j else 0) =
   (if off \<le> j \<and> j < off + length d then d ! (j - off) else if j < length f then f ! j else 0)"
proof (cases "d = []")
  case False
  define b where "b = f @ replicate (off + length d - length f) (0 :: 8 word)"
  have le: "off + length d \<le> length b" "length f \<le> length b" by (simp_all add: b_def)
  have "b ! j = (if j < length f then f ! j else 0)" if "j < length b" using that by (auto simp: b_def nth_append)
  then show ?thesis using False u8_set_nth [OF le(1), of j] u8_set_length [OF le(1)] le
    by (auto simp: file_write_def b_def [symmetric])
qed (auto simp: file_write_def)

interpretation nodeFile: storage_sink "node_ops join" ns_ready ns_img for join
proof
  fix meta k k' n off d j
  show "sk_open (node_ops join) meta k = Inr k' \<Longrightarrow> ns_ready (fm_size meta) k'"
    by (auto simp: node_ops_def ns_open_def ns_openFile_def ns_ready_def)
  assume r: "ns_ready n k" "off + length d \<le> n" "sk_write (node_ops join) off d k = Inr k'"
  then obtain f where f: "ns_file k = Some f" "ns_handle k'" "ns_file k' = Some (file_write off d f)"
    by (auto simp: node_ops_def ns_write_def ns_ready_def Let_def)
  show "ns_ready n k'" using f by (simp add: ns_ready_def)
  show "ns_img k' j = (if off \<le> j \<and> j < off + length d then d ! (j - off) else ns_img k j)"
    using f(1,3) file_write_nth [of j off d f] by (simp add: ns_img_def)
qed

end
