(* ===== verification/FtChunks.thy ===== *)
theory FtChunks
  imports FtTransfer
begin

text \<open>
  What sender and receiver have in common beyond the state machine: the chunks of a file and the digest of digests over them.
\<close>

section \<open>Files and chunks\<close>

definition ft_chunks :: "nat \<Rightarrow> nat \<Rightarrow> nat" where
  "ft_chunks n cs = (n + cs - 1) div cs"

definition ft_chunk :: "nat \<Rightarrow> bytes \<Rightarrow> nat \<Rightarrow> bytes" where
  "ft_chunk cs file seq = take cs (drop (seq * cs) file)"

definition ft_digest :: "(bytes \<Rightarrow> bytes) \<Rightarrow> nat \<Rightarrow> bytes \<Rightarrow> string" where
  "ft_digest sha cs file = hex (sha (concat (map (\<lambda>s. sha (ft_chunk cs file s)) [0..<ft_chunks (length file) cs])))"

lemma ft_chunks_cover: "0 < cs \<Longrightarrow> j < n \<Longrightarrow> j div cs < ft_chunks n cs"
proof -
  assume "0 < cs" "j < n"
  then have "(j + cs) div cs \<le> (n + cs - 1) div cs" by (intro div_le_mono) linarith
  then show ?thesis using \<open>0 < cs\<close> by (simp add: ft_chunks_def div_add_self2)
qed

lemma chunks_file:
  assumes "0 < cs" "length b = length file"
    and "\<And>seq j. seq < ft_chunks (length file) cs \<Longrightarrow> j < length (ft_chunk cs file seq) \<Longrightarrow> b ! (seq * cs + j) = ft_chunk cs file seq ! j"
  shows "b = file"
proof (rule nth_equalityI [OF assms(2)])
  fix p assume "p < length b"
  then have p: "p < length file" using assms(2) by simp
  have e: "p div cs * cs + p mod cs = p" by simp
  have m: "p mod cs < cs" using assms(1) by simp
  have l: "p mod cs < length (ft_chunk cs file (p div cs))" using p m e by (simp add: ft_chunk_def less_diff_conv add.commute)
  have "b ! p = ft_chunk cs file (p div cs) ! (p mod cs)"
    using assms(3) [OF ft_chunks_cover [OF assms(1) p] l] e by simp
  also have "\<dots> = file ! p" using l e p m by (simp add: ft_chunk_def nth_drop)
  finally show "b ! p = file ! p" .
qed

lemma ft_chunks_lt: "0 < cs \<Longrightarrow> q < ft_chunks n cs \<Longrightarrow> q * cs < n"
proof -
  assume cs: "0 < cs" and q: "q < ft_chunks n cs"
  have "Suc q * cs \<le> (n + cs - 1) div cs * cs" using q by (intro mult_le_mono1) (simp add: ft_chunks_def)
  also have "\<dots> \<le> n + cs - 1" by (simp add: div_times_less_eq_dividend)
  finally show ?thesis using cs by simp
qed

text \<open>What a sender relies on in a \<^verbatim>\<open>FileSource\<close>: a read within the size returns the bytes of the file there.\<close>

locale file_source =
  fixes src :: "nat \<Rightarrow> nat \<Rightarrow> bytes" and content :: bytes
  assumes slice: "off + len \<le> length content \<Longrightarrow> src off len = take len (drop off content)"
begin

lemma slice_chunk:
  assumes "0 < cs" "q < ft_chunks (length content) cs"
  shows "src (q * cs) (min cs (length content - q * cs)) = ft_chunk cs content q"
proof -
  have "q * cs < length content" by (rule ft_chunks_lt [OF assms])
  then have "src (q * cs) (min cs (length content - q * cs)) = take (min cs (length content - q * cs)) (drop (q * cs) content)"
    by (intro slice) auto
  then show ?thesis by (simp add: ft_chunk_def min_def)
qed

end

interpretation blob: file_source "bs_slice b" "bs_blob b" for b
  by unfold_locales (simp add: bs_slice_def)

text \<open>A file on disk that is not changed while it is sent.\<close>

interpretation nodeSource: file_source "\<lambda>off len. fst (nf_slice disk off len s)" disk for disk s
  by unfold_locales (simp add: nf_slice_def)

section \<open>Digests of chunks\<close>

definition digests_of :: "hasher \<Rightarrow> (nat \<Rightarrow> bytes) \<Rightarrow> nat set \<Rightarrow> digests \<Rightarrow> bool" where
  "digests_of subtle acc W ds \<longleftrightarrow>
     jm_wf ds \<and> fst ` set ds = W \<and> (\<forall>seq d. jm_get ds seq = Some d \<longrightarrow> (\<exists>sha. subtle = Some sha \<and> d = sha (acc seq)))"

text \<open>SHA-256 yields 32 bytes.\<close>

definition hash_32 :: "hasher \<Rightarrow> bool" where
  "hash_32 subtle \<longleftrightarrow> (\<forall>sha x. subtle = Some sha \<longrightarrow> length (sha x) = 32)"

lemma digests_of_cong: "(\<And>q. q \<in> W \<Longrightarrow> acc' q = acc q) \<Longrightarrow> digests_of subtle acc W ds \<Longrightarrow> digests_of subtle acc' W ds"
proof -
  assume eq: "\<And>q. q \<in> W \<Longrightarrow> acc' q = acc q" and d: "digests_of subtle acc W ds"
  have "seq \<in> W" if "jm_get ds seq = Some x" for seq x
    using d jm_get_SomeD [OF that] by (force simp: digests_of_def)
  then show ?thesis using d eq unfolding digests_of_def by metis
qed

lemma digests_of_update:
  assumes "digests_of subtle acc W ds" "dg_update subtle seq (acc seq) ds = Inr ds'"
  shows "digests_of subtle acc (insert seq W) ds'"
proof -
  obtain sha where sha: "subtle = Some sha" "ds' = jm_set seq (sha (acc seq)) ds"
    using assms(2) by (auto simp: dg_update_def sha256Raw_def split: option.splits)
  then show ?thesis using assms(1) by (auto simp: digests_of_def)
qed

lemma digests_joined:
  assumes "digests_of (Some sha) acc {..<n} ds" "\<And>x. length (sha x) = 32"
  shows "dg_joined ds = concat (map (\<lambda>s. sha (acc s)) [0..<n])"
proof -
  have d: "jm_wf ds" "set (jm_keys ds) = {..<n}" "\<And>s x. jm_get ds s = Some x \<Longrightarrow> x = sha (acc s)"
    using assms(1) by (auto simp: digests_of_def)
  have "the (jm_get ds s) = sha (acc s)" if "s < n" for s
  proof -
    have "s \<in> set (jm_keys ds)" using that d(2) by simp
    then obtain x where "jm_get ds s = Some x" by (cases "jm_get ds s") (auto simp: map_of_eq_None_iff)
    then show ?thesis using d(3) by simp
  qed
  then have m: "map (\<lambda>s. the (jm_get ds s)) [0..<n] = map (\<lambda>s. sha (acc s)) [0..<n]" by simp
  have "dg_joined ds = concat (map (\<lambda>s. the (jm_get ds s)) (sort (jm_keys ds)))"
    using d(3) assms(2) by (intro dg_joined_concat) auto
  then show ?thesis by (simp only: sorted_upto [OF d(1,2)] m)
qed

section \<open>Emitting and sending\<close>

lemma tf_emit_fields [simp]:
  "tf_state (tf_emit x s) = tf_state s" "tf_id (tf_emit x s) = tf_id s" "tf_isTerminal (tf_emit x s) = tf_isTerminal s"
  "tf_linkUp (tf_emit x s) = tf_linkUp s" "transfer.more (tf_emit x s) = transfer.more s"
  by (simp_all add: tf_emit_def tf_isTerminal_def)

lemma tf_sendControl_Some: "tf_sendControl m s = Some s' \<Longrightarrow> s' = tf_emit (Control m) s"
  by (simp add: tf_sendControl_def split: if_splits)

end
