(* ===== verification/FtSend.thy ===== *)
theory FtSend
  imports FtChunks
begin

text \<open>
  \<^verbatim>\<open>filetransfer/SendTransfer.ts\<close> and \<^verbatim>\<open>channel.ts\<close>, cut at their awaits. Every call of \<^verbatim>\<open>_run\<close> is a \<open>send_run\<close>, kept after it is
  superseded, with the channels it captured and one program counter per worker: what the worker awaits, and whether that promise
  is pending, resolved or rejected. Data channels are numbers into \<open>st_net\<close>, their browser-side state; \<open>st_wire\<close> lists the calls of \<^verbatim>\<open>channel.send\<close>
  in order with the run that made them. The bytes of the source are \<open>src\<close>, SHA-256 is \<open>subtle\<close>.
\<close>

section \<open>Data channels\<close>

datatype ready_state = ChConnecting | ChOpen | ChClosing | ChClosed

record rtc_channel =
  ch_label :: string
  ch_ready :: ready_state
  ch_buffered :: nat
  ch_lowThreshold :: nat

datatype promise = Pending | Resolved | Rejected thrown

definition ready_name :: "ready_state \<Rightarrow> string" where
  "ready_name r = (case r of ChConnecting \<Rightarrow> ''connecting'' | ChOpen \<Rightarrow> ''open'' | ChClosing \<Rightarrow> ''closing'' | ChClosed \<Rightarrow> ''closed'')"

definition channel_error :: "rtc_channel \<Rightarrow> string \<Rightarrow> string \<Rightarrow> thrown" where
  "channel_error ch what i = TransferErr (FtError (''data channel '' @ quoted (ch_label ch) @ what) ChannelClosed (Some i))"

text \<open>The promise each helper returns; a pending one is settled by an event of the channel.\<close>

definition waitForOpen :: "rtc_channel \<Rightarrow> string \<Rightarrow> promise" where
  "waitForOpen ch i =
     (if ch_ready ch = ChOpen then Resolved
      else if ch_ready ch = ChClosing \<or> ch_ready ch = ChClosed then Rejected (channel_error ch ('' is '' @ ready_name (ch_ready ch)) i)
      else Pending)"

definition awaitDrain :: "rtc_channel \<Rightarrow> nat \<Rightarrow> nat \<Rightarrow> string \<Rightarrow> promise \<times> rtc_channel" where
  "awaitDrain ch highWaterMark lowWaterMark i =
     (if ch_buffered ch \<le> highWaterMark then (Resolved, ch)
      else if ch_ready ch \<noteq> ChOpen then (Rejected (channel_error ch ('' is '' @ ready_name (ch_ready ch)) i), ch)
      else (Pending, ch\<lparr>ch_lowThreshold := lowWaterMark\<rparr>))"

section \<open>Runs and workers\<close>

datatype worker_pc =
    WOpen promise
  | WGate nat promise
  | WRead nat
  | WHash nat bytes
  | WDrain nat bytes promise
  | WDone
  | WFailed

datatype run_phase =
    RnWorkers
  | RnRejected thrown
  | RnFinalize
  | RnOver

record send_run =
  rn_gen :: nat
  rn_have :: "nat list"
  rn_channels :: "nat list"
  rn_pcs :: "worker_pc list"
  rn_digest :: "digests option"
  rn_phase :: run_phase

record sent_frame =
  sf_gen :: nat
  sf_channel :: nat
  sf_seq :: nat
  sf_frame :: bytes

datatype offer_wait = AwaitAccept | AwaitResume

record send_transfer = transfer +
  st_channels :: "nat list"
  st_highWaterMark :: nat
  st_lowWaterMark :: nat
  st_checksum :: bool
  st_resumable :: bool
  st_offerTimeoutMs :: nat
  st_offerTimer :: "offer_wait option"
  st_resumeWaiters :: "(nat \<times> nat) list"
  st_interrupted :: bool
  st_pendingPause :: bool
  st_sentSeqs :: "nat list"
  st_gen :: nat
  st_runs :: "send_run list"
  st_net :: "nat \<Rightarrow> rtc_channel"
  st_wire :: "sent_frame list"

record send_params =
  sp_id :: string
  sp_peerId :: string
  sp_metadata :: file_metadata
  sp_channels :: "nat list"
  sp_chunkSize :: nat
  sp_highWaterMark :: nat
  sp_lowWaterMark :: nat
  sp_checksum :: bool
  sp_offerTimeoutMs :: nat
  sp_resumable :: bool

definition st_new :: "send_params \<Rightarrow> (nat \<Rightarrow> rtc_channel) \<Rightarrow> send_transfer" where
  "st_new p net =
     transfer.extend
       (tf_new (sp_id p) (sp_peerId p) (sp_metadata p) (sp_chunkSize p) (ft_chunks (fm_size (sp_metadata p)) (sp_chunkSize p)))
       \<lparr>st_channels = sp_channels p, st_highWaterMark = sp_highWaterMark p, st_lowWaterMark = sp_lowWaterMark p,
        st_checksum = sp_checksum p, st_resumable = sp_resumable p, st_offerTimeoutMs = sp_offerTimeoutMs p, st_offerTimer = None,
        st_resumeWaiters = [], st_interrupted = False, st_pendingPause = False, st_sentSeqs = [], st_gen = 0, st_runs = [],
        st_net = net, st_wire = []\<rparr>"

definition st_clearOfferTimer :: "send_transfer \<Rightarrow> send_transfer" where
  "st_clearOfferTimer s = s\<lparr>st_offerTimer := None\<rparr>"

definition st_pc :: "send_transfer \<Rightarrow> nat \<Rightarrow> nat \<Rightarrow> worker_pc" where
  "st_pc s r i = rn_pcs (st_runs s ! r) ! i"

definition st_setPc :: "nat \<Rightarrow> nat \<Rightarrow> worker_pc \<Rightarrow> send_transfer \<Rightarrow> send_transfer" where
  "st_setPc r i pc s = s\<lparr>st_runs := (st_runs s)[r := (st_runs s ! r)\<lparr>rn_pcs := (rn_pcs (st_runs s ! r))[i := pc]\<rparr>]\<rparr>"

text \<open>Resolving the promises of the workers parked at the pause gate.\<close>

definition gate_open :: "worker_pc \<Rightarrow> worker_pc" where
  "gate_open pc = (case pc of WGate seq _ \<Rightarrow> WGate seq Resolved | _ \<Rightarrow> pc)"

definition st_release :: "send_transfer \<Rightarrow> send_transfer" where
  "st_release s =
     (let waiters = st_resumeWaiters s
      in fold (\<lambda>(r, i) s. st_setPc r i (gate_open (st_pc s r i)) s) waiters (s\<lparr>st_resumeWaiters := []\<rparr>))"

text \<open>\<^verbatim>\<open>channel.close()\<close>: the ready state changes at once, the event follows later.\<close>

definition st_closeChannel :: "nat \<Rightarrow> send_transfer \<Rightarrow> send_transfer" where
  "st_closeChannel c s =
     tf_emit (CloseChannel c)
       (s\<lparr>st_net := (st_net s)(c := (st_net s c)\<lparr>ch_ready := (if ch_ready (st_net s c) = ChClosed then ChClosed else ChClosing)\<rparr>)\<rparr>)"

definition st_onTerminal :: "send_transfer \<Rightarrow> send_transfer" where
  "st_onTerminal s =
     (let s1 = st_clearOfferTimer s;
          s2 = st_release (s1\<lparr>st_gen := st_gen s1 + 1\<rparr>)
      in tf_emit CloseSource (fold st_closeChannel (st_channels s2) s2))"

definition st_transitionTo :: "transfer_state \<Rightarrow> send_transfer \<Rightarrow> bool \<times> send_transfer" where
  "st_transitionTo = tf_transitionTo st_onTerminal"

text \<open>A failed delivery fails the transfer without notifying the peer again.\<close>

definition st_safeControl :: "control_message \<Rightarrow> send_transfer \<Rightarrow> send_transfer" where
  "st_safeControl msg s =
     (case tf_sendControl msg s of
        Some s1 \<Rightarrow> s1
      | None \<Rightarrow> tf_fail st_onTerminal (\<lambda>_ s. s) (toTransferError (tf_id s) (link_error s) ChannelClosed) False s)"

definition st_notifyRemoteFailure :: "ft_error \<Rightarrow> send_transfer \<Rightarrow> send_transfer" where
  "st_notifyRemoteFailure err s = st_safeControl (Cancel (tf_id s) (Some (fe_message err))) s"

definition st_fail :: "ft_error \<Rightarrow> bool \<Rightarrow> send_transfer \<Rightarrow> send_transfer" where
  "st_fail = tf_fail st_onTerminal st_notifyRemoteFailure"

text \<open>The name goes into the offer as JSON text; \<open>enc\<close> is that encoding of its code units.\<close>

definition st_sendOffer :: "(utf16 \<Rightarrow> string) \<Rightarrow> send_transfer \<Rightarrow> send_transfer" where
  "st_sendOffer enc s =
     st_safeControl
       (Offer (tf_id s)
          \<lparr>of_version = Some FT_PROTOCOL_VERSION, of_name = enc (fm_name (tf_metadata s)), of_mimeType = fm_mimeType (tf_metadata s),
           of_size = fm_size (tf_metadata s), of_chunkSize = tf_chunkSize s, of_totalChunks = tf_totalChunks s,
           of_parallelChannels = length (st_channels s), of_checksum = st_checksum s\<rparr>) s"

section \<open>Offering\<close>

definition st_armOfferTimeout :: "offer_wait \<Rightarrow> send_transfer \<Rightarrow> send_transfer" where
  "st_armOfferTimeout w s =
     (let s1 = st_clearOfferTimer s in if st_offerTimeoutMs s1 = 0 then s1 else s1\<lparr>st_offerTimer := Some w\<rparr>)"

definition st_stillWaiting :: "offer_wait \<Rightarrow> send_transfer \<Rightarrow> bool" where
  "st_stillWaiting w s =
     (case w of AwaitAccept \<Rightarrow> tf_state s = Offered | AwaitResume \<Rightarrow> st_interrupted s \<and> \<not> tf_isTerminal s)"

definition st_timeout :: "send_transfer \<Rightarrow> send_transfer" where
  "st_timeout s =
     (case st_offerTimer s of
        None \<Rightarrow> s
      | Some w \<Rightarrow>
          (let s1 = s\<lparr>st_offerTimer := None\<rparr>
           in if st_stillWaiting w s1
              then st_fail (FtError ''offer not accepted before timeout'' Timeout (Some (tf_id s1))) True s1
              else s1))"

definition st_start :: "(utf16 \<Rightarrow> string) \<Rightarrow> send_transfer \<Rightarrow> send_transfer" where
  "st_start enc s =
     (let (ok, s1) = st_transitionTo Offered s
      in if \<not> ok then s1
         else (let s2 = st_sendOffer enc s1 in if tf_state s2 = Offered then st_armOfferTimeout AwaitAccept s2 else s2))"

definition st_reoffer :: "(utf16 \<Rightarrow> string) \<Rightarrow> nat list \<Rightarrow> send_transfer \<Rightarrow> send_transfer" where
  "st_reoffer enc channels s =
     (if tf_isTerminal s \<or> \<not> st_interrupted s then s
      else (let s1 = fold st_closeChannel (filter (\<lambda>c. c \<notin> set channels) (st_channels s)) s;
                s2 = st_sendOffer enc (s1\<lparr>st_channels := channels\<rparr>)
            in st_armOfferTimeout AwaitResume s2))"

section \<open>Pausing and cancelling\<close>

definition st_applyPause :: "send_transfer \<Rightarrow> bool \<times> send_transfer" where
  "st_applyPause s =
     (if tf_state s = Accepted then (True, s\<lparr>st_pendingPause := True\<rparr>)
      else if tf_state s \<noteq> Active then (False, s)
      else st_transitionTo Paused s)"

definition st_applyResume :: "send_transfer \<Rightarrow> bool \<times> send_transfer" where
  "st_applyResume s =
     (if tf_state s = Accepted \<and> st_pendingPause s then (True, s\<lparr>st_pendingPause := False\<rparr>)
      else if tf_state s \<noteq> Paused then (False, s)
      else (let (ok, s1) = st_transitionTo Active s in if \<not> ok then (False, s1) else (True, st_release s1)))"

definition st_pause :: "send_transfer \<Rightarrow> send_transfer" where
  "st_pause s = (let (ok, s1) = st_applyPause s in if ok then st_safeControl (Pause (tf_id s1)) s1 else s1)"

definition st_resume :: "send_transfer \<Rightarrow> send_transfer" where
  "st_resume s = (let (ok, s1) = st_applyResume s in if ok then st_safeControl (Resume (tf_id s1)) s1 else s1)"

definition st_markCancelled :: "string option \<Rightarrow> send_transfer \<Rightarrow> send_transfer" where
  "st_markCancelled reason s =
     (if tf_isTerminal s then s
      else (let s1 = snd (st_transitionTo TCancelled (st_clearOfferTimer s))
            in case reason of
                 None \<Rightarrow> s1
               | Some r \<Rightarrow> tf_emit (ErrorEv (FtError (''transfer cancelled: '' @ r) Cancelled (Some (tf_id s)))) s1))"

definition st_cancel :: "string option \<Rightarrow> send_transfer \<Rightarrow> send_transfer" where
  "st_cancel reason s =
     (if tf_isTerminal s then s else st_markCancelled reason (st_safeControl (Cancel (tf_id s) reason) s))"

definition st_interrupt :: "send_transfer \<Rightarrow> send_transfer" where
  "st_interrupt s =
     (if tf_state s = Active
      then (let (ok, s1) = st_transitionTo Paused s in if ok then s1\<lparr>st_interrupted := True\<rparr> else s1)
      else s)"

section \<open>Beginning a run\<close>

text \<open>\<^verbatim>\<open>_run\<close> up to its first await: the workers are called one after the other and stop at \<^verbatim>\<open>waitForOpen\<close>.\<close>

definition st_run :: "nat list \<Rightarrow> nat \<Rightarrow> send_transfer \<Rightarrow> send_transfer" where
  "st_run haveChunks gen s =
     (let (ok, s1) = (if tf_state s = Accepted then st_transitionTo Active s else (True, s))
      in if \<not> ok \<or> tf_state s1 \<noteq> Active then s1
         else (let s2 = (if st_pendingPause s1 then snd (st_transitionTo Paused (s1\<lparr>st_pendingPause := False\<rparr>)) else s1);
                   run = \<lparr>rn_gen = gen, rn_have = haveChunks, rn_channels = st_channels s2,
                          rn_pcs = map (\<lambda>c. WOpen (waitForOpen (st_net s2 c) (tf_id s2))) (st_channels s2),
                          rn_digest = (if st_checksum s2 then Some [] else None), rn_phase = RnWorkers\<rparr>
               in s2\<lparr>st_runs := st_runs s2 @ [run]\<rparr>))"

definition st_begin :: "nat list \<Rightarrow> send_transfer \<Rightarrow> send_transfer" where
  "st_begin haveChunks s0 =
     (let s = st_clearOfferTimer s0;
          (go, s1) =
            (if tf_state s = Offered then st_transitionTo Accepted s
             else if tf_state s = Paused \<and> st_interrupted s then st_applyResume (s\<lparr>st_interrupted := False\<rparr>)
             else (False, s))
      in if \<not> go then s1
         else (let s2 = s1\<lparr>st_gen := st_gen s1 + 1\<rparr> in st_run haveChunks (st_gen s2) s2))"

definition st_handleControl :: "control_message \<Rightarrow> send_transfer \<Rightarrow> send_transfer" where
  "st_handleControl msg s0 =
     (let s = st_clearOfferTimer s0
      in case msg of
           Accept _ have \<Rightarrow> st_begin (case have of None \<Rightarrow> [] | Some h \<Rightarrow> h) s
         | ResumeRequest _ have \<Rightarrow> st_begin have s
         | Reject _ reason \<Rightarrow>
             st_fail (FtError (''offer rejected'' @ (case reason of None \<Rightarrow> [] | Some r \<Rightarrow> if r = [] then [] else '': '' @ r))
                        OfferRejected (Some (tf_id s))) False s
         | Complete _ \<Rightarrow> (let (ok, s1) = st_transitionTo Completed s in if ok then tf_emit (CompleteEv (tf_id s1)) s1 else s1)
         | ChecksumMismatchMsg _ \<Rightarrow> st_fail (FtError ''receiver reported a checksum mismatch'' ChecksumMismatch (Some (tf_id s))) False s
         | Pause _ \<Rightarrow> snd (st_applyPause s)
         | Resume _ \<Rightarrow> snd (st_applyResume s)
         | Cancel _ reason \<Rightarrow> st_markCancelled reason s
         | _ \<Rightarrow> s)"

section \<open>One step of a worker\<close>

definition st_setRun :: "nat \<Rightarrow> send_run \<Rightarrow> send_transfer \<Rightarrow> send_transfer" where
  "st_setRun r run s = s\<lparr>st_runs := (st_runs s)[r := run]\<rparr>"

definition st_stale :: "nat \<Rightarrow> send_transfer \<Rightarrow> bool" where
  "st_stale r s \<longleftrightarrow> tf_isTerminal s \<or> rn_gen (st_runs s ! r) \<noteq> st_gen s"

text \<open>The worker's promise is rejected, and with the first one \<^verbatim>\<open>Promise.all\<close>.\<close>

definition st_workerFailed :: "nat \<Rightarrow> nat \<Rightarrow> thrown \<Rightarrow> send_transfer \<Rightarrow> send_transfer" where
  "st_workerFailed r i e s =
     (let s1 = st_setPc r i WFailed s; run = st_runs s1 ! r
      in if rn_phase run = RnWorkers then st_setRun r (run\<lparr>rn_phase := RnRejected e\<rparr>) s1 else s1)"

text \<open>The head of the loop at \<open>seq\<close>, up to the await of the pause gate.\<close>

definition st_loop :: "nat \<Rightarrow> nat \<Rightarrow> nat \<Rightarrow> send_transfer \<Rightarrow> send_transfer" where
  "st_loop r i seq s =
     (if tf_totalChunks s \<le> seq then st_setPc r i WDone s
      else if st_stale r s then st_setPc r i WDone s
      else if tf_state s \<noteq> Paused then st_setPc r i (WGate seq Resolved) s
      else (st_setPc r i (WGate seq Pending) s)\<lparr>st_resumeWaiters := st_resumeWaiters s @ [(r, i)]\<rparr>)"

definition st_continue :: "nat \<Rightarrow> nat \<Rightarrow> nat \<Rightarrow> send_transfer \<Rightarrow> send_transfer" where
  "st_continue r i seq s = st_loop r i (seq + length (rn_channels (st_runs s ! r))) s"

definition st_gatePassed :: "nat \<Rightarrow> nat \<Rightarrow> nat \<Rightarrow> send_transfer \<Rightarrow> send_transfer" where
  "st_gatePassed r i seq s =
     (if st_stale r s then st_setPc r i WDone s
      else if seq \<in> set (rn_have (st_runs s ! r)) \<and> rn_digest (st_runs s ! r) = None then st_continue r i seq s
      else st_setPc r i (WRead seq) s)"

definition st_drain :: "nat \<Rightarrow> nat \<Rightarrow> nat \<Rightarrow> bytes \<Rightarrow> send_transfer \<Rightarrow> send_transfer" where
  "st_drain r i seq bs s =
     (let c = rn_channels (st_runs s ! r) ! i;
          (p, ch) = awaitDrain (st_net s c) (st_highWaterMark s) (st_lowWaterMark s) (tf_id s)
      in st_setPc r i (WDrain seq bs p) (s\<lparr>st_net := (st_net s)(c := ch)\<rparr>))"

definition st_read :: "nat \<Rightarrow> nat \<Rightarrow> nat \<Rightarrow> bytes \<Rightarrow> send_transfer \<Rightarrow> send_transfer" where
  "st_read r i seq bs s =
     (if rn_digest (st_runs s ! r) \<noteq> None then st_setPc r i (WHash seq bs) s
      else st_drain r i seq bs s)"

definition st_hashed :: "hasher \<Rightarrow> nat \<Rightarrow> nat \<Rightarrow> nat \<Rightarrow> bytes \<Rightarrow> send_transfer \<Rightarrow> send_transfer" where
  "st_hashed subtle r i seq bs s =
     (let run = st_runs s ! r
      in case rn_digest run of
           None \<Rightarrow> s
         | Some ds \<Rightarrow>
             (case dg_update subtle seq bs ds of
                Inl e \<Rightarrow> st_workerFailed r i (TransferErr e) s
              | Inr ds' \<Rightarrow>
                  (let s1 = st_setRun r (run\<lparr>rn_digest := Some ds'\<rparr>) s
                   in if seq \<in> set (rn_have run) then st_continue r i seq s1 else st_drain r i seq bs s1)))"

text \<open>\<^verbatim>\<open>channel.send\<close> and the counters.\<close>

definition st_frameSent :: "nat \<Rightarrow> nat \<Rightarrow> nat \<Rightarrow> bytes \<Rightarrow> send_transfer \<Rightarrow> send_transfer" where
  "st_frameSent r i seq bs s =
     (let run = st_runs s ! r; c = rn_channels run ! i; ch = st_net s c; frame = encodeFrame seq bs;
          s1 = s\<lparr>st_net := (st_net s)(c := ch\<lparr>ch_buffered := ch_buffered ch + length frame\<rparr>),
                 st_wire := st_wire s @ [\<lparr>sf_gen = rn_gen run, sf_channel = c, sf_seq = seq, sf_frame = frame\<rparr>]\<rparr>;
          len = min (tf_chunkSize s) (fm_size (tf_metadata s) - seq * tf_chunkSize s);
          s2 = (if seq \<in> set (st_sentSeqs s1) then s1
                else s1\<lparr>st_sentSeqs := js_add seq (st_sentSeqs s1), tf_transferredChunks := tf_transferredChunks s1 + 1,
                        tf_transferredBytes := tf_transferredBytes s1 + len\<rparr>)
      in tf_emitProgress s2)"

text \<open>Past the drain: \<open>fault\<close> is an exception of \<^verbatim>\<open>channel.send\<close> itself.\<close>

definition st_send :: "nat \<Rightarrow> nat \<Rightarrow> nat \<Rightarrow> bytes \<Rightarrow> thrown option \<Rightarrow> send_transfer \<Rightarrow> send_transfer" where
  "st_send r i seq bs fault s =
     (let ch = st_net s (rn_channels (st_runs s ! r) ! i)
      in if st_stale r s then st_setPc r i WDone s
         else if ch_ready ch \<noteq> ChOpen then st_workerFailed r i (channel_error ch '' closed mid-transfer'' (tf_id s)) s
         else (case fault of
                 Some e \<Rightarrow> st_workerFailed r i e s
               | None \<Rightarrow> st_continue r i seq (st_frameSent r i seq bs s)))"

text \<open>The continuation of the worker once what it awaits is settled; \<open>fault\<close> is the outcome of the read, or of \<^verbatim>\<open>channel.send\<close>.\<close>

definition st_workerStep ::
  "(nat \<Rightarrow> nat \<Rightarrow> bytes) \<Rightarrow> hasher \<Rightarrow> nat \<Rightarrow> nat \<Rightarrow> thrown option \<Rightarrow> send_transfer \<Rightarrow> send_transfer" where
  "st_workerStep src subtle r i fault s =
     (if r \<ge> length (st_runs s) \<or> i \<ge> length (rn_pcs (st_runs s ! r)) then s
      else (case st_pc s r i of
              WOpen Resolved \<Rightarrow> st_loop r i i s
            | WOpen (Rejected e) \<Rightarrow> st_workerFailed r i e s
            | WGate seq Resolved \<Rightarrow> st_gatePassed r i seq s
            | WRead seq \<Rightarrow>
                (case fault of
                   Some e \<Rightarrow> st_workerFailed r i e s
                 | None \<Rightarrow>
                     (let off = seq * tf_chunkSize s; len = min (tf_chunkSize s) (fm_size (tf_metadata s) - off)
                      in st_read r i seq (src off len) s))
            | WHash seq bs \<Rightarrow> st_hashed subtle r i seq bs s
            | WDrain seq bs Resolved \<Rightarrow> st_send r i seq bs fault s
            | WDrain seq bs (Rejected e) \<Rightarrow> st_workerFailed r i e s
            | _ \<Rightarrow> s))"

section \<open>The rest of a run\<close>

definition all_done :: "send_run \<Rightarrow> bool" where
  "all_done run \<longleftrightarrow> (\<forall>pc \<in> set (rn_pcs run). pc = WDone)"

definition st_caught :: "nat \<Rightarrow> thrown \<Rightarrow> send_transfer \<Rightarrow> send_transfer" where
  "st_caught gen err s =
     (if gen \<noteq> st_gen s then s
      else (let e = toTransferError (tf_id s) err SourceReadFailed
            in if st_resumable s \<and> fe_code e = ChannelClosed \<and> \<not> tf_isTerminal s then st_interrupt s
               else st_fail e True s))"

definition st_sent :: "string option \<Rightarrow> send_transfer \<Rightarrow> send_transfer" where
  "st_sent digest s = (let s1 = snd (st_transitionTo Completing s) in st_safeControl (Sent (tf_id s1) digest) s1)"

text \<open>\<^verbatim>\<open>_run\<close> past \<^verbatim>\<open>Promise.all\<close>, then past \<^verbatim>\<open>digest.finalize()\<close>; or the rejection handler of \<^verbatim>\<open>_begin\<close>.\<close>

definition st_runStep :: "hasher \<Rightarrow> nat \<Rightarrow> send_transfer \<Rightarrow> send_transfer" where
  "st_runStep subtle r s =
     (if r \<ge> length (st_runs s) then s
      else (let run = st_runs s ! r; to = (\<lambda>ph. st_setRun r (run\<lparr>rn_phase := ph\<rparr>) s)
            in case rn_phase run of
                 RnWorkers \<Rightarrow>
                   if \<not> all_done run then s
                   else if st_stale r s then to RnOver
                   else if rn_digest run = None then st_sent None (to RnOver)
                   else to RnFinalize
               | RnFinalize \<Rightarrow>
                   (case dg_finalize subtle (the (rn_digest run)) of
                      Inl e \<Rightarrow> to (RnRejected (TransferErr e))
                    | Inr hx \<Rightarrow> st_sent (Some hx) (to RnOver))
               | RnRejected e \<Rightarrow> st_caught (rn_gen run) e (to RnOver)
               | RnOver \<Rightarrow> s))"

section \<open>Events of the channels\<close>

datatype channel_event = ChOpens | ChCloses | ChErrors | ChDrains nat

text \<open>What an event of channel \<open>c\<close> settles: the listeners of \<^verbatim>\<open>waitForOpen\<close> and \<^verbatim>\<open>awaitDrain\<close>.\<close>

definition pc_settle :: "rtc_channel \<Rightarrow> string \<Rightarrow> channel_event \<Rightarrow> bool \<Rightarrow> worker_pc \<Rightarrow> worker_pc" where
  "pc_settle ch i ev low pc =
     (case (pc, ev) of
        (WOpen Pending, ChOpens) \<Rightarrow> WOpen Resolved
      | (WOpen Pending, ChCloses) \<Rightarrow> WOpen (Rejected (channel_error ch '' closed before opening'' i))
      | (WOpen Pending, ChErrors) \<Rightarrow> WOpen (Rejected (channel_error ch '' closed before opening'' i))
      | (WDrain seq bs Pending, ChDrains _) \<Rightarrow> (if low then WDrain seq bs Resolved else pc)
      | (WDrain seq bs Pending, ChCloses) \<Rightarrow> WDrain seq bs (Rejected (channel_error ch '' closed while draining'' i))
      | (WDrain seq bs Pending, ChErrors) \<Rightarrow> WDrain seq bs (Rejected (channel_error ch '' closed while draining'' i))
      | _ \<Rightarrow> pc)"

definition ch_step :: "channel_event \<Rightarrow> rtc_channel \<Rightarrow> rtc_channel" where
  "ch_step ev ch =
     (case ev of
        ChOpens \<Rightarrow> if ch_ready ch = ChConnecting then ch\<lparr>ch_ready := ChOpen\<rparr> else ch
      | ChCloses \<Rightarrow> ch\<lparr>ch_ready := ChClosed\<rparr>
      | ChErrors \<Rightarrow> ch
      | ChDrains n \<Rightarrow> ch\<lparr>ch_buffered := ch_buffered ch - n\<rparr>)"

text \<open>The browser fires \<^verbatim>\<open>bufferedamountlow\<close> when the buffered amount falls to the threshold or below, and \<^verbatim>\<open>open\<close> only on a connecting channel.\<close>

definition st_channelEvent :: "nat \<Rightarrow> channel_event \<Rightarrow> send_transfer \<Rightarrow> send_transfer" where
  "st_channelEvent c ev s =
     (let ch = st_net s c; ch' = ch_step ev ch;
          low = (ch_lowThreshold ch < ch_buffered ch \<and> ch_buffered ch' \<le> ch_lowThreshold ch);
          settle = (\<lambda>run. run\<lparr>rn_pcs := map2 (\<lambda>c' pc. if c' = c then pc_settle ch (tf_id s) ev low pc else pc) (rn_channels run) (rn_pcs run)\<rparr>)
      in if ev = ChOpens \<and> ch_ready ch \<noteq> ChConnecting then s
         else s\<lparr>st_net := (st_net s)(c := ch'), st_runs := map settle (st_runs s)\<rparr>)"

section \<open>Everything that can happen to a sender\<close>

datatype st_event =
    TxStart
  | TxReoffer "nat list"
  | TxControl control_message
  | TxPause
  | TxResume
  | TxCancel "string option"
  | TxTimeout
  | TxWorker nat nat "thrown option"
  | TxRun nat
  | TxChannel nat channel_event
  | TxLink bool

definition st_exec ::
  "(utf16 \<Rightarrow> string) \<Rightarrow> (nat \<Rightarrow> nat \<Rightarrow> bytes) \<Rightarrow> hasher \<Rightarrow> st_event \<Rightarrow> send_transfer \<Rightarrow> send_transfer" where
  "st_exec enc src subtle ev s =
     (case ev of
        TxStart \<Rightarrow> st_start enc s
      | TxReoffer chs \<Rightarrow> st_reoffer enc chs s
      | TxControl m \<Rightarrow> st_handleControl m s
      | TxPause \<Rightarrow> st_pause s
      | TxResume \<Rightarrow> st_resume s
      | TxCancel r \<Rightarrow> st_cancel r s
      | TxTimeout \<Rightarrow> st_timeout s
      | TxWorker r i fault \<Rightarrow> st_workerStep src subtle r i fault s
      | TxRun r \<Rightarrow> st_runStep subtle r s
      | TxChannel c ev \<Rightarrow> st_channelEvent c ev s
      | TxLink up \<Rightarrow> s\<lparr>tf_linkUp := up\<rparr>)"

definition st_runAll ::
  "(utf16 \<Rightarrow> string) \<Rightarrow> (nat \<Rightarrow> nat \<Rightarrow> bytes) \<Rightarrow> hasher \<Rightarrow> st_event list \<Rightarrow> send_transfer \<Rightarrow> send_transfer" where
  "st_runAll enc src subtle evs s = fold (st_exec enc src subtle) evs s"

end
