(* ===== verification/FtSendInv.thy ===== *)
theory FtSendInv
  imports FtSend
begin

text \<open>
  The invariant of \<^verbatim>\<open>SendTransfer\<close>: what every run of the workers has read, hashed and sent. A worker of a run with \<open>k\<close> channels handles the
  chunks congruent to its index modulo \<open>k\<close>, in order; it has stopped early only where its run was superseded.
\<close>

section \<open>What a run has done\<close>

definition sent_by :: "nat \<Rightarrow> sent_frame list \<Rightarrow> nat list" where
  "sent_by g w = map sf_seq (filter (\<lambda>f. sf_gen f = g) w)"

definition handled :: "send_run \<Rightarrow> nat list \<Rightarrow> nat \<Rightarrow> bool" where
  "handled run sent q \<longleftrightarrow>
     (\<forall>ds. rn_digest run = Some ds \<longrightarrow> q \<in> fst ` set ds) \<and> (q \<in> set (rn_have run) \<or> q \<in> set sent)"

definition stride :: "send_run \<Rightarrow> nat" where
  "stride run = length (rn_channels run)"

definition reached :: "send_run \<Rightarrow> nat list \<Rightarrow> nat \<Rightarrow> nat \<Rightarrow> bool" where
  "reached run sent i q \<longleftrightarrow> (\<forall>p < q. p mod stride run = i \<longrightarrow> handled run sent p)"

definition before :: "send_run \<Rightarrow> nat list \<Rightarrow> nat \<Rightarrow> nat \<Rightarrow> bool" where
  "before run sent i q \<longleftrightarrow> (\<forall>p \<in> set sent. p mod stride run = i \<longrightarrow> p < q)"

definition at_seq :: "nat \<Rightarrow> send_run \<Rightarrow> nat list \<Rightarrow> nat \<Rightarrow> nat \<Rightarrow> bool" where
  "at_seq n run sent i q \<longleftrightarrow> q < n \<and> q mod stride run = i \<and> reached run sent i q \<and> before run sent i q"

fun worker_ok :: "(nat \<Rightarrow> bytes) \<Rightarrow> nat \<Rightarrow> bool \<Rightarrow> send_run \<Rightarrow> nat list \<Rightarrow> nat \<Rightarrow> worker_pc \<Rightarrow> bool" where
  "worker_ok C n stale run sent i (WOpen _) \<longleftrightarrow> before run sent i i"
| "worker_ok C n stale run sent i (WGate q _) \<longleftrightarrow> at_seq n run sent i q"
| "worker_ok C n stale run sent i (WRead q) \<longleftrightarrow> at_seq n run sent i q \<and> (q \<in> set (rn_have run) \<longrightarrow> rn_digest run \<noteq> None)"
| "worker_ok C n stale run sent i (WHash q bs) \<longleftrightarrow> at_seq n run sent i q \<and> bs = C q"
| "worker_ok C n stale run sent i (WDrain q bs _) \<longleftrightarrow>
     at_seq n run sent i q \<and> bs = C q \<and> q \<notin> set (rn_have run) \<and> (\<forall>ds. rn_digest run = Some ds \<longrightarrow> q \<in> fst ` set ds)"
| "worker_ok C n stale run sent i WDone \<longleftrightarrow> stale \<or> reached run sent i n"
| "worker_ok C n stale run sent i WFailed \<longleftrightarrow> True"

definition run_complete :: "nat \<Rightarrow> send_run \<Rightarrow> nat list \<Rightarrow> bool" where
  "run_complete n run sent \<longleftrightarrow> (\<forall>q < n. handled run sent q)"

definition digest_ok :: "hasher \<Rightarrow> (nat \<Rightarrow> bytes) \<Rightarrow> nat \<Rightarrow> bool \<Rightarrow> send_run \<Rightarrow> bool" where
  "digest_ok subtle C n checksum run \<longleftrightarrow>
     (rn_digest run = None \<longleftrightarrow> \<not> checksum) \<and>
     (\<forall>ds. rn_digest run = Some ds \<longrightarrow> digests_of subtle C (fst ` set ds) ds \<and> fst ` set ds \<subseteq> {..<n})"

definition run_ok :: "hasher \<Rightarrow> (nat \<Rightarrow> bytes) \<Rightarrow> nat \<Rightarrow> bool \<Rightarrow> bool \<Rightarrow> send_run \<Rightarrow> nat list \<Rightarrow> bool" where
  "run_ok subtle C n checksum stale run sent \<longleftrightarrow>
     0 < stride run \<and> length (rn_pcs run) = stride run \<and> digest_ok subtle C n checksum run \<and>
     distinct sent \<and> set sent \<subseteq> {..<n} - set (rn_have run) \<and>
     (\<forall>i < stride run. worker_ok C n stale run sent i (rn_pcs run ! i)) \<and>
     (rn_phase run = RnFinalize \<longrightarrow> rn_digest run \<noteq> None \<and> run_complete n run sent)"

definition run_stale :: "send_transfer \<Rightarrow> send_run \<Rightarrow> bool" where
  "run_stale s run \<longleftrightarrow> tf_isTerminal s \<or> rn_gen run < st_gen s"

definition st_runs_ok :: "hasher \<Rightarrow> bytes \<Rightarrow> send_transfer \<Rightarrow> bool" where
  "st_runs_ok subtle file s \<longleftrightarrow>
     (\<forall>run \<in> set (st_runs s). rn_gen run \<le> st_gen s \<and>
        run_ok subtle (ft_chunk (tf_chunkSize s) file) (tf_totalChunks s) (st_checksum s) (run_stale s run) run
          (sent_by (rn_gen run) (st_wire s))) \<and>
     distinct (map rn_gen (st_runs s))"

definition st_wire_ok :: "bytes \<Rightarrow> send_transfer \<Rightarrow> bool" where
  "st_wire_ok file s \<longleftrightarrow>
     (\<forall>f \<in> set (st_wire s). sf_seq f < tf_totalChunks s \<and> sf_gen f \<in> rn_gen ` set (st_runs s) \<and>
        sf_frame f = encodeFrame (sf_seq f) (ft_chunk (tf_chunkSize s) file (sf_seq f)))"

definition st_sent_ok :: "hasher \<Rightarrow> bytes \<Rightarrow> send_transfer \<Rightarrow> bool" where
  "st_sent_ok subtle file s \<longleftrightarrow>
     (\<forall>i d. Control (Sent i d) \<in> set (tf_log s) \<longrightarrow>
        (\<exists>run \<in> set (st_runs s). run_complete (tf_totalChunks s) run (sent_by (rn_gen run) (st_wire s))) \<and>
        (if st_checksum s then \<exists>sha. subtle = Some sha \<and> d = Some (ft_digest sha (tf_chunkSize s) file) else d = None))"

definition st_counters_ok :: "bytes \<Rightarrow> send_transfer \<Rightarrow> bool" where
  "st_counters_ok file s \<longleftrightarrow>
     distinct (st_sentSeqs s) \<and> set (st_sentSeqs s) = sf_seq ` set (st_wire s) \<and> tf_transferredChunks s = length (st_sentSeqs s) \<and>
     tf_transferredBytes s = sum_list (map (\<lambda>q. length (ft_chunk (tf_chunkSize s) file q)) (st_sentSeqs s))"

definition st_file_ok :: "bytes \<Rightarrow> send_transfer \<Rightarrow> bool" where
  "st_file_ok file s \<longleftrightarrow>
     0 < tf_chunkSize s \<and> st_channels s \<noteq> [] \<and> fm_size (tf_metadata s) = length file \<and> tf_totalChunks s = ft_chunks (length file) (tf_chunkSize s)"

definition st_inv :: "hasher \<Rightarrow> bytes \<Rightarrow> send_transfer \<Rightarrow> bool" where
  "st_inv subtle file s \<longleftrightarrow>
     st_file_ok file s \<and> st_runs_ok subtle file s \<and> st_wire_ok file s \<and> st_sent_ok subtle file s \<and> st_counters_ok file s"

section \<open>Monotonicity\<close>

lemma sent_by_simps [simp]:
  "sent_by g [] = []" "sent_by g (w @ w') = sent_by g w @ sent_by g w'"
  "sent_by g [f] = (if sf_gen f = g then [sf_seq f] else [])"
  by (simp_all add: sent_by_def)

definition grows :: "send_run \<Rightarrow> nat list \<Rightarrow> send_run \<Rightarrow> nat list \<Rightarrow> bool" where
  "grows run sent run' sent' \<longleftrightarrow>
     rn_have run' = rn_have run \<and> rn_channels run' = rn_channels run \<and> set sent \<subseteq> set sent' \<and>
     (rn_digest run' = None \<longleftrightarrow> rn_digest run = None) \<and>
     (\<forall>ds ds'. rn_digest run = Some ds \<longrightarrow> rn_digest run' = Some ds' \<longrightarrow> fst ` set ds \<subseteq> fst ` set ds')"

lemma handled_grows: "grows run sent run' sent' \<Longrightarrow> handled run sent q \<Longrightarrow> handled run' sent' q"
  by (cases "rn_digest run"; cases "rn_digest run'") (auto simp: grows_def handled_def)

lemma reached_grows: "grows run sent run' sent' \<Longrightarrow> reached run sent i q \<Longrightarrow> reached run' sent' i q"
proof -
  assume g: "grows run sent run' sent'" and r: "reached run sent i q"
  have "stride run' = stride run" using g by (simp add: grows_def stride_def)
  then show ?thesis using r handled_grows [OF g] by (simp add: reached_def)
qed

lemma complete_grows: "grows run sent run' sent' \<Longrightarrow> run_complete n run sent \<Longrightarrow> run_complete n run' sent'"
  using handled_grows by (auto simp: run_complete_def)

lemma worker_ok_grows:
  assumes g: "grows run sent run' sent'" and new: "\<And>p. p \<in> set sent' \<Longrightarrow> p \<notin> set sent \<Longrightarrow> p mod stride run \<noteq> i"
    and st: "stale \<Longrightarrow> stale'" and ok: "worker_ok C n stale run sent i pc"
  shows "worker_ok C n stale' run' sent' i pc"
proof -
  have b: "before run sent i q \<Longrightarrow> before run' sent' i q" for q
    using g new by (auto simp: before_def stride_def grows_def)
  have a: "at_seq n run sent i q \<Longrightarrow> at_seq n run' sent' i q" for q
    using b reached_grows [OF g] g by (auto simp: at_seq_def stride_def grows_def)
  have d: "q \<in> fst ` set ds'" if nd: "\<forall>ds. rn_digest run = Some ds \<longrightarrow> q \<in> fst ` set ds" "rn_digest run' = Some ds'" for q ds'
  proof -
    obtain ds where "rn_digest run = Some ds" using g nd(2) by (cases "rn_digest run") (auto simp: grows_def)
    then have "fst ` set ds \<subseteq> fst ` set ds'" "q \<in> fst ` set ds" using g nd by (simp_all add: grows_def)
    then show ?thesis by (rule subsetD)
  qed
  have hv: "rn_have run' = rn_have run" "rn_digest run' = None \<longleftrightarrow> rn_digest run = None" using g by (simp_all add: grows_def)
  show ?thesis
  proof (cases pc)
    case (WDrain q bs p)
    then have o: "at_seq n run sent i q" "bs = C q" "q \<notin> set (rn_have run)" "\<forall>ds. rn_digest run = Some ds \<longrightarrow> q \<in> fst ` set ds"
      using ok by simp_all
    show ?thesis using a [OF o(1)] o(2,3) d [OF o(4)] by (simp add: WDrain hv(1))
  next
    case WDone
    then show ?thesis using ok st reached_grows [OF g, of i n] by auto
  qed (use ok a b hv in simp_all)
qed

lemma mod_step:
  assumes "p mod k = q mod k" "p < q + k" "\<not> p < q"
  shows "p = (q :: nat)"
proof -
  have "k dvd p - q" using assms(1,3) mod_eq_dvd_iff_nat [of q p k] by simp
  moreover have "p - q < k" using assms(2,3) by simp
  ultimately have "p - q = 0" using nat_dvd_not_less [of "p - q" k] by auto
  then show ?thesis using assms(3) by simp
qed

lemma reached_next:
  assumes "at_seq n run sent i q" "handled run sent q"
  shows "reached run sent i (q + stride run)"
  using assms mod_step [of _ "stride run" q] by (auto simp: at_seq_def reached_def)

lemma before_next: "at_seq n run sent i q \<Longrightarrow> 0 < stride run \<Longrightarrow> before run sent i (q + stride run)"
  by (auto simp: at_seq_def before_def)

lemma grows_refl [simp]: "grows run sent run sent"
  by (simp add: grows_def)

lemma run_ok_stale: "run_ok subtle C n cks stale run sent \<Longrightarrow> (stale \<Longrightarrow> stale') \<Longrightarrow> run_ok subtle C n cks stale' run sent"
  unfolding run_ok_def using worker_ok_grows [OF grows_refl, of _ _ _ stale stale'] by blast

lemma run_ok_step:
  assumes ok: "run_ok subtle C n cks stale run sent" and g: "grows run sent run' sent'"
    and pcs: "rn_pcs run' = (rn_pcs run)[i := pc]" and dg: "digest_ok subtle C n cks run'" and d: "distinct sent'"
    and new: "\<And>p. p \<in> set sent' \<Longrightarrow> p \<notin> set sent \<Longrightarrow> p mod stride run = i \<and> p < n \<and> p \<notin> set (rn_have run)"
    and ph: "rn_phase run' = RnFinalize \<Longrightarrow> rn_phase run = RnFinalize" and pc: "worker_ok C n stale run' sent' i pc"
  shows "run_ok subtle C n cks stale run' sent'"
  unfolding run_ok_def
proof (intro conjI allI impI)
  have st: "stride run' = stride run" using g by (simp add: grows_def stride_def)
  have len: "length (rn_pcs run) = stride run" using ok by (simp add: run_ok_def)
  show "length (rn_pcs run') = stride run'" using pcs len st by simp
  show "0 < stride run'" using ok st by (simp add: run_ok_def)
  show "set sent' \<subseteq> {..<n} - set (rn_have run')" using ok new g by (fastforce simp: run_ok_def grows_def)
  show "rn_digest run' \<noteq> None" "run_complete n run' sent'" if "rn_phase run' = RnFinalize"
    using complete_grows [OF g] g ph [OF that] ok by (simp_all add: run_ok_def grows_def)
  show "worker_ok C n stale run' sent' j (rn_pcs run' ! j)" if "j < stride run'" for j
  proof (cases "j = i")
    case True
    then show ?thesis using that pc pcs len st by simp
  next
    case False
    have "worker_ok C n stale run sent j (rn_pcs run ! j)" using ok that st by (simp add: run_ok_def)
    then show ?thesis using worker_ok_grows [OF g] new False pcs by (metis (no_types, lifting) nth_list_update_neq)
  qed
qed (use dg d in simp_all)

section \<open>Steps of the state\<close>

definition st_fixed where
  "st_fixed s = (tf_metadata s, tf_chunkSize s, tf_totalChunks s, st_checksum s)"

lemma st_fixedD:
  assumes "st_fixed s' = st_fixed s"
  shows "tf_metadata s' = tf_metadata s" "tf_chunkSize s' = tf_chunkSize s" "tf_totalChunks s' = tf_totalChunks s"
    "st_checksum s' = st_checksum s"
  using assms by (simp_all add: st_fixed_def)

definition sents :: "send_transfer \<Rightarrow> (string \<times> string option) set" where
  "sents s = {(i, d). Control (Sent i d) \<in> set (tf_log s)}"

lemma st_sent_ok_sents:
  "st_sent_ok subtle file s \<longleftrightarrow>
     (\<forall>(i, d) \<in> sents s.
        (\<exists>run \<in> set (st_runs s). run_complete (tf_totalChunks s) run (sent_by (rn_gen run) (st_wire s))) \<and>
        (if st_checksum s then \<exists>sha. subtle = Some sha \<and> d = Some (ft_digest sha (tf_chunkSize s) file) else d = None))"
  by (auto simp: st_sent_ok_def sents_def)

text \<open>One run changes, and sends at most what it is allowed to.\<close>

lemma st_inv_step:
  assumes inv: "st_inv subtle file s" and r: "r < length (st_runs s)" "run = st_runs s ! r"
    and fx: "st_fixed s' = st_fixed s" "st_channels s' = st_channels s" and snt: "sents s' \<subseteq> sents s"
    and gen: "st_gen s' = st_gen s" "tf_isTerminal s' = tf_isTerminal s"
    and runs: "st_runs s' = (st_runs s)[r := run']" "rn_gen run' = rn_gen run"
    and wire: "st_wire s' = st_wire s @ new"
      "\<And>f. f \<in> set new \<Longrightarrow> sf_gen f = rn_gen run \<and> sf_seq f < tf_totalChunks s \<and>
         sf_frame f = encodeFrame (sf_seq f) (ft_chunk (tf_chunkSize s) file (sf_seq f))"
    and g: "grows run (sent_by (rn_gen run) (st_wire s)) run' (sent_by (rn_gen run) (st_wire s'))"
    and ok: "run_ok subtle (ft_chunk (tf_chunkSize s) file) (tf_totalChunks s) (st_checksum s) (run_stale s run) run
        (sent_by (rn_gen run) (st_wire s)) \<Longrightarrow>
      run_ok subtle (ft_chunk (tf_chunkSize s) file) (tf_totalChunks s) (st_checksum s) (run_stale s run) run' (sent_by (rn_gen run) (st_wire s'))"
    and cnt: "st_counters_ok file s'"
  shows "st_inv subtle file s'"
proof -
  note f = st_fixedD [OF fx(1)] fx(2)
  have mem: "run \<in> set (st_runs s)" using r by simp
  have gens: "map rn_gen (st_runs s') = map rn_gen (st_runs s)"
    by (rule nth_equalityI) (use runs r in \<open>auto simp: nth_list_update\<close>)
  have d: "distinct (map rn_gen (st_runs s))" using inv by (simp add: st_inv_def st_runs_ok_def)
  have other: "sent_by (rn_gen x) (st_wire s') = sent_by (rn_gen x) (st_wire s)" if "x = st_runs s ! k" "k < length (st_runs s)" "k \<noteq> r" for x k
  proof -
    have "rn_gen x \<noteq> rn_gen run" using d that r by (auto simp: distinct_conv_nth)
    then show ?thesis using wire by (simp add: sent_by_def)
  qed
  have rs: "run_stale s' x = run_stale s x" for x by (simp add: run_stale_def gen)
  have all: "rn_gen (st_runs s' ! k) \<le> st_gen s' \<and>
    run_ok subtle (ft_chunk (tf_chunkSize s') file) (tf_totalChunks s') (st_checksum s') (run_stale s' (st_runs s' ! k)) (st_runs s' ! k)
      (sent_by (rn_gen (st_runs s' ! k)) (st_wire s'))" if "k < length (st_runs s)" for k
  proof (cases "k = r")
    case True
    then show ?thesis using inv ok mem r runs unfolding st_inv_def st_runs_ok_def
      by (simp add: rs gen f run_stale_def)
  next
    case False
    then have e: "st_runs s' ! k = st_runs s ! k" using runs(1) by simp
    have m: "st_runs s ! k \<in> set (st_runs s)" using that by simp
    show ?thesis using inv m by (simp add: st_inv_def st_runs_ok_def rs gen f e other [OF refl that False])
  qed
  have "st_runs_ok subtle file s'"
    unfolding st_runs_ok_def gens using all d runs(1) by (auto simp: in_set_conv_nth)
  moreover have "st_wire_ok file s'"
  proof -
    have "rn_gen ` set (st_runs s') = rn_gen ` set (st_runs s)" using gens by (metis set_map)
    then show ?thesis using inv wire mem by (auto simp: st_wire_ok_def st_inv_def f)
  qed
  moreover have "\<exists>x \<in> set (st_runs s'). run_complete n x (sent_by (rn_gen x) (st_wire s'))"
    if x: "x \<in> set (st_runs s)" "run_complete n x (sent_by (rn_gen x) (st_wire s))" for n x
  proof -
    obtain k where k: "k < length (st_runs s)" "x = st_runs s ! k" using x(1) by (auto simp: in_set_conv_nth)
    have "run_complete n (st_runs s' ! k) (sent_by (rn_gen (st_runs s' ! k)) (st_wire s'))"
    proof (cases "k = r")
      case True
      then show ?thesis using complete_grows [OF g] x(2) k r runs by simp
    next
      case False
      then show ?thesis using other [OF k(2,1)] x(2) k(2) runs(1) by simp
    qed
    moreover have "st_runs s' ! k \<in> set (st_runs s')" using k(1) runs(1) by simp
    ultimately show ?thesis by blast
  qed
  then have "st_sent_ok subtle file s'" using inv snt unfolding st_inv_def st_sent_ok_sents f by fast
  ultimately show ?thesis using inv cnt by (simp add: st_inv_def st_file_ok_def f)
qed

section \<open>Steps that only change what is awaited\<close>

fun pc_norm :: "worker_pc \<Rightarrow> worker_pc" where
  "pc_norm (WOpen _) = WOpen Resolved"
| "pc_norm (WGate q _) = WGate q Resolved"
| "pc_norm (WDrain q bs _) = WDrain q bs Resolved"
| "pc_norm pc = pc"

definition run_norm :: "send_run \<Rightarrow> send_run" where
  "run_norm run = run\<lparr>rn_pcs := map pc_norm (rn_pcs run)\<rparr>"

definition st_counts where
  "st_counts s = (st_sentSeqs s, tf_transferredChunks s, tf_transferredBytes s)"

definition quiet :: "send_transfer \<Rightarrow> send_transfer \<Rightarrow> bool" where
  "quiet s s' \<longleftrightarrow>
     st_fixed s' = st_fixed s \<and> st_wire s' = st_wire s \<and> st_counts s' = st_counts s \<and>
     map run_norm (st_runs s') = map run_norm (st_runs s) \<and> sents s' = sents s \<and> st_gen s \<le> st_gen s' \<and>
     (tf_isTerminal s \<longrightarrow> tf_isTerminal s') \<and> (st_channels s \<noteq> [] \<longrightarrow> st_channels s' \<noteq> [])"

lemma quiet_refl [simp, intro]: "quiet s s"
  by (simp add: quiet_def)

lemma quiet_trans [trans]: "quiet s t \<Longrightarrow> quiet t u \<Longrightarrow> quiet s u"
  by (auto simp: quiet_def)

lemma worker_ok_norm: "worker_ok C n stale run sent i pc = worker_ok C n stale (run_norm run) sent i (pc_norm pc)"
proof -
  have "at_seq n (run_norm run) sent j q = at_seq n run sent j q" "before (run_norm run) sent j q = before run sent j q"
    "reached (run_norm run) sent j q = reached run sent j q" "rn_have (run_norm run) = rn_have run" "rn_digest (run_norm run) = rn_digest run" for j q
    by (simp_all add: at_seq_def before_def reached_def handled_def stride_def run_norm_def)
  then show ?thesis by (cases pc) simp_all
qed

lemma run_complete_norm [simp]: "run_complete n (run_norm run) sent = run_complete n run sent"
  by (simp add: run_complete_def handled_def run_norm_def)

lemma run_norm_fields [simp]: "rn_gen (run_norm run) = rn_gen run" "stride (run_norm run) = stride run" "rn_phase (run_norm run) = rn_phase run"
  by (simp_all add: run_norm_def stride_def)

lemma run_ok_norm: "run_ok subtle C n cks stale (run_norm run) sent = run_ok subtle C n cks stale run sent"
proof (cases "length (rn_pcs run) = stride run")
  case True
  have "worker_ok C n stale (run_norm run) sent i (rn_pcs (run_norm run) ! i) = worker_ok C n stale run sent i (rn_pcs run ! i)"
    if "i < stride run" for i
    using that True worker_ok_norm [of C n stale run sent i "rn_pcs run ! i"] by (simp add: run_norm_def)
  then show ?thesis using True by (simp add: run_ok_def digest_ok_def) (simp add: run_norm_def)
next
  case False
  then show ?thesis by (simp add: run_ok_def) (simp add: run_norm_def)
qed

lemma quiet_runs:
  assumes "quiet s s'" "run' \<in> set (st_runs s')"
  obtains run where "run \<in> set (st_runs s)" "run_norm run' = run_norm run"
proof -
  have "run_norm run' \<in> set (map run_norm (st_runs s))" using assms by (metis image_eqI quiet_def set_map)
  then show ?thesis using that by auto
qed

lemma quiet_sym_runs:
  assumes "quiet s s'" "run \<in> set (st_runs s)"
  obtains run' where "run' \<in> set (st_runs s')" "run_norm run' = run_norm run"
proof -
  have "run_norm run \<in> set (map run_norm (st_runs s'))" using assms by (metis image_eqI quiet_def set_map)
  then show ?thesis using that by auto
qed

lemma run_norm_eqD: "run_norm x = run_norm y \<Longrightarrow> rn_gen x = rn_gen y"
  by (metis run_norm_fields(1))

lemma gens_norm: "map rn_gen runs = map rn_gen (map run_norm runs)"
  by simp

lemma st_inv_quiet:
  assumes inv: "st_inv subtle file s" and q: "quiet s s'"
  shows "st_inv subtle file s'"
proof -
  have fx: "st_fixed s' = st_fixed s" and w: "st_wire s' = st_wire s" and c: "st_counts s' = st_counts s" and sn: "sents s' = sents s"
    and gens: "map rn_gen (st_runs s') = map rn_gen (st_runs s)" and gen: "st_gen s \<le> st_gen s'" and tm: "tf_isTerminal s \<Longrightarrow> tf_isTerminal s'"
    using q gens_norm [of "st_runs s"] gens_norm [of "st_runs s'"] by (simp_all add: quiet_def del: map_map)
  note f = st_fixedD [OF fx]
  have "rn_gen run' \<le> st_gen s' \<and> run_ok subtle (ft_chunk (tf_chunkSize s) file) (tf_totalChunks s) (st_checksum s) (run_stale s' run') run'
    (sent_by (rn_gen run') (st_wire s))" if m: "run' \<in> set (st_runs s')" for run'
  proof -
    obtain run where run: "run \<in> set (st_runs s)" "run_norm run' = run_norm run" using quiet_runs [OF q m] .
    note g = run_norm_eqD [OF run(2)]
    have ok: "rn_gen run \<le> st_gen s" "run_ok subtle (ft_chunk (tf_chunkSize s) file) (tf_totalChunks s) (st_checksum s) (run_stale s run) run
      (sent_by (rn_gen run) (st_wire s))" using inv run(1) by (auto simp: st_inv_def st_runs_ok_def)
    have "run_stale s run \<Longrightarrow> run_stale s' run'" using gen tm g by (auto simp: run_stale_def)
    then show ?thesis using run_ok_stale [OF ok(2)] run(2) run_ok_norm g ok(1) gen by (metis order.trans)
  qed
  then have "st_runs_ok subtle file s'" using inv by (auto simp: st_runs_ok_def st_inv_def f w gens)
  moreover have "st_wire_ok file s'"
  proof -
    have "rn_gen ` set (st_runs s') = rn_gen ` set (st_runs s)" using gens by (metis set_map)
    then show ?thesis using inv by (simp add: st_wire_ok_def st_inv_def f w)
  qed
  moreover have "st_sent_ok subtle file s'"
  proof -
    have "\<exists>run' \<in> set (st_runs s'). run_complete n run' (sent_by (rn_gen run') (st_wire s))"
      if x: "run \<in> set (st_runs s)" "run_complete n run (sent_by (rn_gen run) (st_wire s))" for n run
    proof -
      obtain run' where run': "run' \<in> set (st_runs s')" "run_norm run' = run_norm run" using quiet_sym_runs [OF q x(1)] .
      then have "run_complete n run' (sent_by (rn_gen run') (st_wire s))"
        using x(2) run_norm_eqD [OF run'(2)] run_complete_norm [of n run'] run_complete_norm [of n run] by simp
      then show ?thesis using run'(1) by blast
    qed
    then show ?thesis using inv unfolding st_inv_def st_sent_ok_sents f w sn by fast
  qed
  moreover have "st_counters_ok file s'" using inv c by (simp add: st_counters_ok_def st_inv_def f w st_counts_def)
  ultimately show ?thesis using inv q by (simp add: st_inv_def st_file_ok_def f quiet_def)
qed

subsection \<open>The operations that are quiet\<close>

lemma sents_emit [simp]: "(\<And>i d. x \<noteq> Control (Sent i d)) \<Longrightarrow> sents (tf_emit x s) = sents s"
  by (auto simp: sents_def tf_emit_def)

lemma sents_sent [simp]: "sents (tf_emit (Control (Sent i d)) s) = insert (i, d) (sents s)"
  by (auto simp: sents_def tf_emit_def)

lemma emit_send_fields [simp]:
  "st_fixed (tf_emit x s) = st_fixed s" "st_wire (tf_emit x s) = st_wire s" "st_counts (tf_emit x s) = st_counts s"
  "st_runs (tf_emit x s) = st_runs s" "st_gen (tf_emit x s) = st_gen s" "st_channels (tf_emit x s) = st_channels s"
  by (simp_all add: tf_emit_def st_fixed_def st_counts_def)

lemma quiet_emit: "(\<And>i d. x \<noteq> Control (Sent i d)) \<Longrightarrow> quiet s (tf_emit x s)"
  by (simp add: quiet_def)

text \<open>Changes of fields the invariant does not speak of.\<close>

lemma quiet_fields [simp, intro]:
  "quiet s (s\<lparr>st_offerTimer := a\<rparr>)" "quiet s (s\<lparr>st_resumeWaiters := b\<rparr>)" "quiet s (s\<lparr>st_interrupted := c\<rparr>)"
  "quiet s (s\<lparr>st_pendingPause := d\<rparr>)" "quiet s (s\<lparr>st_net := e\<rparr>)" "f \<noteq> [] \<Longrightarrow> quiet s (s\<lparr>st_channels := f\<rparr>)" "quiet s (s\<lparr>tf_linkUp := g\<rparr>)"
  "st_gen s \<le> n \<Longrightarrow> quiet s (s\<lparr>st_gen := n\<rparr>)" "\<not> tf_isTerminal s \<Longrightarrow> quiet s (s\<lparr>tf_state := m\<rparr>)"
  by (auto simp: quiet_def st_fixed_def st_counts_def sents_def tf_isTerminal_def)

lemma run_norm_setPc:
  "pc_norm pc = pc_norm (st_pc s r i) \<Longrightarrow> map run_norm (st_runs (st_setPc r i pc s)) = map run_norm (st_runs s)"
proof (cases "r < length (st_runs s)")
  case True
  assume eq: "pc_norm pc = pc_norm (st_pc s r i)"
  have "(map pc_norm (rn_pcs (st_runs s ! r)))[i := pc_norm pc] = map pc_norm (rn_pcs (st_runs s ! r))"
    using eq by (cases "i < length (rn_pcs (st_runs s ! r))") (simp_all add: st_pc_def list_update_same_conv list_update_beyond)
  then show ?thesis using True by (simp add: st_setPc_def run_norm_def map_update list_update_same_conv)
qed (simp add: st_setPc_def list_update_beyond)

lemma setPc_fields [simp]:
  "st_fixed (st_setPc r i pc s) = st_fixed s" "st_wire (st_setPc r i pc s) = st_wire s" "st_counts (st_setPc r i pc s) = st_counts s"
  "sents (st_setPc r i pc s) = sents s" "st_gen (st_setPc r i pc s) = st_gen s" "tf_isTerminal (st_setPc r i pc s) = tf_isTerminal s"
  "length (st_runs (st_setPc r i pc s)) = length (st_runs s)" "tf_state (st_setPc r i pc s) = tf_state s"
  "st_net (st_setPc r i pc s) = st_net s" "st_channels (st_setPc r i pc s) = st_channels s"
  by (simp_all add: st_setPc_def st_fixed_def st_counts_def sents_def tf_isTerminal_def)

lemma quiet_setPc: "pc_norm pc = pc_norm (st_pc s r i) \<Longrightarrow> quiet s (st_setPc r i pc s)"
  by (simp add: quiet_def run_norm_setPc)

lemma pc_norm_gate_open [simp]: "pc_norm (gate_open pc) = pc_norm pc"
  by (cases pc) (simp_all add: gate_open_def)

lemma quiet_fold: "(\<And>x s. x \<in> set xs \<Longrightarrow> quiet s (f x s)) \<Longrightarrow> quiet s (fold f xs s)"
  by (induction xs arbitrary: s) (auto intro: quiet_trans)

lemma quiet_release [intro]: "quiet s (st_release s)"
  unfolding st_release_def Let_def
  by (rule quiet_trans [OF quiet_fields(2) quiet_fold]) (auto intro: quiet_setPc)

lemma quiet_closeChannel [intro]: "quiet s (st_closeChannel c s)"
  unfolding st_closeChannel_def by (rule quiet_trans [OF quiet_fields(5) quiet_emit]) simp

lemma quiet_clear [simp, intro]: "quiet s (st_clearOfferTimer s)"
  by (simp add: st_clearOfferTimer_def)

lemma quiet_onTerminal [intro]: "quiet s (st_onTerminal s)"
proof -
  define s1 where "s1 = st_clearOfferTimer s"
  define s2 where "s2 = st_release (s1\<lparr>st_gen := st_gen s1 + 1\<rparr>)"
  have "quiet s s1" by (simp add: s1_def)
  also have "quiet s1 (s1\<lparr>st_gen := st_gen s1 + 1\<rparr>)" by (rule quiet_fields) simp
  also have "quiet \<dots> s2" unfolding s2_def by (rule quiet_release)
  also have "quiet s2 (fold st_closeChannel (st_channels s2) s2)" by (rule quiet_fold) (rule quiet_closeChannel)
  also have "quiet \<dots> (tf_emit CloseSource \<dots>)" by (rule quiet_emit) simp
  finally show ?thesis by (simp only: st_onTerminal_def Let_def s1_def s2_def)
qed

lemma quiet_transitionTo [intro]: "quiet s (snd (st_transitionTo n s))"
proof (cases "ft_edge (tf_state s) n")
  case True
  define s1 where "s1 = tf_emit (StateChanged n (tf_state s)) (s\<lparr>tf_state := n\<rparr>)"
  have "\<not> tf_isTerminal s" using True by (simp add: ft_edge_def tf_isTerminal_def)
  then have "quiet s (s\<lparr>tf_state := n\<rparr>)" by (rule quiet_fields)
  also have "quiet \<dots> s1" unfolding s1_def by (rule quiet_emit) simp
  finally have q: "quiet s s1" .
  have "snd (st_transitionTo n s) = (if n \<in> set TERMINAL then st_onTerminal s1 else s1)"
    using True by (simp add: st_transitionTo_def tf_transitionTo_def Let_def s1_def ft_edge_def tf_isTerminal_def) blast
  then show ?thesis using q quiet_trans [OF q quiet_onTerminal] by simp
next
  case False
  then have "snd (st_transitionTo n s) = s"
    by (auto simp: st_transitionTo_def tf_transitionTo_def ft_edge_def tf_isTerminal_def)
  then show ?thesis by simp
qed

lemma quiet_fail_with:
  assumes "\<And>e s. quiet s (notify e s)"
  shows "quiet s (tf_fail st_onTerminal notify e b s)"
proof -
  have "quiet s (snd (st_transitionTo Failed s))" by blast
  also have "quiet \<dots> (if b then notify e \<dots> else \<dots>)" using assms by simp
  also have "quiet \<dots> (tf_emit (ErrorEv e) \<dots>)" by (rule quiet_emit) simp
  finally show ?thesis by (simp add: tf_fail_def st_transitionTo_def Let_def split: if_splits)
qed

lemma quiet_safeControl: "(\<And>i d. m \<noteq> Sent i d) \<Longrightarrow> quiet s (st_safeControl m s)"
  by (auto simp: st_safeControl_def split: option.split dest!: tf_sendControl_Some intro: quiet_emit quiet_fail_with)

lemma quiet_fail [intro]: "quiet s (st_fail e b s)"
  unfolding st_fail_def by (rule quiet_fail_with) (auto simp: st_notifyRemoteFailure_def intro: quiet_safeControl)

lemma quiet_sendOffer [intro]: "quiet s (st_sendOffer enc s)"
  unfolding st_sendOffer_def by (rule quiet_safeControl) simp

lemma quiet_arm [intro]: "quiet s (st_armOfferTimeout w s)"
  by (auto simp: st_armOfferTimeout_def Let_def intro: quiet_trans [OF quiet_clear])

lemma quiet_timeout [intro]: "quiet s (st_timeout s)"
  by (auto simp: st_timeout_def Let_def intro: quiet_trans [OF quiet_fields(1) quiet_fail] split: option.split)

lemma quiet_start [intro]: "quiet s (st_start enc s)"
proof -
  have q: "quiet s (snd (st_transitionTo Offered s))" by blast
  note q1 = quiet_trans [OF q quiet_sendOffer]
  show ?thesis unfolding st_start_def by (auto simp: split_def Let_def intro: q q1 quiet_trans [OF q1 quiet_arm])
qed

lemma quiet_reoffer [intro]: "chs \<noteq> [] \<Longrightarrow> quiet s (st_reoffer enc chs s)"
proof -
  assume ne: "chs \<noteq> []"
  define s1 where "s1 = fold st_closeChannel (filter (\<lambda>c. c \<notin> set chs) (st_channels s)) s"
  have "quiet s s1" unfolding s1_def by (rule quiet_fold) (rule quiet_closeChannel)
  also have "quiet s1 (s1\<lparr>st_channels := chs\<rparr>)" using ne by simp
  also have "quiet \<dots> (st_sendOffer enc \<dots>)" by blast
  also have "quiet \<dots> (st_armOfferTimeout AwaitResume \<dots>)" by blast
  finally show ?thesis by (simp add: st_reoffer_def s1_def Let_def)
qed

lemma quiet_applyPause [intro]: "quiet s (snd (st_applyPause s))"
  by (auto simp: st_applyPause_def)

lemma quiet_applyResume [intro]: "quiet s (snd (st_applyResume s))"
  by (auto simp: st_applyResume_def split_def Let_def intro: quiet_trans [OF quiet_transitionTo quiet_release])

lemma quiet_pause [intro]: "quiet s (st_pause s)" "quiet s (st_resume s)"
  by (auto simp: st_pause_def st_resume_def split_def Let_def intro: quiet_trans [OF quiet_applyPause quiet_safeControl]
      quiet_trans [OF quiet_applyResume quiet_safeControl])

lemma quiet_markCancelled [intro]: "quiet s (st_markCancelled r s)"
proof -
  have q: "quiet s (snd (st_transitionTo TCancelled (st_clearOfferTimer s)))" by (rule quiet_trans [OF quiet_clear quiet_transitionTo])
  show ?thesis by (auto simp: st_markCancelled_def Let_def intro: q quiet_trans [OF q quiet_emit] split: option.split)
qed

lemma quiet_cancel [intro]: "quiet s (st_cancel r s)"
  by (auto simp: st_cancel_def intro: quiet_trans [OF quiet_safeControl quiet_markCancelled])

lemma quiet_interrupt [intro]: "quiet s (st_interrupt s)"
  by (auto simp: st_interrupt_def split_def Let_def intro: quiet_trans [OF quiet_transitionTo])

lemma quiet_caught [intro]: "quiet s (st_caught g e s)"
  by (auto simp: st_caught_def Let_def)

lemma pc_norm_settle [simp]: "pc_norm (pc_settle ch i ev low pc) = pc_norm pc"
  by (cases pc; cases ev) (auto simp: pc_settle_def split: promise.split)

lemma map2_norm:
  "length cs = length pcs \<Longrightarrow> (\<And>c pc. pc_norm (f c pc) = pc_norm pc) \<Longrightarrow> map pc_norm (map2 f cs pcs) = map pc_norm pcs"
  by (induction cs pcs rule: list_induct2) simp_all

lemma quiet_channelEvent:
  assumes "\<And>run. run \<in> set (st_runs s) \<Longrightarrow> length (rn_pcs run) = stride run"
  shows "quiet s (st_channelEvent c ev s)"
proof -
  define ch where "ch = st_net s c"
  define low where "low = (ch_lowThreshold ch < ch_buffered ch \<and> ch_buffered (ch_step ev ch) \<le> ch_lowThreshold ch)"
  define f where "f = (\<lambda>c' pc. if c' = c then pc_settle ch (tf_id s) ev low pc else pc)"
  have "run_norm (run\<lparr>rn_pcs := map2 f (rn_channels run) (rn_pcs run)\<rparr>) = run_norm run" if "run \<in> set (st_runs s)" for run
    using map2_norm [of "rn_channels run" "rn_pcs run" f] assms [OF that] by (simp add: run_norm_def stride_def f_def)
  then have "quiet s (s\<lparr>st_net := (st_net s)(c := ch_step ev ch),
    st_runs := map (\<lambda>run. run\<lparr>rn_pcs := map2 f (rn_channels run) (rn_pcs run)\<rparr>) (st_runs s)\<rparr>)"
    by (simp add: quiet_def st_fixed_def st_counts_def sents_def tf_isTerminal_def)
  then show ?thesis unfolding f_def low_def ch_def st_channelEvent_def Let_def by simp
qed

section \<open>Steps of a worker\<close>

lemma setPc_runs: "r < length (st_runs s) \<Longrightarrow> st_runs (st_setPc r i pc s) ! r = (st_runs s ! r)\<lparr>rn_pcs := (rn_pcs (st_runs s ! r))[i := pc]\<rparr>"
  by (simp add: st_setPc_def)

definition run_sent :: "send_transfer \<Rightarrow> nat \<Rightarrow> nat list" where
  "run_sent s r = sent_by (rn_gen (st_runs s ! r)) (st_wire s)"

definition pc_ok :: "bytes \<Rightarrow> send_transfer \<Rightarrow> nat \<Rightarrow> nat \<Rightarrow> worker_pc \<Rightarrow> bool" where
  "pc_ok file s r i pc =
     worker_ok (ft_chunk (tf_chunkSize s) file) (tf_totalChunks s) (run_stale s (st_runs s ! r)) (st_runs s ! r) (run_sent s r) i pc"

lemma st_inv_runD:
  assumes "st_inv subtle file s" "r < length (st_runs s)"
  shows "run_ok subtle (ft_chunk (tf_chunkSize s) file) (tf_totalChunks s) (st_checksum s) (run_stale s (st_runs s ! r)) (st_runs s ! r) (run_sent s r)"
    "rn_gen (st_runs s ! r) \<le> st_gen s"
  using assms nth_mem [OF assms(2)] unfolding st_inv_def st_runs_ok_def run_sent_def by blast+

lemma st_inv_pcD:
  assumes "st_inv subtle file s" "r < length (st_runs s)" "i < length (rn_pcs (st_runs s ! r))"
  shows "pc_ok file s r i (st_pc s r i)" "i < stride (st_runs s ! r)"
  using st_inv_runD [OF assms(1,2)] assms(3) by (auto simp: run_ok_def pc_ok_def st_pc_def)

lemma st_stale_run: "st_inv subtle file s \<Longrightarrow> r < length (st_runs s) \<Longrightarrow> st_stale r s = run_stale s (st_runs s ! r)"
  using st_inv_runD(2) by (fastforce simp: st_stale_def run_stale_def)

lemma st_inv_setPc:
  assumes inv: "st_inv subtle file s" and r: "r < length (st_runs s)" and ok: "pc_ok file s r i pc"
  shows "st_inv subtle file (st_setPc r i pc s)"
proof -
  define run where "run = st_runs s ! r"
  define run' where "run' = run\<lparr>rn_pcs := (rn_pcs run)[i := pc]\<rparr>"
  have g: "grows run sent run' sent" for sent by (simp add: grows_def run'_def)
  have d: "digest_ok subtle C n cks run' = digest_ok subtle C n cks run" for C n cks by (simp add: digest_ok_def run'_def)
  have w: "worker_ok C n st run' sent i pc" if "worker_ok C n st run sent i pc" for C n st sent
    by (rule worker_ok_grows [OF g _ _ that]) auto
  show ?thesis
  proof (rule st_inv_step [OF inv r run_def, where run' = run' and new = "[]"])
    show "st_runs (st_setPc r i pc s) = (st_runs s)[r := run']" by (simp add: st_setPc_def run'_def run_def)
    show "st_counters_ok file (st_setPc r i pc s)" using inv by (simp add: st_inv_def st_counters_ok_def st_setPc_def)
    show "rn_gen run' = rn_gen run" by (simp add: run'_def)
    assume k: "run_ok subtle (ft_chunk (tf_chunkSize s) file) (tf_totalChunks s) (st_checksum s) (run_stale s run) run (sent_by (rn_gen run) (st_wire s))"
    have "worker_ok (ft_chunk (tf_chunkSize s) file) (tf_totalChunks s) (run_stale s run) run (sent_by (rn_gen run) (st_wire s)) i pc"
      using ok by (simp add: pc_ok_def run_sent_def run_def)
    then show "run_ok subtle (ft_chunk (tf_chunkSize s) file) (tf_totalChunks s) (st_checksum s) (run_stale s run) run'
      (sent_by (rn_gen run) (st_wire (st_setPc r i pc s)))"
      using k w by (intro run_ok_step [OF k, where i = i and pc = pc]) (simp_all add: g d run_ok_def, simp_all add: run'_def)
  qed (simp_all add: g)
qed

lemma loop_absorb: "r < length (st_runs s) \<Longrightarrow> st_loop r i q (st_setPc r i pc s) = st_loop r i q s"
  by (simp add: st_loop_def st_stale_def st_setPc_def tf_isTerminal_def)

lemma st_inv_loop:
  assumes inv: "st_inv subtle file s" and r: "r < length (st_runs s)"
    and q: "reached (st_runs s ! r) (run_sent s r) i q" "before (st_runs s ! r) (run_sent s r) i q" "q mod stride (st_runs s ! r) = i"
  shows "st_inv subtle file (st_loop r i q s)"
proof -
  have d: "st_inv subtle file (st_setPc r i WDone s)" if "st_stale r s \<or> tf_totalChunks s \<le> q"
    using that q st_stale_run [OF inv r] by (intro st_inv_setPc [OF inv r]) (auto simp: pc_ok_def reached_def)
  have g: "st_inv subtle file (st_setPc r i (WGate q p) s)" if "q < tf_totalChunks s" for p
    using that q by (intro st_inv_setPc [OF inv r]) (simp add: pc_ok_def at_seq_def)
  show ?thesis using d g [THEN st_inv_quiet, OF _ quiet_fields(2)] g by (simp add: st_loop_def)
qed

lemma st_inv_continue:
  assumes inv: "st_inv subtle file s" and r: "r < length (st_runs s)"
    and q: "at_seq n (st_runs s ! r) (run_sent s r) i q" "handled (st_runs s ! r) (run_sent s r) q"
  shows "st_inv subtle file (st_continue r i q s)"
  unfolding st_continue_def stride_def [symmetric]
proof (rule st_inv_loop [OF inv r])
  have "0 < stride (st_runs s ! r)" using st_inv_runD(1) [OF inv r] by (simp add: run_ok_def)
  then show "before (st_runs s ! r) (run_sent s r) i (q + stride (st_runs s ! r))" by (rule before_next [OF q(1)])
qed (use q reached_next [OF q] in \<open>simp_all add: at_seq_def\<close>)

lemma st_inv_phase:
  assumes t: "st_inv subtle file t" "r < length (st_runs t)"
    and ph: "ph = RnFinalize \<Longrightarrow> rn_digest (st_runs t ! r) \<noteq> None \<and> run_complete (tf_totalChunks t) (st_runs t ! r) (run_sent t r)"
  shows "st_inv subtle file (st_setRun r ((st_runs t ! r)\<lparr>rn_phase := ph\<rparr>) t)"
proof -
  define run where "run = st_runs t ! r"
  have g: "grows run sent (run\<lparr>rn_phase := ph\<rparr>) sent" for sent by (simp add: grows_def)
  show ?thesis unfolding run_def [symmetric]
  proof (rule st_inv_step [OF t run_def, where run' = "run\<lparr>rn_phase := ph\<rparr>" and new = "[]"])
    let ?t = "st_setRun r (run\<lparr>rn_phase := ph\<rparr>) t"
    show "st_counters_ok file ?t" using t(1) by (simp add: st_inv_def st_counters_ok_def st_setRun_def)
    assume k: "run_ok subtle (ft_chunk (tf_chunkSize t) file) (tf_totalChunks t) (st_checksum t) (run_stale t run) run (sent_by (rn_gen run) (st_wire t))"
    have "worker_ok C n st (run\<lparr>rn_phase := ph\<rparr>) sent j pc = worker_ok C n st run sent j pc" for C n st sent j pc
      by (cases pc) (simp_all add: at_seq_def reached_def before_def handled_def stride_def)
    then show "run_ok subtle (ft_chunk (tf_chunkSize t) file) (tf_totalChunks t) (st_checksum t) (run_stale t run) (run\<lparr>rn_phase := ph\<rparr>)
      (sent_by (rn_gen run) (st_wire ?t))"
      using k ph by (simp add: run_ok_def digest_ok_def st_setRun_def stride_def run_complete_def handled_def run_def run_sent_def)
  qed (simp_all add: g st_setRun_def st_fixed_def sents_def tf_isTerminal_def)
qed

lemma st_inv_workerFailed:
  assumes inv: "st_inv subtle file s" and r: "r < length (st_runs s)"
  shows "st_inv subtle file (st_workerFailed r i e s)"
proof -
  have t: "st_inv subtle file (st_setPc r i WFailed s)" "r < length (st_runs (st_setPc r i WFailed s))"
    using st_inv_setPc [OF inv r, of i WFailed] r by (simp_all add: pc_ok_def)
  then show ?thesis using st_inv_phase [OF t, of "RnRejected e"] by (simp add: st_workerFailed_def Let_def)
qed

lemma st_inv_gatePassed:
  assumes inv: "st_inv subtle file s" and r: "r < length (st_runs s)" and ok: "pc_ok file s r i (WGate q p)"
  shows "st_inv subtle file (st_gatePassed r i q s)"
proof -
  have a: "at_seq (tf_totalChunks s) (st_runs s ! r) (run_sent s r) i q" using ok by (simp add: pc_ok_def)
  have "st_inv subtle file (st_setPc r i WDone s)" if "st_stale r s"
    using that st_stale_run [OF inv r] by (intro st_inv_setPc [OF inv r]) (simp add: pc_ok_def)
  moreover have "st_inv subtle file (st_continue r i q s)" if "q \<in> set (rn_have (st_runs s ! r))" "rn_digest (st_runs s ! r) = None"
    using that by (intro st_inv_continue [OF inv r a]) (simp add: handled_def)
  moreover have "st_inv subtle file (st_setPc r i (WRead q) s)" if "\<not> (q \<in> set (rn_have (st_runs s ! r)) \<and> rn_digest (st_runs s ! r) = None)"
    using that a by (intro st_inv_setPc [OF inv r]) (auto simp: pc_ok_def)
  ultimately show ?thesis by (simp add: st_gatePassed_def)
qed

lemma st_inv_drain:
  assumes inv: "st_inv subtle file s" and r: "r < length (st_runs s)" and ok: "pc_ok file s r i (WDrain q bs Pending)"
  shows "st_inv subtle file (st_drain r i q bs s)"
proof -
  have "st_inv subtle file (st_setPc r i (WDrain q bs p) (s\<lparr>st_net := net\<rparr>))" for p net
    by (rule st_inv_setPc [OF st_inv_quiet [OF inv quiet_fields(5)]]) (use r ok in \<open>simp_all add: pc_ok_def run_sent_def run_stale_def tf_isTerminal_def\<close>)
  then show ?thesis by (simp add: st_drain_def Let_def split_def)
qed

lemma st_inv_read:
  assumes inv: "st_inv subtle file s" and r: "r < length (st_runs s)" and ok: "pc_ok file s r i (WRead q)"
    and bs: "bs = ft_chunk (tf_chunkSize s) file q"
  shows "st_inv subtle file (st_read r i q bs s)"
proof -
  have "st_inv subtle file (st_setPc r i (WHash q bs) s)"
    using ok bs by (intro st_inv_setPc [OF inv r]) (simp add: pc_ok_def)
  moreover have "st_inv subtle file (st_drain r i q bs s)" if "rn_digest (st_runs s ! r) = None"
    using ok bs that by (intro st_inv_drain [OF inv r]) (auto simp: pc_ok_def)
  ultimately show ?thesis by (simp add: st_read_def)
qed

lemma st_inv_hashed:
  assumes inv: "st_inv subtle file s" and r: "r < length (st_runs s)" "i < length (rn_pcs (st_runs s ! r))"
    and pc: "st_pc s r i = WHash q bs"
  shows "st_inv subtle file (st_hashed subtle r i q bs s)"
proof -
  define run where "run = st_runs s ! r"
  have ok: "pc_ok file s r i (WHash q bs)" using st_inv_pcD [OF inv r] pc by simp
  then have a: "at_seq (tf_totalChunks s) run (run_sent s r) i q" and bs: "bs = ft_chunk (tf_chunkSize s) file q"
    by (simp_all add: pc_ok_def run_def)
  have upd: "st_inv subtle file (st_hashed subtle r i q bs s)"
    if ds: "rn_digest run = Some ds" "dg_update subtle q bs ds = Inr ds'" for ds ds'
  proof -
    define run' where "run' = run\<lparr>rn_digest := Some ds'\<rparr>"
    define s1 where "s1 = st_setRun r run' s"
    have keys: "fst ` set ds' = insert q (fst ` set ds)"
      using ds(2) by (simp add: dg_update_def sha256Raw_def split: option.splits) (metis jm_fst_set)
    have g: "grows run sent run' sent" for sent using ds(1) keys by (auto simp: grows_def run'_def)
    have "st_inv subtle file s1"
    proof (rule st_inv_step [OF inv r(1) run_def, where run' = run' and new = "[]"])
      show "st_counters_ok file s1" using inv by (simp add: st_inv_def st_counters_ok_def st_setRun_def s1_def)
      assume k: "run_ok subtle (ft_chunk (tf_chunkSize s) file) (tf_totalChunks s) (st_checksum s) (run_stale s run) run (sent_by (rn_gen run) (st_wire s))"
      have "digest_ok subtle (ft_chunk (tf_chunkSize s) file) (tf_totalChunks s) (st_checksum s) run"
        using k by (simp add: run_ok_def)
      then have "digest_ok subtle (ft_chunk (tf_chunkSize s) file) (tf_totalChunks s) (st_checksum s) run'"
        using ds digests_of_update [of subtle "ft_chunk (tf_chunkSize s) file" _ ds q ds'] a keys bs
        by (auto simp: digest_ok_def run'_def at_seq_def)
      moreover have "worker_ok (ft_chunk (tf_chunkSize s) file) (tf_totalChunks s) (run_stale s run) run' (sent_by (rn_gen run) (st_wire s)) i (WHash q bs)"
        by (rule worker_ok_grows [OF g]) (use ok in \<open>simp_all add: pc_ok_def run_def run_sent_def\<close>)
      moreover have pcs: "rn_pcs run' = (rn_pcs run)[i := WHash q bs]"
        using pc by (simp add: run'_def st_pc_def run_def) (metis list_update_id)
      ultimately show "run_ok subtle (ft_chunk (tf_chunkSize s) file) (tf_totalChunks s) (st_checksum s) (run_stale s run) run'
        (sent_by (rn_gen run) (st_wire s1))"
        using k pc by (intro run_ok_step [OF k, where i = i and pc = "WHash q bs"])
          (simp_all add: g run_ok_def s1_def st_setRun_def, simp_all add: run'_def)
    qed (simp_all add: g s1_def st_setRun_def st_fixed_def sents_def tf_isTerminal_def, simp add: run'_def)
    moreover have r1: "r < length (st_runs s1)" "st_runs s1 ! r = run'" using r by (simp_all add: s1_def st_setRun_def)
    moreover have sent: "run_sent s1 r = run_sent s r" using r by (simp add: run_sent_def s1_def st_setRun_def run'_def run_def)
    moreover have a1: "at_seq (tf_totalChunks s1) run' (run_sent s r) i q"
      using worker_ok_grows [OF g, of "run_sent s r" i _ _ C "tf_totalChunks s" "WGate q Pending"] a by (simp add: s1_def st_setRun_def)
    ultimately have "st_inv subtle file (if q \<in> set (rn_have run) then st_continue r i q s1 else st_drain r i q bs s1)"
      using st_inv_continue [where s = s1 and r = r and i = i and q = q] st_inv_drain [where s = s1 and r = r and i = i and q = q and bs = bs] keys bs
      by (auto simp: handled_def run'_def pc_ok_def sent) (simp_all add: s1_def st_setRun_def)
    then show ?thesis using ds unfolding st_hashed_def Let_def s1_def run'_def run_def by simp
  qed
  show ?thesis
    using upd inv st_inv_workerFailed [OF inv r(1)] unfolding st_hashed_def Let_def run_def [symmetric]
    by (auto split: option.split sum.split)
qed

lemma ft_chunk_length: "length (ft_chunk cs file q) = min cs (length file - q * cs)"
  by (simp add: ft_chunk_def)

lemma frameSent_fields:
  fixes s q bs i r
  defines "f \<equiv> \<lparr>sf_gen = rn_gen (st_runs s ! r), sf_channel = rn_channels (st_runs s ! r) ! i, sf_seq = q, sf_frame = encodeFrame q bs\<rparr>"
  shows "st_fixed (st_frameSent r i q bs s) = st_fixed s" "st_gen (st_frameSent r i q bs s) = st_gen s"
    "tf_isTerminal (st_frameSent r i q bs s) = tf_isTerminal s" "st_runs (st_frameSent r i q bs s) = st_runs s"
    "st_wire (st_frameSent r i q bs s) = st_wire s @ [f]" "st_channels (st_frameSent r i q bs s) = st_channels s"
    "sents (st_frameSent r i q bs s) = sents s"
  by (auto simp: st_frameSent_def Let_def f_def tf_emitProgress_def tf_emit_def st_fixed_def sents_def tf_isTerminal_def)

lemma frameSent_counters:
  assumes "st_counters_ok file s" "fm_size (tf_metadata s) = length file"
  shows "st_counters_ok file (st_frameSent r i q bs s)"
  using assms
  by (auto simp: st_frameSent_def Let_def tf_emitProgress_def tf_emit_def st_counters_ok_def js_add_def ft_chunk_length)

text \<open>The frame is out, and the worker's counter is yet to be set.\<close>

lemma st_inv_frameSent:
  assumes inv: "st_inv subtle file s" and r: "r < length (st_runs s)" and ok: "pc_ok file s r i (WDrain q bs p)"
  shows "st_inv subtle file (st_setPc r i WFailed (st_frameSent r i q bs s))"
proof -
  define run where "run = st_runs s ! r"
  define sent where "sent = run_sent s r"
  define run' where "run' = run\<lparr>rn_pcs := (rn_pcs run)[i := WFailed]\<rparr>"
  have o: "bs = ft_chunk (tf_chunkSize s) file q" "q \<notin> set (rn_have run)" "q < tf_totalChunks s" "q mod stride run = i" "q \<notin> set sent"
    using ok by (auto simp: pc_ok_def run_def sent_def at_seq_def before_def)
  have g: "grows run sent run' (sent @ [q])" by (auto simp: grows_def run'_def)
  have sb: "sent_by (rn_gen run) (st_wire s) = sent" by (simp add: sent_def run_sent_def run_def)
  note fs = frameSent_fields [of r i q bs s]
  show ?thesis
  proof (rule st_inv_step [OF inv r run_def, where run' = run' and
      new = "[\<lparr>sf_gen = rn_gen run, sf_channel = rn_channels run ! i, sf_seq = q, sf_frame = encodeFrame q bs\<rparr>]"])
    let ?t = "st_setPc r i WFailed (st_frameSent r i q bs s)"
    have "st_counters_ok file (st_frameSent r i q bs s)"
      using inv by (intro frameSent_counters) (simp_all add: st_inv_def st_file_ok_def)
    then show "st_counters_ok file ?t" by (simp add: st_counters_ok_def st_setPc_def)
    show "st_runs ?t = (st_runs s)[r := run']" by (simp add: st_setPc_def fs run'_def run_def)
    have sb': "sent_by (rn_gen run) (st_wire ?t) = sent @ [q]" by (simp add: fs sb) (simp add: run_def)
    then show "grows run (sent_by (rn_gen run) (st_wire s)) run' (sent_by (rn_gen run) (st_wire ?t))" using g by (simp add: sb)
    assume k: "run_ok subtle (ft_chunk (tf_chunkSize s) file) (tf_totalChunks s) (st_checksum s) (run_stale s run) run (sent_by (rn_gen run) (st_wire s))"
    show "run_ok subtle (ft_chunk (tf_chunkSize s) file) (tf_totalChunks s) (st_checksum s) (run_stale s run) run' (sent_by (rn_gen run) (st_wire ?t))"
      using k o unfolding sb sb'
      by (intro run_ok_step [OF k [unfolded sb] g, where i = i and pc = WFailed]) (auto simp: run_ok_def digest_ok_def run'_def)
  qed (use o in \<open>simp_all add: frameSent_fields run_def run'_def\<close>)
qed

lemma st_inv_send:
  assumes inv: "st_inv subtle file s" and r: "r < length (st_runs s)" and ok: "pc_ok file s r i (WDrain q bs p)"
  shows "st_inv subtle file (st_send r i q bs fault s)"
proof -
  define t where "t = st_frameSent r i q bs s"
  define u where "u = st_setPc r i WFailed t"
  define run where "run = st_runs u ! r"
  define sent where "sent = run_sent s r"
  note fs = frameSent_fields [of r i q bs s, folded t_def]
  have u: "st_inv subtle file u" "r < length (st_runs u)" unfolding u_def t_def using st_inv_frameSent [OF assms] r frameSent_fields(4) by simp_all
  have run: "run = (st_runs s ! r)\<lparr>rn_pcs := (rn_pcs (st_runs s ! r))[i := WFailed]\<rparr>" using r by (simp add: run_def u_def setPc_runs fs)
  have "rn_gen (st_runs u ! r) = rn_gen (st_runs s ! r)" using run by (simp add: run_def)
  then have sb: "run_sent u r = sent @ [q]" by (simp add: run_sent_def sent_def) (simp add: u_def fs)
  have a: "at_seq (tf_totalChunks s) run sent i q" and h: "handled run (sent @ [q]) q"
    using ok by (auto simp: pc_ok_def at_seq_def reached_def before_def handled_def stride_def run sent_def)
  have pos: "0 < stride run" using st_inv_runD(1) [OF u] by (simp add: run_ok_def run_def)
  have "st_inv subtle file (st_loop r i (q + stride run) u)"
  proof (rule st_inv_loop [OF u], unfold run_def [symmetric] sb)
    show "reached run (sent @ [q]) i (q + stride run)"
      using reached_grows [of run sent run "sent @ [q]" i q] a h mod_step [of _ "stride run" q]
      by (auto simp: reached_def at_seq_def grows_def)
    show "before run (sent @ [q]) i (q + stride run)" using before_next [OF a pos] pos by (auto simp: before_def)
  qed (use a in \<open>simp add: at_seq_def\<close>)
  moreover have "st_continue r i q t = st_loop r i (q + stride run) u"
    using loop_absorb [of r t i "q + stride run" WFailed] r by (simp add: st_continue_def u_def fs run stride_def)
  ultimately have "st_inv subtle file (st_continue r i q t)" by simp
  moreover have "st_inv subtle file (st_setPc r i WDone s)" if "st_stale r s"
    using that st_stale_run [OF inv r] by (intro st_inv_setPc [OF inv r]) (simp add: pc_ok_def)
  ultimately show ?thesis
    using st_inv_workerFailed [OF inv r] by (simp add: st_send_def t_def Let_def split: option.split)
qed

section \<open>Beginning and ending runs\<close>

lemma st_inv_append:
  assumes inv: "st_inv subtle file s" and fresh: "\<And>x. x \<in> set (st_runs s) \<Longrightarrow> rn_gen x < rn_gen run" and g: "rn_gen run \<le> st_gen s"
    and run: "rn_channels run \<noteq> []" "rn_pcs run = map (\<lambda>c. WOpen (f c)) (rn_channels run)" "rn_digest run = (if st_checksum s then Some [] else None)"
      "rn_phase run = RnWorkers"
  shows "st_inv subtle file (s\<lparr>st_runs := st_runs s @ [run]\<rparr>)"
proof -
  have none: "sent_by (rn_gen run) (st_wire s) = []"
  proof -
    have "sf_gen x \<noteq> rn_gen run" if x: "x \<in> set (st_wire s)" for x
    proof -
      obtain y where "y \<in> set (st_runs s)" "rn_gen y = sf_gen x" using inv x by (auto simp: st_inv_def st_wire_ok_def)
      then show ?thesis using fresh by force
    qed
    then show ?thesis by (simp add: sent_by_def filter_empty_conv)
  qed
  have "run_ok subtle C n (st_checksum s) stale run []" for C n stale
    using run by (auto simp: run_ok_def stride_def digest_ok_def before_def digests_of_def)
  then have "st_runs_ok subtle file (s\<lparr>st_runs := st_runs s @ [run]\<rparr>)"
    using inv g fresh none by (fastforce simp: st_inv_def st_runs_ok_def run_stale_def tf_isTerminal_def)
  then show ?thesis
    using inv by (auto simp: st_inv_def st_wire_ok_def st_counters_ok_def st_file_ok_def st_sent_ok_def)
qed

lemma quiet_gens: "quiet s s' \<Longrightarrow> rn_gen ` set (st_runs s') = rn_gen ` set (st_runs s)"
  using gens_norm [of "st_runs s"] gens_norm [of "st_runs s'"] by (simp add: quiet_def del: map_map) (metis set_map)

lemma quiet_checksum: "quiet s s' \<Longrightarrow> st_checksum s' = st_checksum s"
  by (simp add: quiet_def st_fixed_def)

lemma st_inv_run:
  assumes inv: "st_inv subtle file s" and fresh: "\<And>x. x \<in> set (st_runs s) \<Longrightarrow> rn_gen x < gen" and g: "gen \<le> st_gen s"
  shows "st_inv subtle file (st_run have_list gen s)"
proof -
  define p where "p = (if tf_state s = Accepted then st_transitionTo Active s else (True, s))"
  define s1 where "s1 = snd p"
  define s2 where "s2 = (if st_pendingPause s1 then snd (st_transitionTo Paused (s1\<lparr>st_pendingPause := False\<rparr>)) else s1)"
  define run where "run = \<lparr>rn_gen = gen, rn_have = have_list, rn_channels = st_channels s2,
    rn_pcs = map (\<lambda>c. WOpen (waitForOpen (st_net s2 c) (tf_id s2))) (st_channels s2),
    rn_digest = (if st_checksum s2 then Some [] else None), rn_phase = RnWorkers\<rparr>"
  have q1: "quiet s s1" by (auto simp: s1_def p_def)
  also have "quiet s1 s2" by (auto simp: s2_def intro: quiet_trans [OF quiet_fields(4) quiet_transitionTo])
  finally have q2: "quiet s s2" .
  have i2: "st_inv subtle file s2" by (rule st_inv_quiet [OF inv q2])
  have "st_inv subtle file (s2\<lparr>st_runs := st_runs s2 @ [run]\<rparr>)"
  proof (rule st_inv_append [OF i2, where f = "\<lambda>c. waitForOpen (st_net s2 c) (tf_id s2)"])
    fix x assume "x \<in> set (st_runs s2)"
    then have "rn_gen x \<in> rn_gen ` set (st_runs s)" using quiet_gens [OF q2] by blast
    then show "rn_gen x < rn_gen run" using fresh by (auto simp: run_def)
  next
    show "rn_gen run \<le> st_gen s2" using g q2 by (simp add: run_def quiet_def)
    show "rn_channels run \<noteq> []" using i2 by (simp add: run_def st_inv_def st_file_ok_def)
  qed (simp_all add: run_def)
  then show ?thesis using st_inv_quiet [OF inv q1]
    unfolding st_run_def split_def Let_def p_def [symmetric] s1_def [symmetric] s2_def [symmetric] run_def by simp
qed

lemma st_inv_begin:
  assumes inv: "st_inv subtle file s"
  shows "st_inv subtle file (st_begin have_list s)"
proof -
  define s0 where "s0 = st_clearOfferTimer s"
  define p where "p = (if tf_state s0 = Offered then st_transitionTo Accepted s0
    else if tf_state s0 = Paused \<and> st_interrupted s0 then st_applyResume (s0\<lparr>st_interrupted := False\<rparr>) else (False, s0))"
  define s1 where "s1 = snd p"
  have "quiet s s0" by (simp add: s0_def)
  also have "quiet s0 s1" by (auto simp: s1_def p_def intro: quiet_trans [OF quiet_fields(3) quiet_applyResume])
  finally have i1: "st_inv subtle file s1" by (rule st_inv_quiet [OF inv])
  define s2 where "s2 = s1\<lparr>st_gen := st_gen s1 + 1\<rparr>"
  have i2: "st_inv subtle file s2" unfolding s2_def by (rule st_inv_quiet [OF i1 quiet_fields(8)]) simp
  have "rn_gen x < st_gen s2" if "x \<in> set (st_runs s2)" for x
    using that i1 by (auto simp: s2_def st_inv_def st_runs_ok_def less_Suc_eq_le)
  then have "st_inv subtle file (st_run have_list (st_gen s2) s2)" by (intro st_inv_run [OF i2]) auto
  then show ?thesis using i1
    unfolding st_begin_def split_def Let_def s0_def [symmetric] p_def [symmetric] s1_def [symmetric] s2_def [symmetric] by simp
qed

lemma st_inv_handleControl:
  assumes inv: "st_inv subtle file s"
  shows "st_inv subtle file (st_handleControl m s)"
proof -
  define s0 where "s0 = st_clearOfferTimer s"
  have i0: "st_inv subtle file s0" unfolding s0_def by (rule st_inv_quiet [OF inv quiet_clear])
  note st_inv_quiet [OF i0, intro]
  have "quiet s0 (if fst (st_transitionTo Completed s0) then tf_emit (CompleteEv i) (snd (st_transitionTo Completed s0)) else snd (st_transitionTo Completed s0))" for i
    by (auto intro: quiet_trans [OF quiet_transitionTo quiet_emit])
  then show ?thesis unfolding st_handleControl_def s0_def [symmetric] Let_def split_def
    by (cases m) (auto intro: st_inv_begin [OF i0] i0)
qed

lemma all_done_complete:
  assumes ok: "run_ok subtle C n cks stale run sent" and d: "all_done run" "\<not> stale"
  shows "run_complete n run sent"
  unfolding run_complete_def
proof (intro allI impI)
  fix q assume "q < n"
  have "q mod stride run < stride run" "length (rn_pcs run) = stride run" using ok by (simp_all add: run_ok_def)
  moreover from this have "rn_pcs run ! (q mod stride run) = WDone" using d(1) by (simp add: all_done_def)
  ultimately have "reached run sent (q mod stride run) n" using ok d(2) by (fastforce simp: run_ok_def)
  then show "handled run sent q" using \<open>q < n\<close> by (simp add: reached_def)
qed

lemma complete_digest:
  assumes dg: "digest_ok subtle (ft_chunk cs file) n cks run" and c: "run_complete n run sent" and ds: "rn_digest run = Some ds"
    and sha: "subtle = Some sha" "\<And>x. length (sha x) = 32" and n: "n = ft_chunks (length file) cs"
  shows "dg_finalize subtle ds = Inr (ft_digest sha cs file)"
proof -
  have "fst ` set ds = {..<n}" using dg c ds by (auto simp: digest_ok_def run_complete_def handled_def)
  then have "digests_of (Some sha) (ft_chunk cs file) {..<n} ds" using dg ds sha(1) by (auto simp: digest_ok_def)
  from digests_joined [OF this sha(2)] show ?thesis
    by (simp add: dg_finalize_def sha256Hex_def sha256Raw_def sha(1) ft_digest_def n)
qed

lemma st_inv_sent:
  assumes inv: "st_inv subtle file s" and run: "run \<in> set (st_runs s)" "run_complete (tf_totalChunks s) run (sent_by (rn_gen run) (st_wire s))"
    and d: "if st_checksum s then \<exists>sha. subtle = Some sha \<and> d = Some (ft_digest sha (tf_chunkSize s) file) else d = None"
  shows "st_inv subtle file (st_sent d s)"
proof -
  define s1 where "s1 = snd (st_transitionTo Completing s)"
  have q: "quiet s s1" unfolding s1_def by blast
  have i1: "st_inv subtle file s1" by (rule st_inv_quiet [OF inv q])
  have f: "st_fixed s1 = st_fixed s" "st_wire s1 = st_wire s" using q by (simp_all add: quiet_def)
  obtain run' where run': "run' \<in> set (st_runs s1)" "run_norm run' = run_norm run" using quiet_sym_runs [OF q run(1)] .
  have c: "run_complete (tf_totalChunks s1) run' (sent_by (rn_gen run') (st_wire s1))"
    using run(2) run_norm_eqD [OF run'(2)] run_complete_norm [of _ run'] run_complete_norm [of _ run] run'(2) f st_fixedD [OF f(1)] by metis
  have "st_inv subtle file (tf_emit (Control (Sent (tf_id s1) d)) s1)"
    using i1 run'(1) c d st_fixedD [OF f(1)] unfolding st_inv_def st_sent_ok_sents sents_sent
    by (auto simp: tf_emit_def st_file_ok_def st_runs_ok_def st_wire_ok_def st_counters_ok_def run_stale_def tf_isTerminal_def)
  moreover have "st_inv subtle file (tf_fail st_onTerminal (\<lambda>_ s. s) e False s1)" for e
    by (rule st_inv_quiet [OF i1 quiet_fail_with]) simp
  ultimately show ?thesis
    by (auto simp: st_sent_def s1_def [symmetric] Let_def st_safeControl_def tf_sendControl_def)
qed

lemma st_inv_runStep:
  assumes inv: "st_inv subtle file s" and sha: "hash_32 subtle"
  shows "st_inv subtle file (st_runStep subtle r s)"
proof (cases "r < length (st_runs s)")
  case r: True
  define run where "run = st_runs s ! r"
  define to where "to = (\<lambda>ph. st_setRun r (run\<lparr>rn_phase := ph\<rparr>) s)"
  have toI: "st_setRun r (run\<lparr>rn_phase := p\<rparr>) s = to p" for p by (simp add: to_def)
  note ok = st_inv_runD(1) [OF inv r, folded run_def]
  have ph: "st_inv subtle file (to p)" if "p = RnFinalize \<Longrightarrow> rn_digest run \<noteq> None \<and> run_complete (tf_totalChunks s) run (run_sent s r)" for p
    using st_inv_phase [OF inv r, of p] that by (simp add: to_def run_def)
  have to: "st_fixed (to p) = st_fixed s" "st_wire (to p) = st_wire s" "run\<lparr>rn_phase := p\<rparr> \<in> set (st_runs (to p))" for p
    using r by (simp_all add: to_def st_setRun_def st_fixed_def set_update_memI)
  have snt: "st_inv subtle file (st_sent d (to RnOver))" if "run_complete (tf_totalChunks s) run (run_sent s r)"
    "if st_checksum s then \<exists>sha. subtle = Some sha \<and> d = Some (ft_digest sha (tf_chunkSize s) file) else d = None" for d
  proof (rule st_inv_sent [OF ph to(3)])
    show "run_complete (tf_totalChunks (to RnOver)) (run\<lparr>rn_phase := RnOver\<rparr>) (sent_by (rn_gen (run\<lparr>rn_phase := RnOver\<rparr>)) (st_wire (to RnOver)))"
      using that(1) st_fixedD [OF to(1)] by (simp add: to(2) run_complete_def handled_def run_sent_def run_def)
  qed (use that(2) st_fixedD [OF to(1)] in simp_all)
  have dn: "rn_digest run = None \<longleftrightarrow> \<not> st_checksum s" using ok by (simp add: run_ok_def digest_ok_def)
  have fin: "st_inv subtle file (st_sent (Some h) (to RnOver))"
    if h: "rn_phase run = RnFinalize" "rn_digest run = Some ds" "dg_finalize subtle ds = Inr h" for ds h
  proof -
    obtain sha where s: "subtle = Some sha" using h(3) by (auto simp: dg_finalize_def sha256Hex_def sha256Raw_def split: option.splits)
    have c: "run_complete (tf_totalChunks s) run (run_sent s r)" using ok h(1) by (simp add: run_ok_def)
    have n: "tf_totalChunks s = ft_chunks (length file) (tf_chunkSize s)" using inv by (simp add: st_inv_def st_file_ok_def)
    have "dg_finalize subtle ds = Inr (ft_digest sha (tf_chunkSize s) file)"
      using ok by (intro complete_digest [OF _ c h(2) s _ n, where cks = "st_checksum s"]) (use sha s in \<open>simp_all add: run_ok_def hash_32_def\<close>)
    then show ?thesis using snt [OF c] h(2,3) dn s by simp
  qed
  show ?thesis
  proof (cases "rn_phase run")
    case RnWorkers
    have "run_complete (tf_totalChunks s) run (run_sent s r)" if "all_done run" "\<not> st_stale r s"
      using all_done_complete [OF ok] that st_stale_run [OF inv r] by (simp add: run_def)
    then show ?thesis using RnWorkers inv ph ph [of RnOver] snt dn r
      by (simp add: st_runStep_def Let_def run_def [symmetric] toI)
  next
    case RnFinalize
    then obtain ds where "rn_digest run = Some ds" using ok by (auto simp: run_ok_def)
    then show ?thesis
      using fin [OF RnFinalize] ph [of "RnRejected e" for e] r RnFinalize
      by (simp add: st_runStep_def Let_def run_def [symmetric] toI split: sum.split)
  next
    case (RnRejected e)
    then show ?thesis using st_inv_quiet [OF ph [of RnOver] quiet_caught] r
      by (simp add: st_runStep_def Let_def run_def [symmetric] toI)
  next
    case RnOver
    then show ?thesis using inv r by (simp add: st_runStep_def Let_def run_def [symmetric])
  qed
qed (simp add: st_runStep_def inv)

section \<open>Every event\<close>

text \<open>The channels of a reoffer are those \<^verbatim>\<open>resumeSend\<close> opened: at least one.\<close>

fun tx_ok :: "st_event \<Rightarrow> bool" where
  "tx_ok (TxReoffer chs) \<longleftrightarrow> chs \<noteq> []"
| "tx_ok _ \<longleftrightarrow> True"

context file_source
begin

lemma st_inv_workerStep:
  assumes inv: "st_inv subtle content s"
  shows "st_inv subtle content (st_workerStep src subtle r i fault s)"
proof (cases "r < length (st_runs s) \<and> i < length (rn_pcs (st_runs s ! r))")
  case True
  then have r: "r < length (st_runs s)" "i < length (rn_pcs (st_runs s ! r))" by simp_all
  note ok = st_inv_pcD(1) [OF inv r]
  have i: "i mod stride (st_runs s ! r) = i" using st_inv_pcD(2) [OF inv r] by simp
  have lp: "st_inv subtle content (st_loop r i i s)" if "st_pc s r i = WOpen p" for p
  proof (rule st_inv_loop [OF inv r(1)])
    show "reached (st_runs s ! r) (run_sent s r) i i" using i unfolding reached_def by (metis less_not_refl mod_less_eq_dividend order_less_le_trans)
  qed (use that ok i in \<open>simp_all add: pc_ok_def\<close>)
  have rd: "st_inv subtle content (st_read r i q (src (q * tf_chunkSize s) (min (tf_chunkSize s) (fm_size (tf_metadata s) - q * tf_chunkSize s))) s)"
    if "st_pc s r i = WRead q" for q
  proof (rule st_inv_read [OF inv r(1)])
    have "0 < tf_chunkSize s" "q < ft_chunks (length content) (tf_chunkSize s)" "fm_size (tf_metadata s) = length content"
      using ok that inv by (simp_all add: pc_ok_def at_seq_def st_inv_def st_file_ok_def)
    then show "src (q * tf_chunkSize s) (min (tf_chunkSize s) (fm_size (tf_metadata s) - q * tf_chunkSize s)) = ft_chunk (tf_chunkSize s) content q"
      by (simp add: slice_chunk)
  qed (use ok that in simp)
  show ?thesis
    using True lp rd st_inv_gatePassed [OF inv r(1)] ok st_inv_hashed [OF inv r] st_inv_send [OF inv r(1)] st_inv_workerFailed [OF inv r(1)] inv
    by (auto simp: st_workerStep_def Let_def split: worker_pc.split promise.split option.split)
qed (auto simp: st_workerStep_def inv)

lemma st_inv_exec:
  assumes inv: "st_inv subtle content s" and sha: "hash_32 subtle" and ok: "tx_ok ev"
  shows "st_inv subtle content (st_exec enc src subtle ev s)"
proof -
  have "st_inv subtle content (st_channelEvent c e s)" for c e
    using inv by (intro st_inv_quiet [OF inv] quiet_channelEvent) (auto simp: st_inv_def st_runs_ok_def run_ok_def)
  then show ?thesis
    using ok st_inv_workerStep [OF inv] st_inv_runStep [OF inv sha] st_inv_handleControl [OF inv]
    by (cases ev) (auto simp: st_exec_def intro: st_inv_quiet [OF inv])
qed

lemma st_inv_runAll:
  "st_inv subtle content s \<Longrightarrow> hash_32 subtle \<Longrightarrow> (\<And>ev. ev \<in> set evs \<Longrightarrow> tx_ok ev) \<Longrightarrow>
   st_inv subtle content (st_runAll enc src subtle evs s)"
proof (induction evs arbitrary: s)
  case (Cons ev evs)
  have "st_inv subtle content (st_exec enc src subtle ev s)" using Cons.prems by (intro st_inv_exec) auto
  then show ?case using Cons.IH [OF _ Cons.prems(2)] Cons.prems(3) by (simp add: st_runAll_def)
qed (simp add: st_runAll_def)

end

lemma st_inv_new:
  "0 < sp_chunkSize p \<Longrightarrow> sp_channels p \<noteq> [] \<Longrightarrow> fm_size (sp_metadata p) = length file \<Longrightarrow> st_inv subtle file (st_new p net)"
  by (simp add: st_inv_def st_new_def tf_new_def transfer.defs st_file_ok_def st_runs_ok_def st_wire_ok_def st_sent_ok_def st_counters_ok_def)

text \<open>What a transfer is created with stays.\<close>

lemma st_fixed_quiet: "quiet s s' \<Longrightarrow> st_fixed s' = st_fixed s"
  by (simp add: quiet_def)

lemma st_fixed_update [simp]:
  "st_fixed (s\<lparr>st_runs := a\<rparr>) = st_fixed s" "st_fixed (s\<lparr>st_net := b\<rparr>) = st_fixed s" "st_fixed (s\<lparr>st_resumeWaiters := c\<rparr>) = st_fixed s"
  "st_fixed (s\<lparr>st_gen := d\<rparr>) = st_fixed s" "st_fixed (s\<lparr>st_pendingPause := e\<rparr>) = st_fixed s" "st_fixed (st_setRun r run s) = st_fixed s"
  by (simp_all add: st_fixed_def st_setRun_def)

lemma st_fixed_worker [simp]:
  "st_fixed (st_workerFailed r i e s) = st_fixed s" "st_fixed (st_loop r i q s) = st_fixed s" "st_fixed (st_continue r i q s) = st_fixed s"
  "st_fixed (st_gatePassed r i q s) = st_fixed s" "st_fixed (st_drain r i q bs s) = st_fixed s" "st_fixed (st_read r i q bs s) = st_fixed s"
  by (simp_all add: st_workerFailed_def st_loop_def st_continue_def st_gatePassed_def st_drain_def st_read_def Let_def split_def)

lemma st_fixed_hashed [simp]: "st_fixed (st_hashed subtle r i q bs s) = st_fixed s"
  by (simp add: st_hashed_def Let_def split: option.split sum.split)

lemma st_fixed_send [simp]: "st_fixed (st_send r i q bs fault s) = st_fixed s"
  by (simp add: st_send_def Let_def frameSent_fields split: option.split)

lemma st_fixed_workerStep [simp]: "st_fixed (st_workerStep src subtle r i fault s) = st_fixed s"
  by (simp add: st_workerStep_def Let_def split: worker_pc.split promise.split option.split)

lemma st_fixed_sent [simp]: "st_fixed (st_sent d s) = st_fixed s"
proof -
  define s1 where "s1 = snd (st_transitionTo Completing s)"
  have 1: "st_fixed s1 = st_fixed s" unfolding s1_def by (rule st_fixed_quiet) blast
  have "st_fixed (tf_fail st_onTerminal (\<lambda>_ s. s) e False s1) = st_fixed s1" for e
    by (rule st_fixed_quiet [OF quiet_fail_with]) simp
  then have "st_fixed (st_safeControl (Sent (tf_id s1) d) s1) = st_fixed s1"
    by (simp add: st_safeControl_def tf_sendControl_def)
  then show ?thesis using 1 by (simp add: st_sent_def s1_def Let_def)
qed

lemma st_fixed_runStep [simp]: "st_fixed (st_runStep subtle r s) = st_fixed s"
proof -
  have "st_fixed (st_caught g e s) = st_fixed s" for g e s by (rule st_fixed_quiet) blast
  then show ?thesis by (simp add: st_runStep_def Let_def split: run_phase.split sum.split)
qed

lemma st_fixed_run [simp]: "st_fixed (st_run h g s) = st_fixed s"
proof -
  have t: "st_fixed (snd (st_transitionTo n s)) = st_fixed s" for n s by (rule st_fixed_quiet) blast
  show ?thesis by (simp add: st_run_def Let_def split_def t)
qed

lemma st_fixed_begin [simp]: "st_fixed (st_begin h s) = st_fixed s"
proof -
  have t: "st_fixed (snd (st_transitionTo n s)) = st_fixed s" "st_fixed (snd (st_applyResume s)) = st_fixed s"
    "st_fixed (st_clearOfferTimer s) = st_fixed s" "st_fixed (s\<lparr>st_interrupted := b\<rparr>) = st_fixed s" for n s b
    by (rule st_fixed_quiet, blast)+
  show ?thesis by (simp add: st_begin_def Let_def split_def t)
qed

lemma st_fixed_handleControl [simp]: "st_fixed (st_handleControl m s) = st_fixed s"
proof -
  have t: "st_fixed (snd (st_transitionTo n s)) = st_fixed s" "st_fixed (snd (st_applyResume s)) = st_fixed s"
    "st_fixed (snd (st_applyPause s)) = st_fixed s" "st_fixed (st_clearOfferTimer s) = st_fixed s"
    "st_fixed (st_fail e b s) = st_fixed s" "st_fixed (st_markCancelled c s) = st_fixed s" for n s b c e
    by (rule st_fixed_quiet, blast)+
  show ?thesis by (cases m) (simp_all add: st_handleControl_def Let_def split_def t)
qed

lemma st_fixed_channelEvent [simp]: "st_fixed (st_channelEvent c ev s) = st_fixed s"
  by (simp add: st_channelEvent_def Let_def)

lemma st_fixed_exec [simp]: "tx_ok ev \<Longrightarrow> st_fixed (st_exec enc src subtle ev s) = st_fixed s"
  by (cases ev) (auto simp: st_exec_def intro: st_fixed_quiet)

end
