(* ===== verification/FtReceive.thy ===== *)
theory FtReceive
  imports FtChunks
begin

text \<open>
  \<^verbatim>\<open>filetransfer/ReceiveTransfer.ts\<close>, cut at its awaits. A message waits in \<open>rt_inbox\<close> while \<^verbatim>\<open>toArrayBuffer\<close> is
  awaited; the write chain is the queue \<open>rt_chain\<close>, whose head may be waiting for the hash of its
  chunk or for the sink; \<^verbatim>\<open>_tryComplete\<close> is the phase \<open>rt_phase\<close>. The sink is its state with the
  operations \<open>ops\<close>, SHA-256 is \<open>subtle\<close>. Channels are numbers.
\<close>

datatype write_job =
    Queued nat bytes
  | Hashed nat bytes
  | Writing "thrown option"

datatype completion =
    CpNone
  | CpChain
  | CpDigest string
  | CpClose "thrown + sink_result"
  | CpOver

record 'k receive_transfer = transfer +
  rt_checksum :: bool
  rt_received :: "nat list"
  rt_channels :: "nat list"
  rt_sink :: "'k option"
  rt_opening :: "(thrown + unit) option"
  rt_digest :: "digests option"
  rt_expectedDigest :: "string option"
  rt_senderDone :: bool
  rt_inbox :: "channel_data list"
  rt_chain :: "write_job list"
  rt_result :: "sink_result option"
  rt_sinkFinalized :: bool
  rt_phase :: completion

definition state_name :: "transfer_state \<Rightarrow> string" where
  "state_name st = (case st of Idle \<Rightarrow> ''idle'' | Offered \<Rightarrow> ''offered'' | Accepted \<Rightarrow> ''accepted'' | Active \<Rightarrow> ''active''
     | Paused \<Rightarrow> ''paused'' | Completing \<Rightarrow> ''completing'' | Completed \<Rightarrow> ''completed'' | Failed \<Rightarrow> ''failed''
     | TCancelled \<Rightarrow> ''cancelled'')"

definition rt_abortSink :: "'k sink_ops \<Rightarrow> 'k receive_transfer \<Rightarrow> 'k receive_transfer" where
  "rt_abortSink ops s =
     (case rt_sink s of
        None \<Rightarrow> s
      | Some k \<Rightarrow> if rt_sinkFinalized s then s else s\<lparr>rt_sinkFinalized := True, rt_sink := Some (sk_abort ops k)\<rparr>)"

definition rt_onTerminal :: "'k sink_ops \<Rightarrow> 'k receive_transfer \<Rightarrow> 'k receive_transfer" where
  "rt_onTerminal ops s =
     (let s1 = (if tf_state s \<noteq> Completed then rt_abortSink ops s else s)
      in s1\<lparr>tf_log := tf_log s1 @ map CloseChannel (rt_channels s1), rt_channels := []\<rparr>)"

definition rt_notifyRemoteFailure :: "ft_error \<Rightarrow> 'k receive_transfer \<Rightarrow> 'k receive_transfer" where
  "rt_notifyRemoteFailure err s =
     (case tf_sendControl (Cancel (tf_id s) (Some (fe_message err))) s of Some s1 \<Rightarrow> s1 | None \<Rightarrow> s)"

definition rt_transitionTo :: "'k sink_ops \<Rightarrow> transfer_state \<Rightarrow> 'k receive_transfer \<Rightarrow> bool \<times> 'k receive_transfer" where
  "rt_transitionTo ops = tf_transitionTo (rt_onTerminal ops)"

definition rt_fail :: "'k sink_ops \<Rightarrow> ft_error \<Rightarrow> bool \<Rightarrow> 'k receive_transfer \<Rightarrow> 'k receive_transfer" where
  "rt_fail ops = tf_fail (rt_onTerminal ops) rt_notifyRemoteFailure"

definition rt_new :: "string \<Rightarrow> string \<Rightarrow> file_metadata \<Rightarrow> nat \<Rightarrow> nat \<Rightarrow> bool \<Rightarrow> 'k receive_transfer" where
  "rt_new i peerId meta chunkSize totalChunks checksum =
     (let s = transfer.extend (tf_new i peerId meta chunkSize totalChunks)
                \<lparr>rt_checksum = checksum, rt_received = [], rt_channels = [], rt_sink = None, rt_opening = None, rt_digest = None,
                 rt_expectedDigest = None, rt_senderDone = False, rt_inbox = [], rt_chain = [], rt_result = None,
                 rt_sinkFinalized = False, rt_phase = CpNone\<rparr>
      in snd (tf_transitionTo id Offered s))"

text \<open>The Boolean of the operations below is false where the call ends with the control sender's exception.\<close>

definition rt_requestResume :: "'k receive_transfer \<Rightarrow> bool \<times> 'k receive_transfer" where
  "rt_requestResume s =
     (if tf_isTerminal s \<or> tf_state s = Offered \<or> rt_sink s = None then (True, s)
      else (case tf_sendControl (ResumeRequest (tf_id s) (rt_received s)) s of Some s1 \<Rightarrow> (True, s1) | None \<Rightarrow> (False, s)))"

definition rt_accept :: "'k sink_ops \<Rightarrow> 'k \<Rightarrow> 'k receive_transfer \<Rightarrow> 'k receive_transfer" where
  "rt_accept ops sink s =
     (if tf_state s \<noteq> Offered
      then rt_fail ops (FtError (''cannot accept transfer in state '' @ quoted (state_name (tf_state s))) InvalidState (Some (tf_id s))) False s
      else (let s1 = s\<lparr>rt_sink := Some sink, rt_digest := (if rt_checksum s then Some [] else None)\<rparr>;
                s2 = snd (rt_transitionTo ops Accepted s1)
            in case sk_open ops (tf_metadata s2) sink of
                 Inl e \<Rightarrow> s2\<lparr>rt_opening := Some (Inl e)\<rparr>
               | Inr k \<Rightarrow> s2\<lparr>rt_sink := Some k, rt_opening := Some (Inr ())\<rparr>))"

text \<open>What follows the opening of the sink.\<close>

definition rt_opened :: "'k sink_ops \<Rightarrow> 'k receive_transfer \<Rightarrow> 'k receive_transfer" where
  "rt_opened ops s =
     (case rt_opening s of
        None \<Rightarrow> s
      | Some outcome \<Rightarrow>
          (let s0 = s\<lparr>rt_opening := None\<rparr>;
               caught = (\<lambda>err s. rt_fail ops (toTransferError (tf_id s) err SinkWriteFailed) True s)
           in case outcome of
                Inl e \<Rightarrow> caught e s0
              | Inr _ \<Rightarrow>
                  (let s1 = snd (rt_transitionTo ops Active s0)
                   in case tf_sendControl (Accept (tf_id s1) (Some (rt_received s1))) s1 of
                        Some s2 \<Rightarrow> s2
                      | None \<Rightarrow> caught (link_error s1) s1)))"

definition rt_reject :: "'k sink_ops \<Rightarrow> string option \<Rightarrow> 'k receive_transfer \<Rightarrow> bool \<times> 'k receive_transfer" where
  "rt_reject ops reason s =
     (if tf_state s \<noteq> Offered then (True, s)
      else (case tf_sendControl (Reject (tf_id s) reason) s of
              Some s1 \<Rightarrow> (True, snd (rt_transitionTo ops TCancelled s1))
            | None \<Rightarrow> (False, s)))"

definition rt_attachChannel :: "nat \<Rightarrow> 'k receive_transfer \<Rightarrow> 'k receive_transfer" where
  "rt_attachChannel channel s = s\<lparr>rt_channels := js_add channel (rt_channels s)\<rparr>"

definition rt_tryComplete :: "'k receive_transfer \<Rightarrow> 'k receive_transfer" where
  "rt_tryComplete s =
     (if tf_isTerminal s \<or> rt_sink s = None \<or> \<not> rt_senderDone s \<or> length (rt_received s) < tf_totalChunks s \<or> rt_phase s \<noteq> CpNone
      then s else s\<lparr>rt_phase := CpChain\<rparr>)"

definition rt_markCancelled :: "'k sink_ops \<Rightarrow> string option \<Rightarrow> 'k receive_transfer \<Rightarrow> 'k receive_transfer" where
  "rt_markCancelled ops reason s =
     (if tf_isTerminal s then s
      else (let s1 = snd (rt_transitionTo ops TCancelled s)
            in case reason of
                 None \<Rightarrow> s1
               | Some r \<Rightarrow> tf_emit (ErrorEv (FtError (''transfer cancelled: '' @ r) Cancelled (Some (tf_id s)))) s1))"

definition rt_handleControl :: "'k sink_ops \<Rightarrow> control_message \<Rightarrow> 'k receive_transfer \<Rightarrow> 'k receive_transfer" where
  "rt_handleControl ops msg s =
     (case msg of
        Sent _ digest \<Rightarrow> rt_tryComplete (s\<lparr>rt_senderDone := True, rt_expectedDigest := digest\<rparr>)
      | Cancel _ reason \<Rightarrow> rt_markCancelled ops reason s
      | _ \<Rightarrow> s)"

definition rt_pause :: "'k sink_ops \<Rightarrow> 'k receive_transfer \<Rightarrow> bool \<times> 'k receive_transfer" where
  "rt_pause ops s =
     (if tf_state s = Active
      then (let s1 = snd (rt_transitionTo ops Paused s)
            in case tf_sendControl (Pause (tf_id s)) s1 of Some s2 \<Rightarrow> (True, s2) | None \<Rightarrow> (False, s1))
      else (True, s))"

definition rt_resume :: "'k sink_ops \<Rightarrow> 'k receive_transfer \<Rightarrow> bool \<times> 'k receive_transfer" where
  "rt_resume ops s =
     (if tf_state s = Paused
      then (let s1 = snd (rt_transitionTo ops Active s)
            in case tf_sendControl (Resume (tf_id s)) s1 of Some s2 \<Rightarrow> (True, s2) | None \<Rightarrow> (False, s1))
      else (True, s))"

definition rt_cancel :: "'k sink_ops \<Rightarrow> string option \<Rightarrow> 'k receive_transfer \<Rightarrow> bool \<times> 'k receive_transfer" where
  "rt_cancel ops reason s =
     (if tf_isTerminal s then (True, s)
      else (case tf_sendControl (Cancel (tf_id s) reason) s of
              Some s1 \<Rightarrow> (True, rt_markCancelled ops reason s1)
            | None \<Rightarrow> (False, s)))"

section \<open>Frames\<close>

definition rt_onMessage :: "channel_data \<Rightarrow> 'k receive_transfer \<Rightarrow> 'k receive_transfer" where
  "rt_onMessage data s = (if tf_isTerminal s \<or> rt_sink s = None then s else s\<lparr>rt_inbox := rt_inbox s @ [data]\<rparr>)"

definition rt_enqueueChunk :: "nat \<Rightarrow> bytes \<Rightarrow> 'k receive_transfer \<Rightarrow> 'k receive_transfer" where
  "rt_enqueueChunk seq bs s = (case rt_sink s of None \<Rightarrow> s | Some _ \<Rightarrow> s\<lparr>rt_chain := rt_chain s @ [Queued seq bs]\<rparr>)"

definition rt_badFrame :: "'k sink_ops \<Rightarrow> string \<Rightarrow> 'k receive_transfer \<Rightarrow> 'k receive_transfer" where
  "rt_badFrame ops msg s = rt_fail ops (FtError msg InvalidFrame (Some (tf_id s))) True s"

text \<open>The rest of \<^verbatim>\<open>_onMessage\<close>, on the message at place \<open>j\<close> of the inbox.\<close>

definition rt_frame :: "'k sink_ops \<Rightarrow> nat \<Rightarrow> bytes \<Rightarrow> 'k receive_transfer \<Rightarrow> 'k receive_transfer" where
  "rt_frame ops seq payload s =
     (if seq \<ge> tf_totalChunks s
      then rt_badFrame ops (''frame seq '' @ js_nat_str seq @ '' out of range [0, '' @ js_nat_str (tf_totalChunks s) @ '')'') s
      else if length payload > tf_chunkSize s
      then rt_badFrame ops (''frame payload '' @ js_nat_str (length payload) @ '' exceeds chunkSize '' @ js_nat_str (tf_chunkSize s)) s
      else if seq * tf_chunkSize s + length payload > fm_size (tf_metadata s)
      then rt_badFrame ops (''frame seq '' @ js_nat_str seq @ '' writes past declared size '' @ js_nat_str (fm_size (tf_metadata s))) s
      else if seq \<in> set (rt_received s) then s
      else (let s1 = s\<lparr>rt_received := js_add seq (rt_received s), tf_transferredChunks := tf_transferredChunks s + 1,
                        tf_transferredBytes := tf_transferredBytes s + length payload\<rparr>
            in rt_tryComplete (rt_enqueueChunk seq payload (tf_emitProgress s1))))"

definition rt_decode :: "'k sink_ops \<Rightarrow> nat \<Rightarrow> 'k receive_transfer \<Rightarrow> 'k receive_transfer" where
  "rt_decode ops j s =
     (if j \<ge> length (rt_inbox s) then s
      else (let data = rt_inbox s ! j;
                s0 = s\<lparr>rt_inbox := take j (rt_inbox s) @ drop (Suc j) (rt_inbox s)\<rparr>
            in case (case toArrayBuffer data of Inl e \<Rightarrow> Inl e | Inr buf \<Rightarrow> decodeFrame buf) of
                 Inl e \<Rightarrow> rt_fail ops e True s0
               | Inr (seq, payload) \<Rightarrow> rt_frame ops seq payload s0))"

text \<open>One step of the write chain: the head is started, or what it awaited has arrived.\<close>

definition rt_callWrite :: "'k sink_ops \<Rightarrow> nat \<Rightarrow> bytes \<Rightarrow> write_job list \<Rightarrow> 'k receive_transfer \<Rightarrow> 'k receive_transfer" where
  "rt_callWrite ops seq bs rest s =
     (case rt_sink s of
        None \<Rightarrow> s
      | Some k \<Rightarrow>
          (case sk_write ops (seq * tf_chunkSize s) bs k of
             Inl e \<Rightarrow> s\<lparr>rt_chain := Writing (Some e) # rest\<rparr>
           | Inr k' \<Rightarrow> s\<lparr>rt_sink := Some k', rt_chain := Writing None # rest\<rparr>))"

definition rt_writeFailed :: "'k sink_ops \<Rightarrow> thrown \<Rightarrow> 'k receive_transfer \<Rightarrow> 'k receive_transfer" where
  "rt_writeFailed ops e s = rt_abortSink ops (rt_fail ops (toTransferError (tf_id s) e SinkWriteFailed) True s)"

definition rt_chainStep :: "'k sink_ops \<Rightarrow> hasher \<Rightarrow> 'k receive_transfer \<Rightarrow> 'k receive_transfer" where
  "rt_chainStep ops subtle s =
     (case rt_chain s of
        [] \<Rightarrow> s
      | Queued seq bs # rest \<Rightarrow>
          if tf_isTerminal s then s\<lparr>rt_chain := rest\<rparr>
          else (case rt_digest s of
                  None \<Rightarrow> rt_callWrite ops seq bs rest s
                | Some ds \<Rightarrow>
                    (case dg_update subtle seq bs ds of
                       Inl e \<Rightarrow> rt_writeFailed ops (TransferErr e) (s\<lparr>rt_chain := rest\<rparr>)
                     | Inr ds' \<Rightarrow> s\<lparr>rt_digest := Some ds', rt_chain := Hashed seq bs # rest\<rparr>))
      | Hashed seq bs # rest \<Rightarrow> rt_callWrite ops seq bs rest s
      | Writing None # rest \<Rightarrow> s\<lparr>rt_chain := rest\<rparr>
      | Writing (Some e) # rest \<Rightarrow> rt_writeFailed ops e (s\<lparr>rt_chain := rest\<rparr>))"

section \<open>Completion\<close>

definition rt_mismatch :: "'k sink_ops \<Rightarrow> string \<Rightarrow> 'k receive_transfer \<Rightarrow> 'k receive_transfer" where
  "rt_mismatch ops msg s =
     (let s0 = s\<lparr>rt_phase := CpOver\<rparr>
      in case tf_sendControl (ChecksumMismatchMsg (tf_id s0)) s0 of
           None \<Rightarrow> s0
         | Some s1 \<Rightarrow> rt_fail ops (FtError msg ChecksumMismatch (Some (tf_id s0))) False (rt_abortSink ops s1))"

definition rt_close :: "'k sink_ops \<Rightarrow> 'k receive_transfer \<Rightarrow> 'k receive_transfer" where
  "rt_close ops s =
     (let s1 = snd (rt_transitionTo ops Completing s)
      in case rt_sink s1 of
           None \<Rightarrow> s1
         | Some k \<Rightarrow>
             (case sk_close ops k of
                Inl e \<Rightarrow> s1\<lparr>rt_phase := CpClose (Inl e)\<rparr>
              | Inr (r, k') \<Rightarrow> s1\<lparr>rt_sink := Some k', rt_phase := CpClose (Inr r)\<rparr>))"

definition rt_finish :: "'k sink_ops \<Rightarrow> sink_result \<Rightarrow> 'k receive_transfer \<Rightarrow> 'k receive_transfer" where
  "rt_finish ops r s =
     (let s0 = s\<lparr>rt_result := Some r, rt_sinkFinalized := True, rt_phase := CpOver\<rparr>
      in case tf_sendControl (Complete (tf_id s0)) s0 of
           None \<Rightarrow> s0
         | Some s1 \<Rightarrow>
             (let (ok, s2) = rt_transitionTo ops Completed s1 in if ok then tf_emit (CompleteEv (tf_id s2)) s2 else s2))"

text \<open>One step of \<^verbatim>\<open>_tryComplete\<close> past its guards; the first one waits for the write chain.\<close>

definition rt_completeStep :: "'k sink_ops \<Rightarrow> hasher \<Rightarrow> 'k receive_transfer \<Rightarrow> 'k receive_transfer" where
  "rt_completeStep ops subtle s =
     (case rt_phase s of
        CpChain \<Rightarrow>
          if rt_chain s \<noteq> [] then s
          else if tf_isTerminal s then s\<lparr>rt_phase := CpOver\<rparr>
          else (case rt_digest s of
                  None \<Rightarrow> rt_close ops s
                | Some ds \<Rightarrow>
                    (case rt_expectedDigest s of
                       None \<Rightarrow> rt_mismatch ops ''sender provided no checksum but one was required'' s
                     | Some _ \<Rightarrow>
                         (case dg_finalize subtle ds of
                            Inl _ \<Rightarrow> s\<lparr>rt_phase := CpOver\<rparr>
                          | Inr local \<Rightarrow> s\<lparr>rt_phase := CpDigest local\<rparr>)))
      | CpDigest local \<Rightarrow>
          if Some local \<noteq> rt_expectedDigest s then rt_mismatch ops ''checksum mismatch on received file'' s
          else rt_close ops s
      | CpClose (Inl e) \<Rightarrow> rt_fail ops (toTransferError (tf_id s) e SinkWriteFailed) True (s\<lparr>rt_phase := CpOver\<rparr>)
      | CpClose (Inr r) \<Rightarrow> rt_finish ops r s
      | _ \<Rightarrow> s)"

section \<open>Everything that can happen to a receiver\<close>

datatype 'k rt_event =
    RxAccept 'k
  | RxOpened
  | RxReject "string option"
  | RxAttach nat
  | RxControl control_message
  | RxPause
  | RxResume
  | RxCancel "string option"
  | RxRequestResume
  | RxMessage channel_data
  | RxDecode nat
  | RxWrite
  | RxComplete
  | RxLink bool

definition rt_exec :: "'k sink_ops \<Rightarrow> hasher \<Rightarrow> 'k rt_event \<Rightarrow> 'k receive_transfer \<Rightarrow> 'k receive_transfer" where
  "rt_exec ops subtle ev s =
     (case ev of
        RxAccept k \<Rightarrow> rt_accept ops k s
      | RxOpened \<Rightarrow> rt_opened ops s
      | RxReject r \<Rightarrow> snd (rt_reject ops r s)
      | RxAttach ch \<Rightarrow> rt_attachChannel ch s
      | RxControl m \<Rightarrow> rt_handleControl ops m s
      | RxPause \<Rightarrow> snd (rt_pause ops s)
      | RxResume \<Rightarrow> snd (rt_resume ops s)
      | RxCancel r \<Rightarrow> snd (rt_cancel ops r s)
      | RxRequestResume \<Rightarrow> snd (rt_requestResume s)
      | RxMessage d \<Rightarrow> rt_onMessage d s
      | RxDecode j \<Rightarrow> rt_decode ops j s
      | RxWrite \<Rightarrow> rt_chainStep ops subtle s
      | RxComplete \<Rightarrow> rt_completeStep ops subtle s
      | RxLink up \<Rightarrow> s\<lparr>tf_linkUp := up\<rparr>)"

definition rt_run :: "'k sink_ops \<Rightarrow> hasher \<Rightarrow> 'k rt_event list \<Rightarrow> 'k receive_transfer \<Rightarrow> 'k receive_transfer" where
  "rt_run ops subtle evs s = fold (rt_exec ops subtle) evs s"

end
