(* ===== verification/FtReceiveInv.thy ===== *)
theory FtReceiveInv
  imports FtReceive
begin

text \<open>
  The invariant of a receiver, proved once for every sink that satisfies the contract \<open>storage_sink\<close>: what was counted, what is queued, what
  the sink holds and what the digests cover, in every phase, with one lemma per operation.
\<close>

section \<open>Invariant\<close>

text \<open>
  Ghost data of the invariant: \<open>acc seq\<close> is the payload accepted for chunk \<open>seq\<close>; \<open>pok\<close> bounds the payloads the network
  delivers and \<open>E\<close> the digests the sender announces.
\<close>

fun job_seqs :: "write_job list \<Rightarrow> nat list" where
  "job_seqs [] = []"
| "job_seqs (Queued seq _ # js) = seq # job_seqs js"
| "job_seqs (Hashed seq _ # js) = seq # job_seqs js"
| "job_seqs (Writing _ # js) = job_seqs js"

fun queued_seqs :: "write_job list \<Rightarrow> nat list" where
  "queued_seqs [] = []"
| "queued_seqs (Queued seq _ # js) = seq # queued_seqs js"
| "queued_seqs (_ # js) = queued_seqs js"

fun job_ok :: "(nat \<Rightarrow> bytes) \<Rightarrow> write_job \<Rightarrow> bool" where
  "job_ok acc (Queued seq bs) \<longleftrightarrow> bs = acc seq"
| "job_ok acc (Hashed seq bs) \<longleftrightarrow> bs = acc seq"
| "job_ok acc (Writing _) \<longleftrightarrow> True"

fun is_queued :: "write_job \<Rightarrow> bool" where
  "is_queued (Queued _ _) = True"
| "is_queued _ = False"

definition job_lost :: "write_job list \<Rightarrow> bool" where
  "job_lost js \<longleftrightarrow> (\<exists>e. Writing (Some e) \<in> set js)"

definition msg_ok :: "(nat \<Rightarrow> bytes \<Rightarrow> bool) \<Rightarrow> channel_data \<Rightarrow> bool" where
  "msg_ok pok d \<longleftrightarrow> (\<forall>bs seq p. toArrayBuffer d = Inr bs \<longrightarrow> decodeFrame bs = Inr (seq, p) \<longrightarrow> pok seq p)"

definition rt_files :: "(nat \<Rightarrow> bytes \<Rightarrow> bool) \<Rightarrow> string set \<Rightarrow> (nat \<Rightarrow> bytes) \<Rightarrow> 'k receive_transfer \<Rightarrow> bool" where
  "rt_files pok E acc s \<longleftrightarrow>
     distinct (rt_received s) \<and> set (rt_received s) \<subseteq> {..<tf_totalChunks s} \<and>
     (\<forall>seq \<in> set (rt_received s). pok seq (acc seq) \<and> length (acc seq) \<le> tf_chunkSize s \<and>
        seq * tf_chunkSize s + length (acc seq) \<le> fm_size (tf_metadata s)) \<and>
     tf_transferredChunks s = length (rt_received s) \<and>
     tf_transferredBytes s = (\<Sum>seq \<leftarrow> rt_received s. length (acc seq)) \<and>
     (\<forall>d \<in> set (rt_inbox s). msg_ok pok d) \<and> set_option (rt_expectedDigest s) \<subseteq> E"

definition rt_jobs :: "(nat \<Rightarrow> bytes) \<Rightarrow> 'k receive_transfer \<Rightarrow> bool" where
  "rt_jobs acc s \<longleftrightarrow>
     distinct (job_seqs (rt_chain s)) \<and> set (job_seqs (rt_chain s)) \<subseteq> set (rt_received s) \<and>
     (\<forall>j \<in> set (rt_chain s). job_ok acc j) \<and> (\<forall>j \<in> set (tl (rt_chain s)). is_queued j) \<and>
     (rt_phase s \<noteq> CpNone \<longrightarrow> set (rt_received s) = {..<tf_totalChunks s}) \<and>
     (rt_phase s \<notin> {CpNone, CpChain} \<longrightarrow> rt_chain s = [])"

definition rt_ended :: "'k receive_transfer \<Rightarrow> bool" where
  "rt_ended s \<longleftrightarrow> (tf_state s = Completed \<longrightarrow> rt_phase s = CpOver)"

definition rt_stage :: "'k receive_transfer \<Rightarrow> bool" where
  "rt_stage s \<longleftrightarrow>
     (rt_opening s \<noteq> None \<longrightarrow> tf_state s = Accepted \<or> tf_isTerminal s) \<and>
     (tf_state s = Offered \<longrightarrow> rt_sink s = None) \<and>
     (rt_sink s = None \<longrightarrow> tf_state s \<in> {Offered, Failed, TCancelled} \<and> rt_received s = [] \<and> rt_chain s = [] \<and> rt_inbox s = [] \<and>
        rt_phase s = CpNone \<and> rt_digest s = None) \<and>
     (rt_sink s \<noteq> None \<longrightarrow> (rt_digest s \<noteq> None) = rt_checksum s)"

text \<open>The states about whose sink and digests something is claimed.\<close>

definition rt_sound :: "'k receive_transfer \<Rightarrow> bool" where
  "rt_sound s \<longleftrightarrow> \<not> tf_isTerminal s \<and> \<not> job_lost (rt_chain s) \<and> (\<forall>e. rt_opening s \<noteq> Some (Inl e))"

context storage_sink
begin

definition delivered :: "hasher \<Rightarrow> string set \<Rightarrow> (nat \<Rightarrow> bytes) \<Rightarrow> sink_result \<Rightarrow> 'k receive_transfer \<Rightarrow> bool" where
  "delivered subtle E acc r s \<longleftrightarrow>
     set (rt_received s) = {..<tf_totalChunks s} \<and>
     (\<exists>k k'. sk_close ops k = Inr (r, k') \<and> ready (fm_size (tf_metadata s)) k \<and>
        placed (tf_chunkSize s) acc {..<tf_totalChunks s} k) \<and>
     (rt_checksum s \<longrightarrow>
        (\<exists>ds d. digests_of subtle acc {..<tf_totalChunks s} ds \<and> dg_finalize subtle ds = Inr d \<and> d \<in> E))"

definition rt_store :: "hasher \<Rightarrow> string set \<Rightarrow> (nat \<Rightarrow> bytes) \<Rightarrow> 'k receive_transfer \<Rightarrow> bool" where
  "rt_store subtle E acc s \<longleftrightarrow>
     (rt_sound s \<longrightarrow> rt_phase s \<in> {CpNone, CpChain} \<or> (\<exists>l. rt_phase s = CpDigest l) \<longrightarrow>
        (\<forall>k. rt_sink s = Some k \<longrightarrow> ready (fm_size (tf_metadata s)) k \<and>
           placed (tf_chunkSize s) acc (set (rt_received s) - set (job_seqs (rt_chain s))) k)) \<and>
     (rt_sound s \<longrightarrow> (\<forall>ds. rt_digest s = Some ds \<longrightarrow> digests_of subtle acc (set (rt_received s) - set (queued_seqs (rt_chain s))) ds)) \<and>
     (\<forall>l. rt_sound s \<longrightarrow> rt_phase s = CpDigest l \<longrightarrow> (\<exists>ds. rt_digest s = Some ds \<and> dg_finalize subtle ds = Inr l)) \<and>
     (\<forall>r. rt_sound s \<longrightarrow> rt_phase s = CpClose (Inr r) \<longrightarrow> delivered subtle E acc r s) \<and>
     (tf_state s = Completed \<longrightarrow> (\<exists>r. rt_result s = Some r \<and> delivered subtle E acc r s))"

definition rt_inv :: "hasher \<Rightarrow> (nat \<Rightarrow> bytes \<Rightarrow> bool) \<Rightarrow> string set \<Rightarrow> (nat \<Rightarrow> bytes) \<Rightarrow> 'k receive_transfer \<Rightarrow> bool" where
  "rt_inv subtle pok E acc s \<longleftrightarrow> rt_files pok E acc s \<and> rt_jobs acc s \<and> rt_stage s \<and> rt_ended s \<and> rt_store subtle E acc s"

end

text \<open>The fields that only frames, the write chain and completion change.\<close>

definition rt_core where
  "rt_core s = (tf_metadata s, tf_chunkSize s, tf_totalChunks s, rt_checksum s, rt_received s, tf_transferredBytes s,
     tf_transferredChunks s, rt_inbox s, rt_chain s, rt_digest s, rt_expectedDigest s, rt_result s, rt_phase s)"

lemma rt_coreD:
  assumes "rt_core s' = rt_core s"
  shows "tf_metadata s' = tf_metadata s" "tf_chunkSize s' = tf_chunkSize s" "tf_totalChunks s' = tf_totalChunks s"
    "rt_checksum s' = rt_checksum s" "rt_received s' = rt_received s" "tf_transferredBytes s' = tf_transferredBytes s"
    "tf_transferredChunks s' = tf_transferredChunks s" "rt_inbox s' = rt_inbox s" "rt_chain s' = rt_chain s"
    "rt_digest s' = rt_digest s" "rt_expectedDigest s' = rt_expectedDigest s" "rt_result s' = rt_result s" "rt_phase s' = rt_phase s"
  using assms by (simp_all add: rt_core_def)

named_theorems rt_frame_simps \<open>what the helpers of a receiver leave alone\<close>

declare tf_emit_fields [rt_frame_simps]

lemma rt_emit_fields [rt_frame_simps, simp]:
  "rt_core (tf_emit x s) = rt_core s" "rt_sink (tf_emit x s) = rt_sink s" "rt_opening (tf_emit x s) = rt_opening s"
  by (simp_all add: tf_emit_def rt_core_def)

lemma rt_abortSink_fields [rt_frame_simps, simp]:
  "rt_core (rt_abortSink ops s) = rt_core s" "tf_state (rt_abortSink ops s) = tf_state s"
  "rt_opening (rt_abortSink ops s) = rt_opening s" "rt_sink (rt_abortSink ops s) = None \<longleftrightarrow> rt_sink s = None"
  "tf_isTerminal (rt_abortSink ops s) = tf_isTerminal s" "tf_linkUp (rt_abortSink ops s) = tf_linkUp s"
  by (auto simp: rt_abortSink_def rt_core_def tf_isTerminal_def split: option.splits)

lemma rt_onTerminal_fields [rt_frame_simps, simp]:
  "rt_core (rt_onTerminal ops s) = rt_core s" "tf_state (rt_onTerminal ops s) = tf_state s"
  "rt_opening (rt_onTerminal ops s) = rt_opening s" "rt_sink (rt_onTerminal ops s) = None \<longleftrightarrow> rt_sink s = None"
proof -
  show "rt_core (rt_onTerminal ops s) = rt_core s"
    using rt_abortSink_fields(1) [of ops s] by (simp add: rt_onTerminal_def Let_def rt_core_def)
qed (simp_all add: rt_onTerminal_def Let_def)

lemma rt_transitionTo_state:
  "tf_state (snd (rt_transitionTo ops n s)) = fst (ft_move (tf_state s) n)"
  "fst (rt_transitionTo ops n s) = snd (ft_move (tf_state s) n)"
  unfolding rt_transitionTo_def by (simp_all add: tf_transitionTo_move)

lemma rt_transitionTo_fields [rt_frame_simps, simp]:
  "rt_core (snd (rt_transitionTo ops n s)) = rt_core s" "rt_opening (snd (rt_transitionTo ops n s)) = rt_opening s"
  "rt_sink (snd (rt_transitionTo ops n s)) = None \<longleftrightarrow> rt_sink s = None"
proof -
  have "rt_core (s\<lparr>tf_state := m\<rparr>) = rt_core s" for m by (simp add: rt_core_def)
  then show "rt_core (snd (rt_transitionTo ops n s)) = rt_core s" by (simp add: rt_transitionTo_def tf_transitionTo_def Let_def)
qed (simp_all add: rt_transitionTo_def tf_transitionTo_def Let_def)

lemma rt_transitionTo_sink: "n \<notin> set TERMINAL \<Longrightarrow> rt_sink (snd (rt_transitionTo ops n s)) = rt_sink s"
  by (simp add: rt_transitionTo_def tf_transitionTo_def Let_def)

lemma rt_transitionTo_stay: "\<not> ft_edge (tf_state s) n \<Longrightarrow> snd (rt_transitionTo ops n s) = s"
  by (auto simp: rt_transitionTo_def tf_transitionTo_def ft_edge_def tf_isTerminal_def)

lemma rt_notify_cases: "rt_notifyRemoteFailure e s = s \<or> (\<exists>m. rt_notifyRemoteFailure e s = tf_emit (Control m) s)"
  by (auto simp: rt_notifyRemoteFailure_def tf_sendControl_def)

lemma rt_notify_fields [rt_frame_simps, simp]:
  "rt_core (rt_notifyRemoteFailure e s) = rt_core s" "tf_state (rt_notifyRemoteFailure e s) = tf_state s"
  "rt_opening (rt_notifyRemoteFailure e s) = rt_opening s" "rt_sink (rt_notifyRemoteFailure e s) = rt_sink s"
  using rt_notify_cases [of e s] by auto

lemma rt_fail_fields [rt_frame_simps, simp]:
  "rt_core (rt_fail ops e b s) = rt_core s" "rt_opening (rt_fail ops e b s) = rt_opening s"
  "rt_sink (rt_fail ops e b s) = None \<longleftrightarrow> rt_sink s = None"
  "tf_isTerminal (rt_fail ops e b s)"
  "tf_state (rt_fail ops e b s) = (if tf_isTerminal s then tf_state s else Failed)"
  using rt_transitionTo_state(1) [of ops Failed s]
  by (auto simp: rt_fail_def tf_fail_def Let_def rt_transitionTo_def [symmetric] terminal_simps ft_move_def ft_edge_def)
section \<open>Every step keeps the invariant\<close>

context storage_sink
begin

lemma rt_files_core: "rt_core s' = rt_core s \<Longrightarrow> rt_files pok E acc s' = rt_files pok E acc s"
  by (simp add: rt_files_def rt_coreD [of s' s])

lemma rt_jobs_core: "rt_core s' = rt_core s \<Longrightarrow> rt_jobs acc s' = rt_jobs acc s"
  by (simp add: rt_jobs_def rt_coreD [of s' s])

lemma delivered_core: "rt_core s' = rt_core s \<Longrightarrow> delivered subtle E acc r s' = delivered subtle E acc r s"
  by (simp add: delivered_def rt_coreD [of s' s])

text \<open>A step that leaves the core alone, and ends the transfer or keeps the sink.\<close>

lemma rt_inv_control:
  assumes inv: "rt_inv subtle pok E acc s" and core: "rt_core s' = rt_core s"
    and sink: "rt_sink s' = rt_sink s \<or> tf_isTerminal s' \<and> (rt_sink s' = None \<longleftrightarrow> rt_sink s = None)"
    and opn: "rt_opening s' = rt_opening s \<or> rt_opening s' = None \<and> (tf_isTerminal s' \<or> (\<forall>e. rt_opening s \<noteq> Some (Inl e)))"
    and move: "tf_state s' = tf_state s \<or> (\<exists>n. tf_state s' = n \<and> ft_edge (tf_state s) n \<and> n \<noteq> Completed \<and> n \<noteq> Offered \<and>
      (rt_opening s' = None \<or> n \<in> set TERMINAL \<or> n = Accepted) \<and> (rt_sink s = None \<longrightarrow> n \<in> set TERMINAL))"
  shows "rt_inv subtle pok E acc s'"
proof -
  have parts: "rt_files pok E acc s" "rt_jobs acc s" "rt_stage s" "rt_store subtle E acc s" using inv by (auto simp: rt_inv_def)
  note c = rt_coreD [OF core]
  have tm: "tf_isTerminal s \<Longrightarrow> tf_isTerminal s'"
    using move by (auto simp: tf_isTerminal_def ft_edge_def)
  have comp: "tf_state s' = Completed \<Longrightarrow> tf_state s = Completed" using move by auto
  have sound: "rt_sound s' \<Longrightarrow> rt_sound s"
    using tm opn by (auto simp: rt_sound_def c)
  have sound_sink: "rt_sound s' \<Longrightarrow> rt_sink s' = rt_sink s" using sink by (auto simp: rt_sound_def)
  have "rt_stage s'"
    using parts(3) sink opn move tm unfolding rt_stage_def c
    by (elim disjE exE conjE) (auto simp: terminal_simps)
  moreover have "rt_store subtle E acc s'"
    using parts(4) sound sound_sink comp unfolding rt_store_def c delivered_core [OF core] by metis
  ultimately show ?thesis
    using parts rt_files_core [OF core] rt_jobs_core [OF core] inv comp c(13) unfolding rt_inv_def rt_ended_def by metis
qed

lemma rt_inv_fail:
  assumes "rt_inv subtle pok E acc s"
  shows "rt_inv subtle pok E acc (rt_fail ops e b s)"
proof (rule rt_inv_control [OF assms])
  show "tf_state (rt_fail ops e b s) = tf_state s \<or> (\<exists>n. tf_state (rt_fail ops e b s) = n \<and> ft_edge (tf_state s) n \<and> n \<noteq> Completed \<and> n \<noteq> Offered \<and>
      (rt_opening (rt_fail ops e b s) = None \<or> n \<in> set TERMINAL \<or> n = Accepted) \<and> (rt_sink s = None \<longrightarrow> n \<in> set TERMINAL))"
    by (auto simp: ft_edge_def tf_isTerminal_def TERMINAL_def)
qed simp_all

lemma rt_inv_transition:
  assumes "rt_inv subtle pok E acc s" "n \<noteq> Completed" "n \<noteq> Offered" "rt_opening s = None \<or> n \<in> set TERMINAL \<or> n = Accepted"
    and "rt_sink s = None \<longrightarrow> n \<in> set TERMINAL \<or> tf_isTerminal s"
  shows "rt_inv subtle pok E acc (snd (rt_transitionTo ops n s))"
proof (rule rt_inv_control [OF assms(1)])
  let ?s' = "snd (rt_transitionTo ops n s)"
  have st: "tf_state ?s' = (if ft_edge (tf_state s) n then n else tf_state s)"
    by (auto simp: rt_transitionTo_state ft_move_def)
  show "rt_sink ?s' = rt_sink s \<or> tf_isTerminal ?s' \<and> (rt_sink ?s' = None \<longleftrightarrow> rt_sink s = None)"
    using st rt_transitionTo_sink [of n ops s] rt_transitionTo_stay [of s n ops] by (cases "ft_edge (tf_state s) n") (auto simp: tf_isTerminal_def)
  show "tf_state ?s' = tf_state s \<or> (\<exists>m. tf_state ?s' = m \<and> ft_edge (tf_state s) m \<and> m \<noteq> Completed \<and> m \<noteq> Offered \<and>
      (rt_opening ?s' = None \<or> m \<in> set TERMINAL \<or> m = Accepted) \<and> (rt_sink s = None \<longrightarrow> m \<in> set TERMINAL))"
    using st assms(2-5) by (auto simp: ft_edge_def tf_isTerminal_def)
qed simp_all

lemma rt_inv_emit:
  assumes "rt_inv subtle pok E acc s"
  shows "rt_inv subtle pok E acc (tf_emit x s)"
  by (rule rt_inv_control [OF assms]) (simp_all only: rt_frame_simps simp_thms)

lemma rt_inv_send: "rt_inv subtle pok E acc s \<Longrightarrow> tf_sendControl m s = Some s' \<Longrightarrow> rt_inv subtle pok E acc s'"
  by (auto dest!: tf_sendControl_Some intro: rt_inv_emit)

lemma rt_inv_markCancelled: "rt_inv subtle pok E acc s \<Longrightarrow> rt_inv subtle pok E acc (rt_markCancelled ops r s)"
  unfolding rt_markCancelled_def Let_def
  by (auto intro!: rt_inv_emit rt_inv_transition simp: TERMINAL_def split: option.splits)

lemma rt_inv_stage: "rt_inv subtle pok E acc s \<Longrightarrow> rt_stage s"
  by (simp add: rt_inv_def)

lemma rt_stage_open: "rt_stage s \<Longrightarrow> tf_state s \<in> {Active, Paused, Completing} \<Longrightarrow> rt_opening s = None \<and> rt_sink s \<noteq> None"
  by (auto simp: rt_stage_def terminal_simps)

lemma rt_inv_pause:
  assumes "rt_inv subtle pok E acc s"
  shows "rt_inv subtle pok E acc (snd (rt_pause ops s))" "rt_inv subtle pok E acc (snd (rt_resume ops s))"
proof -
  have t: "rt_inv subtle pok E acc (snd (rt_transitionTo ops n s))" if "tf_state s \<in> {Active, Paused}" "n \<in> {Active, Paused}" for n
    using that rt_stage_open [OF rt_inv_stage [OF assms]] by (intro rt_inv_transition [OF assms]) auto
  show "rt_inv subtle pok E acc (snd (rt_pause ops s))" "rt_inv subtle pok E acc (snd (rt_resume ops s))"
    using t assms by (auto simp: rt_pause_def rt_resume_def Let_def intro: rt_inv_send split: option.splits)
qed

lemma rt_inv_cancel:
  assumes "rt_inv subtle pok E acc s"
  shows "rt_inv subtle pok E acc (snd (rt_cancel ops r s))" "rt_inv subtle pok E acc (snd (rt_reject ops r s))"
    "rt_inv subtle pok E acc (snd (rt_requestResume s))"
  using assms rt_inv_send [OF assms]
  by (auto simp: rt_cancel_def rt_reject_def rt_requestResume_def TERMINAL_def intro!: rt_inv_markCancelled rt_inv_transition split: option.splits)

lemma rt_inv_opened:
  assumes inv: "rt_inv subtle pok E acc s"
  shows "rt_inv subtle pok E acc (rt_opened ops s)"
proof (cases "rt_opening s")
  case None
  then show ?thesis using inv by (simp add: rt_opened_def)
next
  case (Some outcome)
  have st: "tf_state s = Accepted \<or> tf_isTerminal s" "rt_sink s = None \<longrightarrow> tf_isTerminal s"
    using rt_inv_stage [OF inv] Some by (auto simp: rt_stage_def terminal_simps)
  let ?s0 = "s\<lparr>rt_opening := None\<rparr>"
  show ?thesis
  proof (cases outcome)
    case (Inl e)
    let ?s' = "rt_fail ops (toTransferError (tf_id s) e SinkWriteFailed) True ?s0"
    have c: "rt_core ?s0 = rt_core s" by (simp add: rt_core_def)
    have t: "tf_isTerminal ?s0 = tf_isTerminal s" by (simp add: tf_isTerminal_def)
    have "rt_inv subtle pok E acc ?s'"
    proof (rule rt_inv_control [OF inv])
      show "tf_state ?s' = tf_state s \<or> (\<exists>n. tf_state ?s' = n \<and> ft_edge (tf_state s) n \<and> n \<noteq> Completed \<and> n \<noteq> Offered \<and>
          (rt_opening ?s' = None \<or> n \<in> set TERMINAL \<or> n = Accepted) \<and> (rt_sink s = None \<longrightarrow> n \<in> set TERMINAL))"
        by (auto simp: t) (auto simp: ft_edge_def tf_isTerminal_def TERMINAL_def)
    qed (simp_all add: c)
    then show ?thesis using Some Inl by (simp add: rt_opened_def Let_def)
  next
    case (Inr u)
    have inv0: "rt_inv subtle pok E acc ?s0"
      by (rule rt_inv_control [OF inv]) (auto simp: rt_core_def Some Inr)
    have t: "tf_isTerminal ?s0 = tf_isTerminal s" by (simp add: tf_isTerminal_def)
    have inv1: "rt_inv subtle pok E acc (snd (rt_transitionTo ops Active ?s0))"
      using st(2) by (intro rt_inv_transition [OF inv0]) (auto simp: t)
    show ?thesis
      using Some Inr inv1 rt_inv_send [OF inv1] rt_inv_fail [OF inv1] by (auto simp: rt_opened_def Let_def split: option.splits)
  qed
qed


lemma rt_inv_end:
  assumes "rt_files pok E acc s" "rt_jobs acc s" "rt_stage s" "tf_isTerminal s" "tf_state s \<noteq> Completed"
  shows "rt_inv subtle pok E acc s"
  using assms by (simp add: rt_inv_def rt_store_def rt_sound_def rt_ended_def)

lemma rt_stage_fail: "rt_stage s \<Longrightarrow> rt_stage (rt_fail ops e b s)"
  using rt_coreD [OF rt_fail_fields(1), of ops e b s] by (auto simp: rt_stage_def terminal_simps split: if_splits)

lemma rt_inv_accept:
  assumes inv: "rt_inv subtle pok E acc s"
  shows "rt_inv subtle pok E acc (rt_accept ops k s)"
proof (cases "tf_state s = Offered")
  case False
  then show ?thesis using rt_inv_fail [OF inv] by (simp add: rt_accept_def)
next
  case True
  define s1 where "s1 = s\<lparr>rt_sink := Some k, rt_digest := if rt_checksum s then Some [] else None\<rparr>"
  define s2 where "s2 = snd (rt_transitionTo ops Accepted s1)"
  have parts: "rt_files pok E acc s" "rt_jobs acc s" "rt_stage s" using inv by (auto simp: rt_inv_def)
  have idle: "rt_received s = []" "rt_chain s = []" "rt_inbox s = []" "rt_phase s = CpNone" "rt_digest s = None"
    using parts(3) True by (auto simp: rt_stage_def)
  have "rt_core s2 = rt_core s1" by (simp add: s2_def)
  note c = rt_coreD [OF this]
  have m: "tf_metadata s1 = tf_metadata s" "rt_received s1 = []" "rt_chain s1 = []" "rt_inbox s1 = []" "rt_phase s1 = CpNone"
    "rt_digest s1 = (if rt_checksum s then Some [] else None)" "rt_checksum s1 = rt_checksum s"
    using idle by (simp_all add: s1_def)
  have st: "tf_state s2 = Accepted"
    by (simp add: s2_def rt_transitionTo_state) (simp add: s1_def True ft_move_def ft_edge_def TERMINAL_def)
  have inv': "rt_inv subtle pok E acc (s2\<lparr>rt_sink := Some x, rt_opening := y\<rparr>)" (is "rt_inv _ _ _ _ ?s")
    if rdy: "(\<forall>e. y \<noteq> Some (Inl e)) \<longrightarrow> ready (fm_size (tf_metadata s)) x" for x y
  proof -
    have "rt_files pok E acc s1" using parts(1) by (simp add: rt_files_def s1_def)
    then have "rt_files pok E acc ?s" by (simp add: rt_files_def c)
    moreover have "rt_jobs acc ?s" by (simp add: rt_jobs_def c m)
    moreover have "rt_stage ?s" "rt_ended ?s" using st by (simp_all add: rt_stage_def rt_ended_def c m)
    moreover have "rt_store subtle E acc ?s"
      using rdy st by (simp add: rt_store_def rt_sound_def c m placed_def digests_of_def)
    ultimately show ?thesis by (simp add: rt_inv_def)
  qed
  have acc: "rt_accept ops k s = (case sk_open ops (tf_metadata s) k of
      Inl e \<Rightarrow> s2\<lparr>rt_opening := Some (Inl e)\<rparr> | Inr k \<Rightarrow> s2\<lparr>rt_sink := Some k, rt_opening := Some (Inr ())\<rparr>)"
  proof -
    have "rt_accept ops k s = (case sk_open ops (tf_metadata s2) k of
        Inl e \<Rightarrow> s2\<lparr>rt_opening := Some (Inl e)\<rparr> | Inr k \<Rightarrow> s2\<lparr>rt_sink := Some k, rt_opening := Some (Inr ())\<rparr>)"
      using True unfolding rt_accept_def Let_def s1_def s2_def by simp
    then show ?thesis using c(1) m(1) by simp
  qed
  have sk: "rt_sink s2 = Some k"
    unfolding s2_def by (subst rt_transitionTo_sink) (simp_all add: s1_def TERMINAL_def)
  have "s2\<lparr>rt_opening := y\<rparr> = s2\<lparr>rt_sink := Some k, rt_opening := y\<rparr>" for y using sk by simp
  then show ?thesis using inv' open_ready [of "tf_metadata s" k] unfolding acc by (auto split: sum.splits)
qed

lemma rt_files_full:
  assumes "rt_files pok E acc s" "tf_totalChunks s \<le> length (rt_received s)"
  shows "set (rt_received s) = {..<tf_totalChunks s}"
proof (rule card_seteq)
  show "set (rt_received s) \<subseteq> {..<tf_totalChunks s}" using assms(1) by (simp add: rt_files_def)
  have "card (set (rt_received s)) = length (rt_received s)" using assms(1) by (simp add: rt_files_def distinct_card)
  then show "card {..<tf_totalChunks s} \<le> card (set (rt_received s))" using assms(2) by simp
qed simp

lemma rt_inv_tryComplete:
  assumes inv: "rt_inv subtle pok E acc s"
  shows "rt_inv subtle pok E acc (rt_tryComplete s)"
proof (cases "tf_isTerminal s \<or> rt_sink s = None \<or> \<not> rt_senderDone s \<or> length (rt_received s) < tf_totalChunks s \<or> rt_phase s \<noteq> CpNone")
  case True
  then show ?thesis using inv by (simp add: rt_tryComplete_def)
next
  case False
  then have ph: "rt_phase s = CpNone" "rt_sink s \<noteq> None" "\<not> tf_isTerminal s" "tf_totalChunks s \<le> length (rt_received s)" by auto
  let ?s' = "s\<lparr>rt_phase := CpChain\<rparr>"
  have parts: "rt_files pok E acc s" "rt_jobs acc s" "rt_stage s" "rt_store subtle E acc s" using inv by (auto simp: rt_inv_def)
  have "set (rt_received s) = {..<tf_totalChunks s}"
    using parts(1) ph(4) by (intro rt_files_full)
  then have "rt_jobs acc ?s'" using parts(2) by (simp add: rt_jobs_def)
  moreover have "rt_files pok E acc ?s'" "rt_stage ?s'" using parts(1,3) ph(2) by (simp_all add: rt_files_def rt_stage_def tf_isTerminal_def)
  moreover have "rt_ended ?s'" using ph(3) by (simp add: rt_ended_def terminal_simps)
  moreover have "rt_store subtle E acc ?s'"
    using parts(4) ph by (simp add: rt_store_def rt_sound_def tf_isTerminal_def delivered_def)
  moreover have "rt_tryComplete s = ?s'" using False by (auto simp: rt_tryComplete_def)
  ultimately show ?thesis by (simp add: rt_inv_def)
qed

text \<open>The parts of the invariant that do not read the inbox, the digest expected or the log.\<close>

lemma rt_parts_update [simp]:
  "rt_jobs acc (s\<lparr>rt_inbox := x\<rparr>) = rt_jobs acc s" "rt_ended (s\<lparr>rt_inbox := x\<rparr>) = rt_ended s"
  "rt_jobs acc (s\<lparr>rt_senderDone := b, rt_expectedDigest := d\<rparr>) = rt_jobs acc s"
  "rt_stage (s\<lparr>rt_senderDone := b, rt_expectedDigest := d\<rparr>) = rt_stage s"
  "rt_ended (s\<lparr>rt_senderDone := b, rt_expectedDigest := d\<rparr>) = rt_ended s"
  "rt_sound (s\<lparr>rt_inbox := x\<rparr>) = rt_sound s" "rt_sound (s\<lparr>rt_senderDone := b, rt_expectedDigest := d\<rparr>) = rt_sound s"
  by (simp_all add: rt_jobs_def rt_stage_def rt_ended_def rt_sound_def tf_isTerminal_def)

lemma delivered_update [simp]:
  "delivered subtle E acc r (s\<lparr>rt_inbox := x\<rparr>) = delivered subtle E acc r s"
  "delivered subtle E acc r (s\<lparr>rt_senderDone := b, rt_expectedDigest := d\<rparr>) = delivered subtle E acc r s"
  by (simp_all add: delivered_def)

lemma rt_store_update [simp]:
  "rt_store subtle E acc (s\<lparr>rt_inbox := x\<rparr>) = rt_store subtle E acc s"
  "rt_store subtle E acc (s\<lparr>rt_senderDone := b, rt_expectedDigest := d\<rparr>) = rt_store subtle E acc s"
  by (simp_all add: rt_store_def)

lemma rt_inv_sent:
  assumes inv: "rt_inv subtle pok E acc s" and d: "set_option d \<subseteq> E"
  shows "rt_inv subtle pok E acc (s\<lparr>rt_senderDone := True, rt_expectedDigest := d\<rparr>)"
  using assms by (simp add: rt_inv_def rt_files_def)

lemma rt_inv_handleControl:
  assumes "rt_inv subtle pok E acc s" "\<And>i d. m = Sent i d \<Longrightarrow> set_option d \<subseteq> E"
  shows "rt_inv subtle pok E acc (rt_handleControl ops m s)"
proof (cases m)
  case (Sent i d)
  then show ?thesis using assms by (simp add: rt_handleControl_def rt_inv_tryComplete rt_inv_sent)
qed (simp_all add: rt_handleControl_def assms(1) rt_inv_markCancelled [OF assms(1)])

lemma rt_inv_message:
  assumes "rt_inv subtle pok E acc s" "msg_ok pok d"
  shows "rt_inv subtle pok E acc (rt_onMessage d s)"
proof (cases "tf_isTerminal s \<or> rt_sink s = None")
  case False
  let ?s = "s\<lparr>rt_inbox := rt_inbox s @ [d]\<rparr>"
  have "rt_files pok E acc ?s" using assms by (simp add: rt_inv_def rt_files_def)
  moreover have "rt_stage ?s" using assms(1) False by (simp add: rt_inv_def rt_stage_def tf_isTerminal_def)
  ultimately show ?thesis using assms(1) False by (simp add: rt_inv_def rt_onMessage_def)
qed (simp add: rt_onMessage_def assms(1))

lemma rt_inv_taken:
  assumes "rt_inv subtle pok E acc s" "set ds \<subseteq> set (rt_inbox s)"
  shows "rt_inv subtle pok E acc (s\<lparr>rt_inbox := ds\<rparr>)"
proof -
  have "rt_files pok E acc (s\<lparr>rt_inbox := ds\<rparr>)" using assms by (auto simp: rt_inv_def rt_files_def)
  moreover have "rt_stage (s\<lparr>rt_inbox := ds\<rparr>)" using assms by (auto simp: rt_inv_def rt_stage_def tf_isTerminal_def)
  ultimately show ?thesis using assms(1) by (simp add: rt_inv_def)
qed

end

lemma job_seqs_append [simp]: "job_seqs (js @ js') = job_seqs js @ job_seqs js'"
  by (induction js rule: job_seqs.induct) simp_all

lemma queued_seqs_append [simp]: "queued_seqs (js @ js') = queued_seqs js @ queued_seqs js'"
  by (induction js rule: queued_seqs.induct) simp_all

lemma queued_job_seqs: "set (queued_seqs js) \<subseteq> set (job_seqs js)"
  by (induction js rule: queued_seqs.induct) auto

lemma all_queued_seqs: "(\<forall>j \<in> set js. is_queued j) \<Longrightarrow> queued_seqs js = job_seqs js"
  by (induction js rule: queued_seqs.induct) auto

lemma all_queued_lost: "(\<forall>j \<in> set js. is_queued j) \<Longrightarrow> \<not> job_lost js"
  by (force simp: job_lost_def)

lemma job_ok_cong: "job_ok acc j \<Longrightarrow> set (job_seqs [j]) \<subseteq> W \<Longrightarrow> (\<And>q. q \<in> W \<Longrightarrow> acc' q = acc q) \<Longrightarrow> job_ok acc' j"
  by (cases j) auto

lemma job_seqs_mem: "j \<in> set js \<Longrightarrow> set (job_seqs [j]) \<subseteq> set (job_seqs js)"
  by (induction js rule: job_seqs.induct) auto

context storage_sink
begin

text \<open>A fresh chunk: counted, and queued for writing.\<close>

lemma rt_inv_fresh:
  assumes inv: "rt_inv subtle pok E acc s" and sink: "rt_sink s \<noteq> None"
    and seq: "seq < tf_totalChunks s" "seq \<notin> set (rt_received s)" "pok seq payload"
    and len: "length payload \<le> tf_chunkSize s" "seq * tf_chunkSize s + length payload \<le> fm_size (tf_metadata s)"
  defines "s' \<equiv> s\<lparr>rt_received := rt_received s @ [seq], tf_transferredChunks := tf_transferredChunks s + 1,
      tf_transferredBytes := tf_transferredBytes s + length payload, rt_chain := rt_chain s @ [Queued seq payload]\<rparr>"
  shows "rt_inv subtle pok E (acc(seq := payload)) s'"
proof -
  let ?acc = "acc(seq := payload)"
  have parts: "rt_files pok E acc s" "rt_jobs acc s" "rt_stage s" "rt_ended s" "rt_store subtle E acc s" using inv by (auto simp: rt_inv_def)
  have same: "?acc q = acc q" if "q \<in> set (rt_received s)" for q using that seq(2) by auto
  have ph: "rt_phase s = CpNone" using parts(2) seq(1,2) by (auto simp: rt_jobs_def)
  have sub: "set (job_seqs (rt_chain s)) \<subseteq> set (rt_received s)" using parts(2) by (simp add: rt_jobs_def)
  have files: "rt_files pok E ?acc s'"
  proof -
    have sum: "(\<Sum>q \<leftarrow> rt_received s. length (?acc q)) = tf_transferredBytes s"
      using same parts(1) unfolding rt_files_def by (metis (no_types, lifting) map_eq_conv)
    have old: "\<forall>q \<in> set (rt_received s). pok q (?acc q) \<and> length (?acc q) \<le> tf_chunkSize s \<and> q * tf_chunkSize s + length (?acc q) \<le> fm_size (tf_metadata s)"
      using parts(1) same unfolding rt_files_def by metis
    show ?thesis unfolding rt_files_def
    proof (intro conjI)
      show "\<forall>q \<in> set (rt_received s'). pok q (?acc q) \<and> length (?acc q) \<le> tf_chunkSize s' \<and> q * tf_chunkSize s' + length (?acc q) \<le> fm_size (tf_metadata s')"
        using old seq(3) len by (simp add: s'_def)
      show "tf_transferredBytes s' = (\<Sum>q \<leftarrow> rt_received s'. length (?acc q))" using sum by (simp add: s'_def)
    qed (use parts(1) seq(1,2) in \<open>simp_all add: s'_def rt_files_def\<close>)
  qed
  have "job_ok ?acc j" if "j \<in> set (rt_chain s)" for j
  proof (rule job_ok_cong)
    show "job_ok acc j" using that parts(2) by (simp add: rt_jobs_def)
    show "set (job_seqs [j]) \<subseteq> set (rt_received s)" using job_seqs_mem [OF that] sub by (rule subset_trans)
  qed (rule same)
  moreover have "set (tl (rt_chain s @ [Queued seq payload])) \<subseteq> insert (Queued seq payload) (set (tl (rt_chain s)))"
    by (cases "rt_chain s") auto
  ultimately have jobs: "rt_jobs ?acc s'"
    using parts(2) seq(2) sub ph unfolding s'_def rt_jobs_def by auto
  have stage: "rt_stage s'" "rt_ended s'"
    using parts(3,4) sink by (simp_all add: s'_def rt_stage_def rt_ended_def tf_isTerminal_def)
  have sound: "rt_sound s' = rt_sound s" by (auto simp: s'_def rt_sound_def tf_isTerminal_def job_lost_def)
  let ?W = "set (rt_received s) - set (job_seqs (rt_chain s))" and ?V = "set (rt_received s) - set (queued_seqs (rt_chain s))"
  have W: "set (rt_received s') - set (job_seqs (rt_chain s')) = ?W" "set (rt_received s') - set (queued_seqs (rt_chain s')) = ?V"
    using seq(2) sub queued_job_seqs [of "rt_chain s"] by (auto simp: s'_def)
  have f: "rt_phase s' = CpNone" "rt_sink s' = rt_sink s" "tf_metadata s' = tf_metadata s" "tf_chunkSize s' = tf_chunkSize s"
    "rt_digest s' = rt_digest s" "tf_state s' = tf_state s" using ph by (simp_all add: s'_def)
  have "placed (tf_chunkSize s) ?acc ?W k = placed (tf_chunkSize s) acc ?W k" for k
    by (rule placed_cong) (use same in auto)
  moreover have "digests_of subtle ?acc ?V ds" if "digests_of subtle acc ?V ds" for ds
    by (rule digests_of_cong [OF _ that]) (use same in auto)
  ultimately have "rt_store subtle E ?acc s'"
    using parts(4,5) ph unfolding rt_store_def W sound f rt_ended_def by auto
  then show ?thesis using files jobs stage by (simp add: rt_inv_def)
qed

lemma rt_inv_frame:
  assumes inv: "rt_inv subtle pok E acc s" and pok: "pok seq payload" and sink: "rt_sink s \<noteq> None"
  shows "\<exists>acc'. rt_inv subtle pok E acc' (rt_frame ops seq payload s)"
proof (cases "seq \<ge> tf_totalChunks s \<or> length payload > tf_chunkSize s \<or> seq * tf_chunkSize s + length payload > fm_size (tf_metadata s) \<or> seq \<in> set (rt_received s)")
  case True
  then show ?thesis using inv rt_inv_fail [OF inv] by (auto simp: rt_frame_def rt_badFrame_def)
next
  case False
  then have ok: "seq < tf_totalChunks s" "length payload \<le> tf_chunkSize s" "seq * tf_chunkSize s + length payload \<le> fm_size (tf_metadata s)"
    "seq \<notin> set (rt_received s)" by auto
  let ?t = "s\<lparr>rt_received := rt_received s @ [seq], tf_transferredChunks := tf_transferredChunks s + 1,
      tf_transferredBytes := tf_transferredBytes s + length payload, rt_chain := rt_chain s @ [Queued seq payload]\<rparr>"
  let ?u = "s\<lparr>rt_received := rt_received s @ [seq], tf_transferredChunks := tf_transferredChunks s + 1,
      tf_transferredBytes := tf_transferredBytes s + length payload\<rparr>"
  have "rt_inv subtle pok E (acc(seq := payload)) (tf_emit (Progress (tf_progress ?u)) ?t)"
    by (rule rt_inv_emit [OF rt_inv_fresh [OF inv sink ok(1,4) pok ok(2,3)]])
  moreover have "rt_enqueueChunk seq payload (tf_emitProgress ?u) = tf_emit (Progress (tf_progress ?u)) ?t"
    using sink by (auto simp: rt_enqueueChunk_def tf_emitProgress_def tf_emit_def)
  moreover have "js_add seq (rt_received s) = rt_received s @ [seq]" using ok(4) by (simp add: js_add_def)
  ultimately have "rt_inv subtle pok E (acc(seq := payload)) (rt_frame ops seq payload s)"
    using ok rt_inv_tryComplete by (simp add: rt_frame_def Let_def)
  then show ?thesis by blast
qed

lemma rt_inv_decode:
  assumes inv: "rt_inv subtle pok E acc s"
  shows "\<exists>acc'. rt_inv subtle pok E acc' (rt_decode ops j s)"
proof (cases "j < length (rt_inbox s)")
  case False
  then show ?thesis using inv by (auto simp: rt_decode_def)
next
  case True
  let ?ds = "take j (rt_inbox s) @ drop (Suc j) (rt_inbox s)" and ?d = "rt_inbox s ! j"
  have "set ?ds \<subseteq> set (rt_inbox s)" by (auto dest: in_set_takeD in_set_dropD)
  then have inv0: "rt_inv subtle pok E acc (s\<lparr>rt_inbox := ?ds\<rparr>)" by (rule rt_inv_taken [OF inv])
  have ok: "msg_ok pok ?d" using inv True by (simp add: rt_inv_def rt_files_def)
  have sink: "rt_sink s \<noteq> None" using rt_inv_stage [OF inv] True by (auto simp: rt_stage_def)
  show ?thesis
  proof (cases "case toArrayBuffer ?d of Inl e \<Rightarrow> Inl e | Inr buf \<Rightarrow> decodeFrame buf")
    case (Inl e)
    then show ?thesis using True rt_inv_fail [OF inv0] by (auto simp: rt_decode_def Let_def)
  next
    case (Inr p)
    then obtain seq payload where p: "p = (seq, payload)" by fastforce
    have "pok seq payload" using Inr p ok by (auto simp: msg_ok_def split: sum.splits)
    then have "\<exists>acc'. rt_inv subtle pok E acc' (rt_frame ops seq payload (s\<lparr>rt_inbox := ?ds\<rparr>))"
      using sink by (intro rt_inv_frame [OF inv0]) simp_all
    then show ?thesis using Inr p True by (simp add: rt_decode_def Let_def)
  qed
qed

end

context storage_sink
begin

lemma rt_storeI:
  assumes "\<And>k. rt_sound s \<Longrightarrow> rt_phase s \<in> {CpNone, CpChain} \<or> (\<exists>l. rt_phase s = CpDigest l) \<Longrightarrow> rt_sink s = Some k \<Longrightarrow>
      ready (fm_size (tf_metadata s)) k \<and> placed (tf_chunkSize s) acc (set (rt_received s) - set (job_seqs (rt_chain s))) k"
    and "\<And>ds. rt_sound s \<Longrightarrow> rt_digest s = Some ds \<Longrightarrow> digests_of subtle acc (set (rt_received s) - set (queued_seqs (rt_chain s))) ds"
    and "\<And>l. rt_sound s \<Longrightarrow> rt_phase s = CpDigest l \<Longrightarrow> \<exists>ds. rt_digest s = Some ds \<and> dg_finalize subtle ds = Inr l"
    and "\<And>r. rt_sound s \<Longrightarrow> rt_phase s = CpClose (Inr r) \<Longrightarrow> delivered subtle E acc r s"
    and "tf_state s = Completed \<Longrightarrow> \<exists>r. rt_result s = Some r \<and> delivered subtle E acc r s"
  shows "rt_store subtle E acc s"
  using assms unfolding rt_store_def by blast

lemma rt_storeD:
  assumes "rt_store subtle E acc s"
  shows "rt_sound s \<Longrightarrow> rt_phase s \<in> {CpNone, CpChain} \<or> (\<exists>l. rt_phase s = CpDigest l) \<Longrightarrow> rt_sink s = Some k \<Longrightarrow>
      ready (fm_size (tf_metadata s)) k \<and> placed (tf_chunkSize s) acc (set (rt_received s) - set (job_seqs (rt_chain s))) k"
    and "rt_sound s \<Longrightarrow> rt_digest s = Some ds \<Longrightarrow> digests_of subtle acc (set (rt_received s) - set (queued_seqs (rt_chain s))) ds"
    and "rt_sound s \<Longrightarrow> rt_phase s = CpDigest l \<Longrightarrow> \<exists>ds. rt_digest s = Some ds \<and> dg_finalize subtle ds = Inr l"
    and "rt_sound s \<Longrightarrow> rt_phase s = CpClose (Inr r) \<Longrightarrow> delivered subtle E acc r s"
    and "tf_state s = Completed \<Longrightarrow> \<exists>r. rt_result s = Some r \<and> delivered subtle E acc r s"
  using assms unfolding rt_store_def by blast+

text \<open>Taking the head off the chain keeps the books; what the sink holds is another matter.\<close>

lemma rt_drop_head:
  assumes inv: "rt_inv subtle pok E acc s" and ch: "rt_chain s = j # rest"
  shows "rt_files pok E acc (s\<lparr>rt_chain := rest\<rparr>)" "rt_jobs acc (s\<lparr>rt_chain := rest\<rparr>)" "rt_stage (s\<lparr>rt_chain := rest\<rparr>)"
    "\<forall>i \<in> set rest. is_queued i" "rt_phase s \<in> {CpNone, CpChain}" "rt_sink s \<noteq> None" "tf_state s \<noteq> Completed"
proof -
  have parts: "rt_files pok E acc s" "rt_jobs acc s" "rt_stage s" "rt_ended s" using inv by (auto simp: rt_inv_def)
  show "rt_files pok E acc (s\<lparr>rt_chain := rest\<rparr>)" using parts(1) by (simp add: rt_files_def)
  show q: "\<forall>i \<in> set rest. is_queued i" using parts(2) ch by (simp add: rt_jobs_def)
  show ph: "rt_phase s \<in> {CpNone, CpChain}" using parts(2) ch by (auto simp: rt_jobs_def)
  show sk: "rt_sink s \<noteq> None" using parts(3) ch by (auto simp: rt_stage_def)
  show "rt_stage (s\<lparr>rt_chain := rest\<rparr>)" using parts(3) sk by (auto simp: rt_stage_def tf_isTerminal_def)
  show "tf_state s \<noteq> Completed" using parts(4) ph by (auto simp: rt_ended_def)
  have "\<forall>i \<in> set (tl rest). is_queued i" using q by (cases rest) auto
  moreover have "distinct (job_seqs rest)" "set (job_seqs rest) \<subseteq> set (job_seqs (j # rest))" using parts(2) ch by (cases j; auto simp: rt_jobs_def)+
  ultimately show "rt_jobs acc (s\<lparr>rt_chain := rest\<rparr>)"
    using parts(2) ch ph by (auto simp: rt_jobs_def)
qed

lemma rt_inv_writeFailed:
  assumes inv: "rt_inv subtle pok E acc s" and ch: "rt_chain s = j # rest"
  shows "rt_inv subtle pok E acc (rt_writeFailed ops e (s\<lparr>rt_chain := rest\<rparr>))"
proof -
  define t where "t = s\<lparr>rt_chain := rest\<rparr>"
  define u where "u = rt_writeFailed ops e t"
  note d = rt_drop_head [OF inv ch, folded t_def]
  have core: "rt_core u = rt_core t" by (simp add: u_def rt_writeFailed_def)
  have st: "tf_isTerminal u" "rt_sink u \<noteq> None" "tf_state u \<noteq> Completed" "tf_state u \<noteq> Offered" "(rt_digest u \<noteq> None) = rt_checksum u"
    using d(3,6,7) rt_coreD [OF core]
    by (auto simp: u_def rt_writeFailed_def t_def rt_stage_def terminal_simps split: if_splits)
  have "rt_stage u" using st by (auto simp: rt_stage_def)
  then have "rt_inv subtle pok E acc u"
    using d(1,2) st(1,3) rt_files_core [OF core] rt_jobs_core [OF core] by (intro rt_inv_end) auto
  then show ?thesis by (simp add: u_def t_def)
qed

lemma rt_inv_callWrite:
  assumes inv: "rt_inv subtle pok E acc s" and ch: "rt_chain s = j # rest" and j: "job_seqs [j] = [seq]" "queued_seqs [j] = [] \<or> rt_digest s = None"
    and nl: "\<And>e. j \<noteq> Writing (Some e)"
  shows "rt_inv subtle pok E acc (rt_callWrite ops seq (acc seq) rest s)"
proof -
  note d = rt_drop_head [OF inv ch]
  obtain k where k: "rt_sink s = Some k" using d(6) by blast
  have parts: "rt_files pok E acc s" "rt_jobs acc s" "rt_stage s" "rt_ended s" "rt_store subtle E acc s" using inv by (auto simp: rt_inv_def)
  have sq: "job_seqs (rt_chain s) = seq # job_seqs rest" using j(1) ch job_seqs_append [of "[j]" rest] by simp
  have len: "seq \<in> set (rt_received s)" "seq \<notin> set (job_seqs rest)"
    using parts(2) sq by (auto simp: rt_jobs_def)
  define W where "W = set (rt_received s) - set (job_seqs (rt_chain s))"
  have W: "set (rt_received s) - set (job_seqs rest) = insert seq W" "seq \<notin> W" using len sq by (auto simp: W_def)
  have bound: "length (acc q) \<le> tf_chunkSize s \<and> q * tf_chunkSize s + length (acc q) \<le> fm_size (tf_metadata s)" if "q \<in> set (rt_received s)" for q
    using that parts(1) by (simp add: rt_files_def)
  have inv': "rt_inv subtle pok E acc (s\<lparr>rt_sink := Some x, rt_chain := Writing w # rest\<rparr>)" (is "rt_inv _ _ _ _ ?t")
    if store: "w = None \<longrightarrow> rt_sound s \<longrightarrow> ready (fm_size (tf_metadata s)) x \<and> placed (tf_chunkSize s) acc (insert seq W) x" for x w
  proof -
    have files: "rt_files pok E acc ?t" using parts(1) by (simp add: rt_files_def)
    have jobs: "rt_jobs acc ?t" using d(2,4,5) by (auto simp: rt_jobs_def)
    have stage: "rt_stage ?t" "rt_ended ?t" using parts(3,4) k by (simp_all add: rt_stage_def rt_ended_def tf_isTerminal_def)
    have snd: "rt_sound ?t \<Longrightarrow> rt_sound s \<and> w = None"
      using nl ch all_queued_lost [OF d(4)] by (cases w) (auto simp: rt_sound_def tf_isTerminal_def job_lost_def)
    have q: "queued_seqs (Writing w # rest) = queued_seqs rest" by simp
    have qs: "rt_digest s = None \<or> queued_seqs (rt_chain s) = queued_seqs rest"
      using j(2) ch queued_seqs_append [of "[j]" rest] by auto
    have "rt_store subtle E acc ?t"
    proof (rule rt_storeI)
      fix y assume a: "rt_sound ?t" "rt_sink ?t = Some y"
      then show "ready (fm_size (tf_metadata ?t)) y \<and> placed (tf_chunkSize ?t) acc (set (rt_received ?t) - set (job_seqs (rt_chain ?t))) y"
        using store snd [OF a(1)] W(1) by simp
    next
      fix ds assume a: "rt_sound ?t" "rt_digest ?t = Some ds"
      then show "digests_of subtle acc (set (rt_received ?t) - set (queued_seqs (rt_chain ?t))) ds"
        using rt_storeD(2) [OF parts(5), of ds] snd [OF a(1)] qs by simp
    qed (use d(5,7) in auto)
    then show ?thesis using files jobs stage by (simp add: rt_inv_def)
  qed
  show ?thesis
  proof (cases "sk_write ops (seq * tf_chunkSize s) (acc seq) k")
    case (Inl e)
    have "rt_callWrite ops seq (acc seq) rest s = s\<lparr>rt_sink := Some k, rt_chain := Writing (Some e) # rest\<rparr>"
      using k Inl by (simp add: rt_callWrite_def)
    then show ?thesis using inv' [of "Some e" k] by (simp only:) simp
  next
    case (Inr k')
    have "ready (fm_size (tf_metadata s)) k' \<and> placed (tf_chunkSize s) acc (insert seq W) k'" if "rt_sound s"
    proof -
      have r: "ready (fm_size (tf_metadata s)) k" "placed (tf_chunkSize s) acc W k"
        using rt_storeD(1) [OF parts(5) that _ k] d(5) unfolding W_def by auto
      have b: "seq * tf_chunkSize s + length (acc seq) \<le> fm_size (tf_metadata s)" using bound [OF len(1)] by simp
      have l: "length (acc q) \<le> tf_chunkSize s" if "q \<in> insert seq W" for q using that bound len(1) by (auto simp: W_def)
      show ?thesis using write_ready [OF r(1) b Inr] placed_write [OF r W(2) l b Inr] by simp
    qed
    then show ?thesis using inv' [of None k'] Inr k by (simp add: rt_callWrite_def)
  qed
qed

lemma rt_inv_chainStep:
  assumes inv: "rt_inv subtle pok E acc s"
  shows "rt_inv subtle pok E acc (rt_chainStep ops subtle s)"
proof (cases "rt_chain s")
  case Nil
  then show ?thesis using inv by (simp add: rt_chainStep_def)
next
  case (Cons j rest)
  note d = rt_drop_head [OF inv Cons]
  have parts: "rt_files pok E acc s" "rt_jobs acc s" "rt_stage s" "rt_ended s" "rt_store subtle E acc s" using inv by (auto simp: rt_inv_def)
  have ok: "job_ok acc j" using parts(2) Cons by (simp add: rt_jobs_def)
  show ?thesis
  proof (cases j)
    case (Queued seq bs)
    have bs: "bs = acc seq" using ok Queued by simp
    show ?thesis
    proof (cases "tf_isTerminal s")
      case True
      have "rt_inv subtle pok E acc (s\<lparr>rt_chain := rest\<rparr>)"
        using d(1-3,7) True by (intro rt_inv_end) (simp_all add: tf_isTerminal_def)
      then show ?thesis using Cons Queued True by (simp add: rt_chainStep_def)
    next
      case False
      show ?thesis
      proof (cases "rt_digest s")
        case None
        then show ?thesis using Cons Queued False bs rt_inv_callWrite [OF inv Cons, of seq] by (simp add: rt_chainStep_def)
      next
        case (Some ds)
        show ?thesis
        proof (cases "dg_update subtle seq bs ds")
          case (Inl e)
          then show ?thesis using Cons Queued False Some rt_inv_writeFailed [OF inv Cons] by (simp add: rt_chainStep_def)
        next
          case (Inr ds')
          let ?t = "s\<lparr>rt_digest := Some ds', rt_chain := Hashed seq bs # rest\<rparr>"
          have files: "rt_files pok E acc ?t" using parts(1) by (simp add: rt_files_def)
          have jobs: "rt_jobs acc ?t" using parts(2) Cons Queued d(5) by (auto simp: rt_jobs_def)
          have stage: "rt_stage ?t" "rt_ended ?t" using parts(3,4) d(6) Some by (auto simp: rt_stage_def rt_ended_def tf_isTerminal_def)
          have snd: "rt_sound ?t \<Longrightarrow> rt_sound s"
            using Cons Queued by (auto simp: rt_sound_def tf_isTerminal_def job_lost_def)
          have dist: "seq \<in> set (rt_received s)" "seq \<notin> set (queued_seqs rest)"
            using parts(2) Cons Queued queued_job_seqs [of rest] by (auto simp: rt_jobs_def)
          have dg: "digests_of subtle acc (set (rt_received s) - set (queued_seqs rest)) ds'" if "rt_sound s"
          proof -
            have "digests_of subtle acc (set (rt_received s) - insert seq (set (queued_seqs rest))) ds"
              using rt_storeD(2) [OF parts(5) that Some] Cons Queued by simp
            from digests_of_update [OF this, of seq ds'] Inr bs have "digests_of subtle acc (insert seq (set (rt_received s) - insert seq (set (queued_seqs rest)))) ds'" by simp
            moreover have "insert seq (set (rt_received s) - insert seq (set (queued_seqs rest))) = set (rt_received s) - set (queued_seqs rest)"
              using dist by blast
            ultimately show ?thesis by simp
          qed
          have "rt_store subtle E acc ?t"
          proof (rule rt_storeI)
            fix y assume a: "rt_sound ?t" "rt_sink ?t = Some y"
            then show "ready (fm_size (tf_metadata ?t)) y \<and> placed (tf_chunkSize ?t) acc (set (rt_received ?t) - set (job_seqs (rt_chain ?t))) y"
              using rt_storeD(1) [OF parts(5) snd [OF a(1)] disjI1 [OF d(5)], of y] Cons Queued by simp
          next
            fix xs assume a: "rt_sound ?t" "rt_digest ?t = Some xs"
            then show "digests_of subtle acc (set (rt_received ?t) - set (queued_seqs (rt_chain ?t))) xs"
              using dg [OF snd [OF a(1)]] by simp
          qed (use d(5,7) in auto)
          then have "rt_inv subtle pok E acc ?t" using files jobs stage by (simp add: rt_inv_def)
          then show ?thesis using Cons Queued False Some Inr by (simp add: rt_chainStep_def)
        qed
      qed
    qed
  next
    case (Hashed seq bs)
    then show ?thesis using Cons ok rt_inv_callWrite [OF inv Cons, of seq] by (simp add: rt_chainStep_def)
  next
    case (Writing w)
    show ?thesis
    proof (cases w)
      case None
      have snd: "rt_sound (s\<lparr>rt_chain := rest\<rparr>) \<Longrightarrow> rt_sound s"
        using Cons Writing None by (auto simp: rt_sound_def tf_isTerminal_def job_lost_def)
      have "rt_store subtle E acc (s\<lparr>rt_chain := rest\<rparr>)" (is "rt_store _ _ _ ?t")
      proof (rule rt_storeI)
        fix y assume a: "rt_sound ?t" "rt_sink ?t = Some y"
        then show "ready (fm_size (tf_metadata ?t)) y \<and> placed (tf_chunkSize ?t) acc (set (rt_received ?t) - set (job_seqs (rt_chain ?t))) y"
          using rt_storeD(1) [OF parts(5) snd [OF a(1)] disjI1 [OF d(5)], of y] Cons Writing by simp
      next
        fix xs assume a: "rt_sound ?t" "rt_digest ?t = Some xs"
        then show "digests_of subtle acc (set (rt_received ?t) - set (queued_seqs (rt_chain ?t))) xs"
          using rt_storeD(2) [OF parts(5) snd [OF a(1)], of xs] Cons Writing by simp
      qed (use d(5,7) in auto)
      then have "rt_inv subtle pok E acc (s\<lparr>rt_chain := rest\<rparr>)" using d(1-3) parts(4) by (simp add: rt_inv_def rt_ended_def)
      then show ?thesis using Cons Writing None by (simp add: rt_chainStep_def)
    next
      case (Some e)
      then show ?thesis using Cons Writing rt_inv_writeFailed [OF inv Cons] by (simp add: rt_chainStep_def)
    qed
  qed
qed

end

context storage_sink
begin

text \<open>Once the chain is empty and every chunk is there, the phase may move on.\<close>

lemma rt_inv_phase:
  assumes inv: "rt_inv subtle pok E acc s" and ch: "rt_chain s = []" "rt_phase s \<noteq> CpNone" "tf_state s \<noteq> Completed"
    and new: "ph \<notin> {CpNone, CpChain}"
    and dig: "\<And>l. ph = CpDigest l \<Longrightarrow> rt_sound s \<Longrightarrow> rt_phase s = CpChain \<and> (\<exists>ds. rt_digest s = Some ds \<and> dg_finalize subtle ds = Inr l)"
    and keep: "(\<exists>l. ph = CpDigest l) \<Longrightarrow> rt_sink s = Some k"
    and cls: "\<And>r. ph = CpClose (Inr r) \<Longrightarrow> rt_sound s \<Longrightarrow> delivered subtle E acc r s"
  shows "rt_inv subtle pok E acc (s\<lparr>rt_sink := (if rt_sink s = None then None else Some k), rt_phase := ph\<rparr>)"
proof -
  let ?t = "s\<lparr>rt_sink := (if rt_sink s = None then None else Some k), rt_phase := ph\<rparr>"
  have parts: "rt_files pok E acc s" "rt_jobs acc s" "rt_stage s" "rt_ended s" "rt_store subtle E acc s" using inv by (auto simp: rt_inv_def)
  have sk: "rt_sink s \<noteq> None" using parts(3) ch(2) by (auto simp: rt_stage_def)
  have snd: "rt_sound ?t = rt_sound s" by (simp add: rt_sound_def tf_isTerminal_def)
  have del: "delivered subtle E acc r ?t = delivered subtle E acc r s" for r by (simp add: delivered_def)
  have "rt_files pok E acc ?t" using parts(1) by (simp add: rt_files_def)
  moreover have "rt_jobs acc ?t" using parts(2) ch new by (auto simp: rt_jobs_def)
  moreover have "rt_stage ?t" "rt_ended ?t" using parts(3) sk ch(3) by (auto simp: rt_stage_def rt_ended_def tf_isTerminal_def)
  moreover have "rt_store subtle E acc ?t"
  proof (rule rt_storeI)
    fix y assume a: "rt_sound ?t" "rt_phase ?t \<in> {CpNone, CpChain} \<or> (\<exists>l. rt_phase ?t = CpDigest l)" "rt_sink ?t = Some y"
    then obtain l where l: "ph = CpDigest l" using new by auto
    have p: "rt_phase s = CpChain" using dig [OF l] a(1) snd by simp
    then show "ready (fm_size (tf_metadata ?t)) y \<and> placed (tf_chunkSize ?t) acc (set (rt_received ?t) - set (job_seqs (rt_chain ?t))) y"
      using rt_storeD(1) [OF parts(5), of k] a(1,3) snd keep l by simp
  next
    show "digests_of subtle acc (set (rt_received ?t) - set (queued_seqs (rt_chain ?t))) ds" if "rt_sound ?t" "rt_digest ?t = Some ds" for ds
      using rt_storeD(2) [OF parts(5), of ds] that snd by simp
    show "\<exists>ds. rt_digest ?t = Some ds \<and> dg_finalize subtle ds = Inr l" if "rt_sound ?t" "rt_phase ?t = CpDigest l" for l
      using dig [of l] that snd by simp
    show "delivered subtle E acc r ?t" if "rt_sound ?t" "rt_phase ?t = CpClose (Inr r)" for r using cls [of r] that snd del by simp
  qed (use ch(3) in simp)
  ultimately show ?thesis by (simp add: rt_inv_def)
qed

lemma rt_inv_over:
  assumes "rt_inv subtle pok E acc s" "rt_chain s = []" "rt_phase s \<noteq> CpNone" "tf_state s \<noteq> Completed"
    and "ph = CpOver \<or> (\<exists>e. ph = CpClose (Inl e))"
  shows "rt_inv subtle pok E acc (s\<lparr>rt_phase := ph\<rparr>)"
proof -
  obtain k where "rt_sink s = Some k" using assms(1,3) by (auto simp: rt_inv_def rt_stage_def)
  then have "s\<lparr>rt_phase := ph\<rparr> = s\<lparr>rt_sink := (if rt_sink s = None then None else Some k), rt_phase := ph\<rparr>" by simp
  moreover have "rt_inv subtle pok E acc (s\<lparr>rt_sink := (if rt_sink s = None then None else Some k), rt_phase := ph\<rparr>)"
    using assms(5) by (intro rt_inv_phase [OF assms(1-4)]) auto
  ultimately show ?thesis by (simp only:)
qed

lemma rt_inv_mismatch:
  assumes inv: "rt_inv subtle pok E acc s" and ch: "rt_chain s = []" "rt_phase s \<noteq> CpNone" "tf_state s \<noteq> Completed"
  shows "rt_inv subtle pok E acc (rt_mismatch ops msg s)"
proof -
  let ?s0 = "s\<lparr>rt_phase := CpOver\<rparr>"
  have inv0: "rt_inv subtle pok E acc ?s0" by (rule rt_inv_over [OF assms]) simp
  show ?thesis
  proof (cases "tf_sendControl (ChecksumMismatchMsg (tf_id ?s0)) ?s0")
    case None
    then show ?thesis using inv0 by (simp add: rt_mismatch_def Let_def)
  next
    case (Some s1)
    have inv1: "rt_inv subtle pok E acc s1" by (rule rt_inv_send [OF inv0 Some])
    let ?s2 = "rt_fail ops (FtError msg ChecksumMismatch (Some (tf_id ?s0))) False (rt_abortSink ops s1)"
    have "rt_inv subtle pok E acc ?s2"
    proof (rule rt_inv_control [OF inv1])
      show "tf_state ?s2 = tf_state s1 \<or> (\<exists>n. tf_state ?s2 = n \<and> ft_edge (tf_state s1) n \<and> n \<noteq> Completed \<and> n \<noteq> Offered \<and>
          (rt_opening ?s2 = None \<or> n \<in> set TERMINAL \<or> n = Accepted) \<and> (rt_sink s1 = None \<longrightarrow> n \<in> set TERMINAL))"
        by (auto simp: ft_edge_def tf_isTerminal_def TERMINAL_def)
    qed simp_all
    then show ?thesis using Some by (simp add: rt_mismatch_def Let_def)
  qed
qed

lemma rt_inv_close:
  assumes inv: "rt_inv subtle pok E acc s" and ch: "rt_chain s = []" "rt_phase s = CpChain \<or> (\<exists>l. rt_phase s = CpDigest l)" "tf_state s \<noteq> Completed"
    and dig: "rt_sound s \<Longrightarrow> rt_digest s = None \<or> (\<exists>ds d. rt_digest s = Some ds \<and> dg_finalize subtle ds = Inr d \<and> d \<in> E)"
  shows "rt_inv subtle pok E acc (rt_close ops s)"
proof -
  define s1 where "s1 = snd (rt_transitionTo ops Completing s)"
  have core: "rt_core s1 = rt_core s" by (simp add: s1_def)
  note c = rt_coreD [OF core]
  have stage: "rt_stage s" by (rule rt_inv_stage [OF inv])
  have edge: "ft_edge (tf_state s) Completing \<Longrightarrow> tf_state s = Active"
    by (cases "tf_state s") (auto simp: ft_edge_def TERMINAL_def)
  have inv1: "rt_inv subtle pok E acc s1"
  proof (cases "ft_edge (tf_state s) Completing")
    case True
    then show ?thesis unfolding s1_def using edge rt_stage_open [OF stage] by (intro rt_inv_transition [OF inv]) auto
  next
    case False
    then show ?thesis unfolding s1_def using rt_transitionTo_stay [OF False] inv by simp
  qed
  have sk: "rt_sink s1 = rt_sink s" unfolding s1_def by (rule rt_transitionTo_sink) (simp add: TERMINAL_def)
  obtain k where k: "rt_sink s = Some k" using stage ch(2) by (auto simp: rt_stage_def)
  have st1: "tf_state s1 \<noteq> Completed" using ch(3) by (auto simp: s1_def rt_transitionTo_state ft_move_def)
  have op: "rt_opening s1 = rt_opening s" by (simp add: s1_def)
  have tm: "tf_isTerminal s1 = tf_isTerminal s" by (auto simp: s1_def tf_isTerminal_def rt_transitionTo_state ft_move_def ft_edge_def TERMINAL_def)
  have snd: "rt_sound s1 = rt_sound s" using c op tm by (simp add: rt_sound_def)
  have full: "set (rt_received s) = {..<tf_totalChunks s}" using inv ch(2) by (auto simp: rt_inv_def rt_jobs_def)
  have store: "rt_store subtle E acc s" using inv by (simp add: rt_inv_def)
  have del: "delivered subtle E acc r s" if r: "sk_close ops k = Inr (r, k')" and s: "rt_sound s" for r k'
  proof -
    have "rt_phase s \<in> {CpNone, CpChain} \<or> (\<exists>l. rt_phase s = CpDigest l)" using ch(2) by auto
    from rt_storeD(1) [OF store s this k] have "ready (fm_size (tf_metadata s)) k" "placed (tf_chunkSize s) acc {..<tf_totalChunks s} k"
      using full ch(1) by auto
    moreover have "\<exists>ds d. digests_of subtle acc {..<tf_totalChunks s} ds \<and> dg_finalize subtle ds = Inr d \<and> d \<in> E" if "rt_checksum s"
      using dig [OF s] rt_storeD(2) [OF store s] stage k that full ch(1) by (auto simp: rt_stage_def)
    ultimately show ?thesis unfolding delivered_def using full r by blast
  qed
  have ph1: "rt_chain s1 = []" "rt_phase s1 \<noteq> CpNone" using ch(1,2) c by auto
  show ?thesis
  proof (cases "sk_close ops k")
    case (Inl e)
    have "rt_inv subtle pok E acc (s1\<lparr>rt_phase := CpClose (Inl e)\<rparr>)"
      by (rule rt_inv_over [OF inv1 ph1 st1]) simp
    then show ?thesis using Inl k sk by (simp add: rt_close_def Let_def s1_def)
  next
    case (Inr p)
    then obtain r k' where p: "p = (r, k')" by fastforce
    have "rt_inv subtle pok E acc (s1\<lparr>rt_sink := (if rt_sink s1 = None then None else Some k'), rt_phase := CpClose (Inr r)\<rparr>)"
      using del [of r k'] Inr p snd delivered_core [OF core] by (intro rt_inv_phase [OF inv1 ph1 st1]) auto
    then show ?thesis using Inr p k sk by (simp add: rt_close_def Let_def s1_def)
  qed
qed

lemma rt_inv_finish:
  assumes inv: "rt_inv subtle pok E acc s" and ch: "rt_phase s = CpClose (Inr r)"
  shows "rt_inv subtle pok E acc (rt_finish ops r s)"
proof -
  have parts: "rt_files pok E acc s" "rt_jobs acc s" "rt_stage s" "rt_ended s" "rt_store subtle E acc s" using inv by (auto simp: rt_inv_def)
  have st: "tf_state s \<noteq> Completed" "rt_chain s = []" using parts(2,4) ch by (auto simp: rt_ended_def rt_jobs_def)
  let ?s0 = "s\<lparr>rt_result := Some r, rt_sinkFinalized := True, rt_phase := CpOver\<rparr>"
  have invo: "rt_inv subtle pok E acc (s\<lparr>rt_phase := CpOver\<rparr>)" using rt_inv_over [OF inv st(2) _ st(1)] ch by auto
  have inv0: "rt_inv subtle pok E acc ?s0"
  proof -
    have "rt_files pok E acc ?s0" "rt_jobs acc ?s0" "rt_stage ?s0" "rt_ended ?s0"
      using invo by (simp_all add: rt_inv_def rt_files_def rt_jobs_def rt_stage_def rt_ended_def tf_isTerminal_def)
    moreover have "rt_store subtle E acc ?s0"
    proof (rule rt_storeI)
      show "digests_of subtle acc (set (rt_received ?s0) - set (queued_seqs (rt_chain ?s0))) ds" if "rt_sound ?s0" "rt_digest ?s0 = Some ds" for ds
        using rt_storeD(2) [OF parts(5), of ds] that by (simp add: rt_sound_def tf_isTerminal_def)
    qed (use st(1) in auto)
    ultimately show ?thesis by (simp add: rt_inv_def)
  qed
  show ?thesis
  proof (cases "tf_sendControl (Complete (tf_id ?s0)) ?s0")
    case None
    then show ?thesis using inv0 by (simp add: rt_finish_def Let_def)
  next
    case (Some s1)
    have inv1: "rt_inv subtle pok E acc s1" by (rule rt_inv_send [OF inv0 Some])
    have e1: "s1 = tf_emit (Control (Complete (tf_id ?s0))) ?s0" using tf_sendControl_Some [OF Some] .
    define s2 where "s2 = snd (rt_transitionTo ops Completed s1)"
    have core: "rt_core s2 = rt_core s1" by (simp add: s2_def)
    have core1: "rt_core s1 = rt_core ?s0" by (simp add: e1)
    have "rt_inv subtle pok E acc s2"
    proof (cases "ft_edge (tf_state s1) Completed")
      case False
      then show ?thesis unfolding s2_def using rt_transitionTo_stay [OF False] inv1 by simp
    next
      case True
      then have s: "tf_state s = Completing" by (cases "tf_state s") (auto simp: e1 ft_edge_def TERMINAL_def)
      have snd: "rt_sound s"
        using s rt_stage_open [OF parts(3)] st(2) by (simp add: rt_sound_def terminal_simps job_lost_def)
      have d: "delivered subtle E acc r s" by (rule rt_storeD(4) [OF parts(5) snd ch])
      have d2: "delivered subtle E acc r s2"
        using d delivered_core [OF core] delivered_core [OF core1] by (simp add: delivered_def)
      have st2: "tf_state s2 = Completed" using True by (simp add: s2_def rt_transitionTo_state ft_move_def)
      have sk2: "rt_sink s2 = None \<longleftrightarrow> rt_sink s = None" "rt_opening s2 = None"
        using rt_stage_open [OF parts(3)] s by (simp_all add: s2_def e1)
      note c2 = rt_coreD [OF core] rt_coreD [OF core1]
      have "rt_files pok E acc s2" "rt_jobs acc s2" using inv1 rt_files_core [OF core] rt_jobs_core [OF core] by (auto simp: rt_inv_def)
      moreover have "rt_stage s2" using parts(3) s sk2 st2 c2 by (auto simp: rt_stage_def)
      moreover have "rt_ended s2" using c2 by (simp add: rt_ended_def)
      moreover have "rt_store subtle E acc s2"
        by (rule rt_storeI) (use st2 d2 c2 in \<open>auto simp: rt_sound_def terminal_simps\<close>)
      ultimately show ?thesis by (simp add: rt_inv_def)
    qed
    then have "rt_inv subtle pok E acc s2" "rt_inv subtle pok E acc (tf_emit (CompleteEv (tf_id s2)) s2)" by (auto intro: rt_inv_emit)
    then show ?thesis using Some unfolding s2_def by (auto simp: rt_finish_def Let_def split_def)
  qed
qed

lemma rt_inv_completeStep:
  assumes inv: "rt_inv subtle pok E acc s"
  shows "rt_inv subtle pok E acc (rt_completeStep ops subtle s)"
proof -
  have parts: "rt_files pok E acc s" "rt_jobs acc s" "rt_stage s" "rt_ended s" "rt_store subtle E acc s" using inv by (auto simp: rt_inv_def)
  show ?thesis
  proof (cases "rt_phase s")
    case CpChain
    then have nc: "tf_state s \<noteq> Completed" using parts(4) by (auto simp: rt_ended_def)
    have ne: "rt_phase s \<noteq> CpNone" using CpChain by simp
    show ?thesis
    proof (cases "rt_chain s \<noteq> []")
      case True
      then show ?thesis using inv CpChain by (simp add: rt_completeStep_def)
    next
      case False
      then have ch: "rt_chain s = []" by simp
      have cl: "rt_digest s = None \<Longrightarrow> rt_inv subtle pok E acc (rt_close ops s)"
        by (rule rt_inv_close [OF inv ch _ nc]) (simp_all add: CpChain)
      have dg: "rt_inv subtle pok E acc (s\<lparr>rt_phase := CpDigest l\<rparr>)" if "rt_digest s = Some ds" "dg_finalize subtle ds = Inr l" for ds l
      proof -
        obtain k where k: "rt_sink s = Some k" using parts(3) ne by (auto simp: rt_stage_def)
        have "s\<lparr>rt_phase := CpDigest l\<rparr> = s\<lparr>rt_sink := (if rt_sink s = None then None else Some k), rt_phase := CpDigest l\<rparr>" using k by simp
        moreover have "rt_inv subtle pok E acc (s\<lparr>rt_sink := (if rt_sink s = None then None else Some k), rt_phase := CpDigest l\<rparr>)"
          using CpChain that k by (intro rt_inv_phase [OF inv ch ne nc]) auto
        ultimately show ?thesis by (simp only:)
      qed
      show ?thesis
        using CpChain ch rt_inv_over [OF inv ch ne nc, of CpOver] rt_inv_mismatch [OF inv ch ne nc] cl dg
        by (auto simp: rt_completeStep_def split: option.splits sum.splits)
    qed
  next
    case (CpDigest l)
    then have nc: "tf_state s \<noteq> Completed" and ch: "rt_chain s = []" and ne: "rt_phase s \<noteq> CpNone"
      using parts(2,4) by (auto simp: rt_ended_def rt_jobs_def)
    have "rt_inv subtle pok E acc (rt_close ops s)" if "Some l = rt_expectedDigest s"
    proof (rule rt_inv_close [OF inv ch _ nc])
      have "l \<in> E" using parts(1) that [symmetric] by (simp add: rt_files_def)
      then show "rt_sound s \<Longrightarrow> rt_digest s = None \<or> (\<exists>ds d. rt_digest s = Some ds \<and> dg_finalize subtle ds = Inr d \<and> d \<in> E)"
        using rt_storeD(3) [OF parts(5) _ CpDigest] by blast
    qed (use CpDigest in simp)
    then show ?thesis using CpDigest rt_inv_mismatch [OF inv ch ne nc] by (simp add: rt_completeStep_def)
  next
    case (CpClose res)
    then have nc: "tf_state s \<noteq> Completed" and ch: "rt_chain s = []" and ne: "rt_phase s \<noteq> CpNone"
      using parts(2,4) by (auto simp: rt_ended_def rt_jobs_def)
    show ?thesis
      using CpClose rt_inv_finish [OF inv] rt_inv_fail [OF rt_inv_over [OF inv ch ne nc, of CpOver]]
      by (auto simp: rt_completeStep_def split: sum.splits)
  qed (use inv in \<open>simp_all add: rt_completeStep_def\<close>)
qed

end

section \<open>Runs\<close>

text \<open>What is assumed of the events: frames decode to payloads in \<open>pok\<close>, announced digests are in \<open>E\<close>.\<close>

fun rx_ok :: "(nat \<Rightarrow> bytes \<Rightarrow> bool) \<Rightarrow> string set \<Rightarrow> 'k rt_event \<Rightarrow> bool" where
  "rx_ok pok E (RxMessage d) \<longleftrightarrow> msg_ok pok d"
| "rx_ok pok E (RxControl (Sent i d)) \<longleftrightarrow> set_option d \<subseteq> E"
| "rx_ok pok E _ \<longleftrightarrow> True"

lemma rt_run_Cons [simp]: "rt_run ops subtle (ev # evs) s = rt_run ops subtle evs (rt_exec ops subtle ev s)"
  by (simp add: rt_run_def)

lemma rt_run_Nil [simp]: "rt_run ops subtle [] s = s"
  by (simp add: rt_run_def)

lemma rt_run_append: "rt_run ops subtle (xs @ ys) s = rt_run ops subtle ys (rt_run ops subtle xs s)"
  by (simp add: rt_run_def)

context storage_sink
begin

lemma rt_inv_new: "rt_inv subtle pok E acc (rt_new i p meta cs n checksum)"
  by (simp add: rt_new_def tf_new_def tf_transitionTo_def transfer.defs Let_def terminal_simps tf_emit_def rt_inv_def rt_files_def rt_jobs_def
      rt_stage_def rt_ended_def rt_store_def)

lemma rt_inv_exec:
  assumes inv: "rt_inv subtle pok E acc s" and ok: "rx_ok pok E ev"
  shows "\<exists>acc'. rt_inv subtle pok E acc' (rt_exec ops subtle ev s)"
proof -
  have "rt_inv subtle pok E acc (rt_attachChannel ch s)" for ch
    by (rule rt_inv_control [OF inv]) (simp_all add: rt_attachChannel_def rt_core_def)
  moreover have "rt_inv subtle pok E acc (s\<lparr>tf_linkUp := b\<rparr>)" for b
    by (rule rt_inv_control [OF inv]) (simp_all add: rt_core_def)
  moreover have "rt_inv subtle pok E acc (rt_handleControl ops m s)" if "ev = RxControl m" for m
    using ok that by (intro rt_inv_handleControl [OF inv]) simp
  ultimately show ?thesis
    using ok rt_inv_accept [OF inv] rt_inv_opened [OF inv] rt_inv_cancel [OF inv] rt_inv_pause [OF inv] rt_inv_message [OF inv]
      rt_inv_decode [OF inv] rt_inv_chainStep [OF inv] rt_inv_completeStep [OF inv]
    by (cases ev; simp add: rt_exec_def; blast)
qed

lemma rt_inv_run:
  "rt_inv subtle pok E acc s \<Longrightarrow> (\<And>ev. ev \<in> set evs \<Longrightarrow> rx_ok pok E ev) \<Longrightarrow> \<exists>acc'. rt_inv subtle pok E acc' (rt_run ops subtle evs s)"
proof (induction evs arbitrary: s acc)
  case (Cons ev evs)
  obtain acc' where "rt_inv subtle pok E acc' (rt_exec ops subtle ev s)" using rt_inv_exec [OF Cons.prems(1)] Cons.prems(2) by auto
  then show ?case using Cons.IH Cons.prems(2) by simp
qed auto

end

text \<open>What a transfer is created with stays.\<close>

definition rt_fixed where
  "rt_fixed s = (tf_metadata s, tf_chunkSize s, tf_totalChunks s, rt_checksum s)"

lemma rt_fixed_core: "rt_core s' = rt_core s \<Longrightarrow> rt_fixed s' = rt_fixed s"
  by (simp add: rt_fixed_def rt_coreD [of s' s])

lemma rt_fixed_update [simp]:
  "rt_fixed (s\<lparr>rt_sink := a\<rparr>) = rt_fixed s" "rt_fixed (s\<lparr>rt_opening := b\<rparr>) = rt_fixed s" "rt_fixed (s\<lparr>rt_digest := c\<rparr>) = rt_fixed s"
  "rt_fixed (s\<lparr>rt_chain := d\<rparr>) = rt_fixed s" "rt_fixed (s\<lparr>rt_phase := e\<rparr>) = rt_fixed s" "rt_fixed (s\<lparr>rt_inbox := f\<rparr>) = rt_fixed s"
  "rt_fixed (s\<lparr>rt_channels := g\<rparr>) = rt_fixed s" "rt_fixed (s\<lparr>tf_linkUp := h\<rparr>) = rt_fixed s" "rt_fixed (s\<lparr>rt_senderDone := i\<rparr>) = rt_fixed s"
  "rt_fixed (s\<lparr>rt_expectedDigest := j\<rparr>) = rt_fixed s" "rt_fixed (s\<lparr>rt_result := k\<rparr>) = rt_fixed s" "rt_fixed (s\<lparr>rt_sinkFinalized := l\<rparr>) = rt_fixed s"
  "rt_fixed (s\<lparr>rt_received := m\<rparr>) = rt_fixed s" "rt_fixed (s\<lparr>tf_transferredBytes := n\<rparr>) = rt_fixed s"
  "rt_fixed (s\<lparr>tf_transferredChunks := n\<rparr>) = rt_fixed s"
  by (simp_all add: rt_fixed_def)

lemma rt_fixed_helpers [simp]:
  "rt_fixed (rt_fail ops e b s) = rt_fixed s" "rt_fixed (tf_emit x s) = rt_fixed s" "rt_fixed (snd (rt_transitionTo ops n s)) = rt_fixed s"
  "rt_fixed (rt_abortSink ops s) = rt_fixed s"
  by (rule rt_fixed_core, simp)+

lemma rt_fixed_tryComplete [simp]: "rt_fixed (rt_tryComplete s) = rt_fixed s"
  by (simp add: rt_tryComplete_def)

lemma rt_fixed_send: "tf_sendControl m (s :: 'k receive_transfer) = Some s' \<Longrightarrow> rt_fixed s' = rt_fixed s"
  by (auto dest!: tf_sendControl_Some)

lemma rt_fixed_accept [simp]: "rt_fixed (rt_accept ops k s) = rt_fixed s"
  by (simp add: rt_accept_def Let_def split_def rt_fixed_send split: option.split sum.split)

lemma rt_fixed_opened [simp]: "rt_fixed (rt_opened ops s) = rt_fixed s"
  by (simp add: rt_opened_def Let_def split_def rt_fixed_send split: option.split sum.split)

lemma rt_fixed_attachChannel [simp]: "rt_fixed (rt_attachChannel ch s) = rt_fixed s"
  by (simp add: rt_attachChannel_def Let_def split_def rt_fixed_send split: option.split sum.split)

lemma rt_fixed_onMessage [simp]: "rt_fixed (rt_onMessage d s) = rt_fixed s"
  by (simp add: rt_onMessage_def Let_def split_def rt_fixed_send split: option.split sum.split)

lemma rt_fixed_markCancelled [simp]: "rt_fixed (rt_markCancelled ops r s) = rt_fixed s"
  by (simp add: rt_markCancelled_def Let_def split_def rt_fixed_send split: option.split sum.split)

lemma rt_fixed_callWrite [simp]: "rt_fixed (rt_callWrite ops q bs rest s) = rt_fixed s"
  by (simp add: rt_callWrite_def Let_def split_def rt_fixed_send split: option.split sum.split)

lemma rt_fixed_writeFailed [simp]: "rt_fixed (rt_writeFailed ops e s) = rt_fixed s"
  by (simp add: rt_writeFailed_def Let_def split_def rt_fixed_send split: option.split sum.split)

lemma rt_fixed_mismatch [simp]: "rt_fixed (rt_mismatch ops msg s) = rt_fixed s"
  by (simp add: rt_mismatch_def Let_def split_def rt_fixed_send split: option.split sum.split)

lemma rt_fixed_close [simp]: "rt_fixed (rt_close ops s) = rt_fixed s"
  by (simp add: rt_close_def Let_def split_def rt_fixed_send split: option.split sum.split)

lemma rt_fixed_enqueueChunk [simp]: "rt_fixed (rt_enqueueChunk q bs s) = rt_fixed s"
  by (simp add: rt_enqueueChunk_def Let_def split_def rt_fixed_send split: option.split sum.split)

lemma rt_fixed_emitProgress [simp]: "rt_fixed (tf_emitProgress (s :: 'k receive_transfer)) = rt_fixed s"
  by (simp add: tf_emitProgress_def Let_def split_def rt_fixed_send split: option.split sum.split)

lemma rt_fixed_finish [simp]: "rt_fixed (rt_finish ops r s) = rt_fixed s"
  by (simp add: rt_finish_def Let_def split_def rt_fixed_send split: option.split)

lemma rt_fixed_reject [simp]: "rt_fixed (snd (rt_reject ops r s)) = rt_fixed s"
  by (simp add: rt_reject_def Let_def rt_fixed_send split: option.split control_message.split)

lemma rt_fixed_handleControl [simp]: "rt_fixed (rt_handleControl ops m s) = rt_fixed s"
  by (simp add: rt_handleControl_def Let_def rt_fixed_send split: option.split control_message.split)

lemma rt_fixed_pause [simp]: "rt_fixed (snd (rt_pause ops s)) = rt_fixed s"
  by (simp add: rt_pause_def Let_def rt_fixed_send split: option.split control_message.split)

lemma rt_fixed_resume [simp]: "rt_fixed (snd (rt_resume ops s)) = rt_fixed s"
  by (simp add: rt_resume_def Let_def rt_fixed_send split: option.split control_message.split)

lemma rt_fixed_cancel [simp]: "rt_fixed (snd (rt_cancel ops r s)) = rt_fixed s"
  by (simp add: rt_cancel_def Let_def rt_fixed_send split: option.split control_message.split)

lemma rt_fixed_requestResume [simp]: "rt_fixed (snd (rt_requestResume s)) = rt_fixed s"
  by (simp add: rt_requestResume_def Let_def rt_fixed_send split: option.split control_message.split)

lemma rt_fixed_frame [simp]: "rt_fixed (rt_frame ops q bs s) = rt_fixed s"
  by (simp add: rt_frame_def rt_badFrame_def Let_def)

lemma rt_fixed_decode [simp]: "rt_fixed (rt_decode ops n s) = rt_fixed s"
  by (simp add: rt_decode_def Let_def split: sum.split)

lemma rt_fixed_chainStep [simp]: "rt_fixed (rt_chainStep ops subtle s) = rt_fixed s"
  by (simp add: rt_chainStep_def split: list.split write_job.split option.split sum.split)

lemma rt_fixed_completeStep [simp]: "rt_fixed (rt_completeStep ops subtle s) = rt_fixed s"
  by (simp add: rt_completeStep_def split: completion.split option.split sum.split)

lemma rt_fixed_exec [simp]: "rt_fixed (rt_exec ops subtle ev s) = rt_fixed s"
  by (cases ev) (simp_all add: rt_exec_def)

lemma rt_fixed_run [simp]: "rt_fixed (rt_run ops subtle evs s) = rt_fixed s"
  by (induction evs arbitrary: s) simp_all

lemma rt_fixed_new: "rt_fixed (rt_new i p meta cs n checksum) = (meta, cs, n, checksum)"
  by (simp add: rt_new_def tf_new_def tf_transitionTo_def transfer.defs Let_def terminal_simps tf_emit_def rt_fixed_def)

lemma rt_run_fixed:
  assumes "s = rt_run ops subtle evs (rt_new i p meta cs n checksum)"
  shows "tf_metadata s = meta" "tf_chunkSize s = cs" "tf_totalChunks s = n" "rt_checksum s = checksum"
proof -
  have "rt_fixed s = (meta, cs, n, checksum)" by (simp add: assms rt_fixed_new)
  then show "tf_metadata s = meta" "tf_chunkSize s = cs" "tf_totalChunks s = n" "rt_checksum s = checksum" by (simp_all add: rt_fixed_def)
qed

end
