(* ===== verification/FtIntegrity.thy ===== *)
theory FtIntegrity
  imports FtReceiveInv
begin

text \<open>
  What the invariant of the receiver gives for the memory sink: integrity of completed files and bounds against hostile senders. Then, for every
  sink, what a pause or a cancellation at the end of a transfer leaves undone, which differs from what the code documents.
\<close>

section \<open>Integrity of what is received\<close>

lemma memory_delivered:
  assumes r: "memory.delivered subtle E acc r s" and files: "rt_files pok E acc s"
  obtains b where "r = \<lparr>sr_bytes = Some b, sr_path = None\<rparr>" "length b = fm_size (tf_metadata s)"
    "\<And>seq j. seq < tf_totalChunks s \<Longrightarrow> j < length (acc seq) \<Longrightarrow> b ! (seq * tf_chunkSize s + j) = acc seq ! j"
    "\<And>seq. seq < tf_totalChunks s \<Longrightarrow> pok seq (acc seq) \<and> seq * tf_chunkSize s + length (acc seq) \<le> fm_size (tf_metadata s)"
    "rt_checksum s \<Longrightarrow> \<exists>ds d. digests_of subtle acc {..<tf_totalChunks s} ds \<and> dg_finalize subtle ds = Inr d \<and> d \<in> E"
proof -
  obtain k k' where k: "sk_close memory_ops k = Inr (r, k')" "ms_ready (fm_size (tf_metadata s)) k"
    "memory.placed (tf_chunkSize s) acc {..<tf_totalChunks s} k" using r by (auto simp: memory.delivered_def)
  obtain b where b: "ms_buffer k = Some b" "length b = fm_size (tf_metadata s)" using k(2) by (auto simp: ms_ready_def)
  have res: "r = \<lparr>sr_bytes = Some b, sr_path = None\<rparr>" using k(1) b(1) by (auto simp: memory_ops_def ms_close_def)
  have ok: "pok seq (acc seq) \<and> seq * tf_chunkSize s + length (acc seq) \<le> fm_size (tf_metadata s)" if "seq < tf_totalChunks s" for seq
    using files r that by (auto simp: rt_files_def memory.delivered_def)
  have bytes: "b ! (seq * tf_chunkSize s + j) = acc seq ! j" if "seq < tf_totalChunks s" "j < length (acc seq)" for seq j
  proof -
    have "ms_img k (seq * tf_chunkSize s + j) = acc seq ! j" using k(3) that by (simp add: memory.placed_def)
    moreover have "seq * tf_chunkSize s + j < length b" using ok [OF that(1)] that(2) b(2) by simp
    ultimately show ?thesis using b(1) by (simp add: ms_img_def)
  qed
  show thesis using r res b(2) bytes ok by (intro that) (auto simp: memory.delivered_def)
qed

lemma memory_completed:
  assumes "memory.rt_inv subtle pok E acc s" "tf_state s = Completed"
  obtains b where "rt_result s = Some \<lparr>sr_bytes = Some b, sr_path = None\<rparr>" "length b = fm_size (tf_metadata s)"
    "\<And>seq j. seq < tf_totalChunks s \<Longrightarrow> j < length (acc seq) \<Longrightarrow> b ! (seq * tf_chunkSize s + j) = acc seq ! j"
    "\<And>seq. seq < tf_totalChunks s \<Longrightarrow> pok seq (acc seq) \<and> seq * tf_chunkSize s + length (acc seq) \<le> fm_size (tf_metadata s)"
    "rt_checksum s \<Longrightarrow> \<exists>ds d. digests_of subtle acc {..<tf_totalChunks s} ds \<and> dg_finalize subtle ds = Inr d \<and> d \<in> E"
proof -
  obtain r where r: "rt_result s = Some r" "memory.delivered subtle E acc r s"
    using memory.rt_storeD(5) [of subtle E acc s] assms by (auto simp: memory.rt_inv_def)
  have "rt_files pok E acc s" using assms(1) by (simp add: memory.rt_inv_def)
  from memory_delivered [OF r(2) this] show thesis using r(1) by (metis that)
qed

text \<open>The payloads at stake in a run: those of the frames delivered and the chunks of the file.\<close>

definition rx_payloads :: "'k rt_event list \<Rightarrow> nat \<Rightarrow> bytes \<Rightarrow> bytes set" where
  "rx_payloads evs cs file =
     {p. \<exists>d bs seq. RxMessage d \<in> set evs \<and> toArrayBuffer d = Inr bs \<and> decodeFrame bs = Inr (seq, p)} \<union>
     ft_chunk cs file ` {..<ft_chunks (length file) cs}"

definition rx_streams :: "(bytes \<Rightarrow> bytes) \<Rightarrow> nat \<Rightarrow> bytes set \<Rightarrow> bytes set" where
  "rx_streams sha n P = {concat (map (\<lambda>s. sha (f s)) [0..<n]) |f. \<forall>s < n. f s \<in> P}"

lemma hashed_chunks:
  assumes sha: "\<And>x. length (sha x) = 32"
    and coll: "inj_on sha (rx_payloads evs cs file \<union> rx_streams sha (ft_chunks (length file) cs) (rx_payloads evs cs file))"
    and ds: "digests_of (Some sha) acc {..<ft_chunks (length file) cs} ds" "dg_finalize (Some sha) ds = Inr d" "d = ft_digest sha cs file"
    and acc: "\<And>q. q < ft_chunks (length file) cs \<Longrightarrow> acc q \<in> rx_payloads evs cs file"
    and q: "q < ft_chunks (length file) cs"
  shows "acc q = ft_chunk cs file q"
proof -
  define P where "P = rx_payloads evs cs file"
  define n where "n = ft_chunks (length file) cs"
  note folds = P_def [symmetric] n_def [symmetric]
  have mine: "ft_chunk cs file q \<in> P" if "q < n" for q using that by (simp add: P_def rx_payloads_def n_def)
  have J: "concat (map (\<lambda>s. sha (acc s)) [0..<n]) \<in> rx_streams sha n P"
    "concat (map (\<lambda>s. sha (ft_chunk cs file s)) [0..<n]) \<in> rx_streams sha n P"
    using acc mine unfolding folds by (auto simp: rx_streams_def)
  have "hex (sha (concat (map (\<lambda>s. sha (acc s)) [0..<n]))) = hex (sha (concat (map (\<lambda>s. sha (ft_chunk cs file s)) [0..<n])))"
    using ds digests_joined [OF ds(1) sha] by (simp add: dg_finalize_def sha256Hex_def sha256Raw_def ft_digest_def n_def)
  then have "concat (map (\<lambda>s. sha (acc s)) [0..<n]) = concat (map (\<lambda>s. sha (ft_chunk cs file s)) [0..<n])"
    using coll J hex_inj unfolding folds by (metis (no_types, lifting) UnCI inj_onD)
  then have "sha (acc q) = sha (ft_chunk cs file q)"
    using concat_eq_lengths [of "\<lambda>s. sha (acc s)" "[0..<n]" "\<lambda>s. sha (ft_chunk cs file s)" q] sha q unfolding folds by simp
  then show ?thesis using coll acc [OF q] mine q unfolding folds by (meson UnI1 inj_onD)
qed

text \<open>(C6) Integrity: a receiver that asked for a checksum is given any sequence of events whatever, with frames of any
  content, order and number on the data channels, interleaved with pauses, cancellations, sink steps and link failures. If every
  digest announced to it is that of the file, and SHA-256 has no collision among the chunks seen and their digest streams, then
  whenever the transfer ends completed its result is the file, byte by byte.\<close>

theorem ft_receive_integrity:
  fixes evs :: "memory_sink rt_event list"
  assumes "\<And>x. length (sha x) = 32" and "0 < cs"
    and coll: "inj_on sha (rx_payloads evs cs file \<union> rx_streams sha (ft_chunks (length file) cs) (rx_payloads evs cs file))"
    and dig: "\<And>i d. RxControl (Sent i d) \<in> set evs \<Longrightarrow> d = Some (ft_digest sha cs file) \<or> d = None"
    and meta: "fm_size meta = length file"
    and fin: "tf_state (rt_run memory_ops (Some sha) evs (rt_new tid peer meta cs (ft_chunks (length file) cs) True)) = Completed"
  shows "map_option sr_bytes (rt_result (rt_run memory_ops (Some sha) evs (rt_new tid peer meta cs (ft_chunks (length file) cs) True))) =
    Some (Some file)"
proof -
  define P where "P = rx_payloads evs cs file"
  define n where "n = ft_chunks (length file) cs"
  define s where "s = rt_run memory_ops (Some sha) evs (rt_new tid peer meta cs n True)"
  note fx = rt_run_fixed [OF s_def]
  have "rx_ok (\<lambda>seq p. p \<in> P) {ft_digest sha cs file} ev" if "ev \<in> set evs" for ev
  proof (cases ev)
    case (RxMessage d)
    then show ?thesis using that by (auto simp: msg_ok_def P_def rx_payloads_def)
  next
    case (RxControl m)
    then show ?thesis using that dig by (cases m) auto
  qed simp_all
  then obtain acc where inv: "memory.rt_inv (Some sha) (\<lambda>seq p. p \<in> P) {ft_digest sha cs file} acc s"
    using memory.rt_inv_run [OF memory.rt_inv_new] unfolding s_def by blast
  have "tf_state s = Completed" using fin by (simp add: s_def n_def)
  obtain b where
    b: "rt_result s = Some \<lparr>sr_bytes = Some b, sr_path = None\<rparr>" "length b = length file"
      "\<And>seq j. seq < n \<Longrightarrow> j < length (acc seq) \<Longrightarrow> b ! (seq * cs + j) = acc seq ! j" "\<And>seq. seq < n \<Longrightarrow> acc seq \<in> P"
    and ex: "\<exists>ds d. digests_of (Some sha) acc {..<n} ds \<and> dg_finalize (Some sha) ds = Inr d \<and> d \<in> {ft_digest sha cs file}"
  proof (rule memory_completed [OF inv \<open>tf_state s = Completed\<close>])
    fix b
    assume a: "rt_result s = Some \<lparr>sr_bytes = Some b, sr_path = None\<rparr>" "length b = fm_size (tf_metadata s)"
      "\<And>seq j. seq < tf_totalChunks s \<Longrightarrow> j < length (acc seq) \<Longrightarrow> b ! (seq * tf_chunkSize s + j) = acc seq ! j"
      "\<And>seq. seq < tf_totalChunks s \<Longrightarrow> acc seq \<in> P \<and> seq * tf_chunkSize s + length (acc seq) \<le> fm_size (tf_metadata s)"
      "rt_checksum s \<Longrightarrow> \<exists>ds d. digests_of (Some sha) acc {..<tf_totalChunks s} ds \<and> dg_finalize (Some sha) ds = Inr d \<and> d \<in> {ft_digest sha cs file}"
    show thesis by (rule that [of b]) (use a fx meta in auto)
  qed
  then obtain ds d where ds: "digests_of (Some sha) acc {..<n} ds" "dg_finalize (Some sha) ds = Inr d" "d = ft_digest sha cs file" by blast
  have "acc q = ft_chunk cs file q" if "q < n" for q
    using hashed_chunks [OF assms(1) coll, of acc ds d q] ds b(4) that unfolding P_def n_def by blast
  then have "b = file" using b(2,3) by (intro chunks_file [OF assms(2)]) (simp_all add: n_def)
  then show ?thesis using b(1) unfolding s_def n_def by simp
qed

text \<open>A hash for examples: the length and the first bytes.\<close>

definition ex_sha :: "bytes \<Rightarrow> bytes" where
  "ex_sha x = take 32 (of_nat (length x) # x @ replicate 32 0)"

definition ex_meta :: file_metadata where
  "ex_meta = \<lparr>fm_name = u16 ''f'', fm_mimeType = ''text/plain'', fm_size = 2\<rparr>"

definition ex_receive :: "memory_sink rt_event list" where
  "ex_receive = [RxAccept ms_new, RxOpened, RxMessage (Binary (encodeFrame 0 [7, 9])), RxDecode 0,
     RxControl (Sent ''t'' (Some (ft_digest ex_sha 2 [7, 9]))), RxWrite, RxWrite, RxWrite, RxComplete, RxComplete, RxComplete]"

lemma ex_receive_completed: "tf_state (rt_run memory_ops (Some ex_sha) ex_receive (rt_new ''t'' ''p'' ex_meta 2 1 True)) = Completed"
  by code_simp

lemma ex_sha_length: "length (ex_sha x) = 32"
  by (simp add: ex_sha_def)

lemma ex_payloads: "rx_payloads ex_receive 2 [7, 9] = {[7, 9]}"
  by (auto simp: rx_payloads_def ex_receive_def decode_encode ft_chunks_def ft_chunk_def lessThan_Suc)

lemma ex_streams: "rx_streams ex_sha 1 {[7, 9]} = {ex_sha [7, 9]}"
  by (auto simp: rx_streams_def)

theorem ft_receive_integrity_witness:
  "map_option sr_bytes (rt_result (rt_run memory_ops (Some ex_sha) ex_receive (rt_new ''t'' ''p'' ex_meta 2 1 True))) = Some (Some [7, 9])"
proof -
  have n: "ft_chunks (length [7 :: 8 word, 9]) 2 = 1" by (simp add: ft_chunks_def)
  have "ex_sha [7, 9] \<noteq> ex_sha (ex_sha [7, 9])" by code_simp
  then have "inj_on ex_sha (rx_payloads ex_receive 2 [7, 9] \<union> rx_streams ex_sha (ft_chunks (length [7 :: 8 word, 9]) 2) (rx_payloads ex_receive 2 [7, 9]))"
    unfolding n ex_payloads ex_streams by (auto simp: inj_on_def)
  moreover have "d = Some (ft_digest ex_sha 2 [7, 9]) \<or> d = None" if "RxControl (Sent i d) \<in> set ex_receive" for i d
    using that by (simp add: ex_receive_def)
  ultimately show ?thesis
    using ft_receive_integrity [of ex_sha 2 ex_receive "[7, 9]" ex_meta "''t''" "''p''"] ex_sha_length ex_receive_completed n
    by (simp add: ex_meta_def)
qed

section \<open>Bounds against hostile frames\<close>

lemma disjoint_chunks_sum:
  fixes len :: "nat \<Rightarrow> nat"
  assumes "distinct xs" "\<And>q. q \<in> set xs \<Longrightarrow> len q \<le> cs \<and> q * cs + len q \<le> n"
  shows "(\<Sum>q \<leftarrow> xs. len q) \<le> n"
proof -
  let ?R = "\<lambda>q. {q * cs ..< q * cs + len q}"
  have disj: "?R q \<inter> ?R p = {}" if "q \<in> set xs" "p \<in> set xs" "q < p" for p q
  proof -
    have "Suc q * cs \<le> p * cs" using that(3) by (intro mult_le_mono1) simp
    then show ?thesis using assms(2) [OF that(1)] by auto
  qed
  have "(\<Sum>q \<leftarrow> xs. len q) = (\<Sum>q \<in> set xs. card (?R q))" using assms(1) by (simp add: sum_list_distinct_conv_sum_set)
  also have "\<dots> = card (\<Union>q \<in> set xs. ?R q)"
  proof (rule card_UN_disjoint [symmetric])
    show "\<forall>i \<in> set xs. \<forall>j \<in> set xs. i \<noteq> j \<longrightarrow> ?R i \<inter> ?R j = {}" using disj by (metis inf_commute linorder_neqE_nat)
  qed simp_all
  also have "\<dots> \<le> card {..<n}" using assms(2) by (intro card_mono) force+
  finally show ?thesis by simp
qed

text \<open>The memory a memory sink holds.\<close>

definition ms_within :: "nat \<Rightarrow> memory_sink receive_transfer \<Rightarrow> bool" where
  "ms_within n s \<longleftrightarrow> (\<forall>k b. rt_sink s = Some k \<longrightarrow> ms_buffer k = Some b \<longrightarrow> length b \<le> n)"

lemma ms_within_sink: "rt_sink s' = rt_sink s \<Longrightarrow> ms_within n s' = ms_within n s"
  by (simp add: ms_within_def)

lemma ms_within_update [simp]:
  "ms_within n (tf_emit x s) = ms_within n s" "ms_within n (s\<lparr>rt_opening := b\<rparr>) = ms_within n s" "ms_within n (s\<lparr>rt_digest := c\<rparr>) = ms_within n s"
  "ms_within n (s\<lparr>rt_chain := d\<rparr>) = ms_within n s" "ms_within n (s\<lparr>rt_phase := e\<rparr>) = ms_within n s" "ms_within n (s\<lparr>rt_inbox := f\<rparr>) = ms_within n s"
  "ms_within n (s\<lparr>rt_channels := g\<rparr>) = ms_within n s" "ms_within n (s\<lparr>tf_linkUp := h\<rparr>) = ms_within n s" "ms_within n (s\<lparr>rt_senderDone := i\<rparr>) = ms_within n s"
  "ms_within n (s\<lparr>rt_expectedDigest := j\<rparr>) = ms_within n s" "ms_within n (s\<lparr>rt_result := k\<rparr>) = ms_within n s" "ms_within n (s\<lparr>rt_sinkFinalized := l\<rparr>) = ms_within n s"
  "ms_within n (s\<lparr>rt_received := m\<rparr>) = ms_within n s" "ms_within n (s\<lparr>tf_transferredBytes := q\<rparr>) = ms_within n s"
  "ms_within n (s\<lparr>tf_transferredChunks := q\<rparr>) = ms_within n s" "ms_within n (s\<lparr>tf_state := st\<rparr>) = ms_within n s" "ms_within n (s\<lparr>tf_log := lg\<rparr>) = ms_within n s"
  by (simp_all add: ms_within_def)

lemma ms_within_abort [intro!]: "ms_within n s \<Longrightarrow> ms_within n (rt_abortSink memory_ops s)"
  by (auto simp: rt_abortSink_def ms_within_def memory_ops_def ms_abort_def split: option.splits)

lemma ms_within_terminal [intro!]: "ms_within n s \<Longrightarrow> ms_within n (rt_onTerminal memory_ops s)"
  using ms_within_abort [of n s] by (simp add: rt_onTerminal_def Let_def)

lemma ms_within_transition [intro!]: "ms_within n s \<Longrightarrow> ms_within n (snd (rt_transitionTo memory_ops st s))"
  by (auto simp: rt_transitionTo_def tf_transitionTo_def Let_def)

lemma ms_within_notify [simp]: "ms_within n (rt_notifyRemoteFailure e s) = ms_within n s"
  by (rule ms_within_sink) simp

lemma ms_within_fail [intro!]: "ms_within n s \<Longrightarrow> ms_within n (rt_fail memory_ops e b s)"
  using ms_within_transition [of n s Failed] by (auto simp: rt_fail_def tf_fail_def Let_def rt_transitionTo_def [symmetric])

lemma ms_within_send: "ms_within n s \<Longrightarrow> tf_sendControl m s = Some s' \<Longrightarrow> ms_within n s'"
  by (auto dest!: tf_sendControl_Some)

lemma ms_within_cancelled [intro!]: "ms_within n s \<Longrightarrow> ms_within n (rt_markCancelled memory_ops r s)"
  by (auto simp: rt_markCancelled_def Let_def split: option.splits)

lemma ms_within_try [simp]: "ms_within n (rt_tryComplete s) = ms_within n s"
  by (simp add: rt_tryComplete_def)

lemma ms_within_accept: "ms_within (fm_size (tf_metadata s)) s \<Longrightarrow> ms_within (fm_size (tf_metadata s)) (rt_accept memory_ops k s)"
proof (cases "tf_state s = Offered")
  case True
  let ?s1 = "s\<lparr>rt_sink := Some k, rt_digest := if rt_checksum s then Some [] else None\<rparr>"
  have "tf_metadata (snd (rt_transitionTo memory_ops Accepted ?s1)) = tf_metadata s"
    using rt_coreD(1) [OF rt_transitionTo_fields(1), of memory_ops Accepted ?s1] by simp
  then show ?thesis using True by (simp add: rt_accept_def Let_def memory_ops_def ms_within_def ms_open_def)
qed (auto simp: rt_accept_def)

lemma ms_within_write:
  assumes "ms_within n s" "q * tf_chunkSize s + length bs \<le> n"
  shows "ms_within n (rt_callWrite memory_ops q bs rest s)"
  using assms
  by (auto simp: rt_callWrite_def memory_ops_def ms_within_def ms_write_def u8_set_def Let_def split: option.splits if_splits)

lemma ms_within_close [intro!]: "ms_within n s \<Longrightarrow> ms_within n (rt_close memory_ops s)"
  using ms_within_transition [of n s Completing]
  by (auto simp: rt_close_def Let_def memory_ops_def ms_within_def split: option.splits)

lemma ms_within_finish [intro!]: "ms_within n s \<Longrightarrow> ms_within n (rt_finish memory_ops r s)"
  by (auto simp: rt_finish_def Let_def split_def dest!: tf_sendControl_Some split: option.splits)

lemma ms_within_mismatch [intro!]: "ms_within n s \<Longrightarrow> ms_within n (rt_mismatch memory_ops msg s)"
  by (auto simp: rt_mismatch_def Let_def dest!: tf_sendControl_Some split: option.splits)

lemma ms_within_frame [intro!]: "ms_within n s \<Longrightarrow> ms_within n (rt_frame memory_ops q bs s)"
  by (auto simp: rt_frame_def rt_badFrame_def rt_enqueueChunk_def tf_emitProgress_def Let_def split: option.splits)

lemma ms_within_decode [intro!]: "ms_within n s \<Longrightarrow> ms_within n (rt_decode memory_ops j s)"
  by (auto simp: rt_decode_def Let_def split: sum.splits)

lemma ms_within_complete [intro!]: "ms_within n s \<Longrightarrow> ms_within n (rt_completeStep memory_ops subtle s)"
  by (auto simp: rt_completeStep_def split: completion.splits sum.splits option.splits)

lemma ms_within_opened [intro!]: "ms_within n s \<Longrightarrow> ms_within n (rt_opened memory_ops s)"
  by (auto simp: rt_opened_def Let_def dest!: tf_sendControl_Some split: option.splits sum.splits)

lemma ms_within_public:
  assumes "ms_within n s"
  shows "ms_within n (snd (rt_reject memory_ops r s))" "ms_within n (rt_handleControl memory_ops m s)" "ms_within n (snd (rt_pause memory_ops s))"
    "ms_within n (snd (rt_resume memory_ops s))" "ms_within n (snd (rt_cancel memory_ops r s))" "ms_within n (snd (rt_requestResume s))"
  using assms
  by (auto simp: rt_reject_def rt_handleControl_def rt_pause_def rt_resume_def rt_cancel_def rt_requestResume_def Let_def
      dest!: tf_sendControl_Some split: option.splits control_message.splits)

lemma ms_within_chain:
  assumes "ms_within (fm_size (tf_metadata s)) s" "memory.rt_inv subtle pok E acc s"
  shows "ms_within (fm_size (tf_metadata s)) (rt_chainStep memory_ops subtle' s)"
proof -
  let ?n = "fm_size (tf_metadata s)"
  have b: "q * tf_chunkSize s + length bs \<le> ?n" if "rt_chain s = j # rest" "j = Queued q bs \<or> j = Hashed q bs" for q bs j rest
    using assms(2) that by (auto simp: memory.rt_inv_def rt_jobs_def rt_files_def)
  show ?thesis
    using assms(1) b ms_within_write [OF assms(1)]
    by (auto simp: rt_chainStep_def rt_writeFailed_def split: list.splits write_job.splits option.splits sum.splits)
qed

lemma rx_ok_any: "rx_ok (\<lambda>q p. True) UNIV ev"
proof (cases ev)
  case (RxControl m)
  then show ?thesis by (cases m) simp_all
qed (simp_all add: msg_ok_def)

lemma ms_within_run:
  assumes "ms_within (fm_size (tf_metadata s)) s" "memory.rt_inv subtle (\<lambda>q p. True) UNIV acc s"
  shows "ms_within (fm_size (tf_metadata s)) (rt_run memory_ops subtle evs s)"
  using assms
proof (induction evs arbitrary: s acc)
  case (Cons ev evs)
  let ?t = "rt_exec memory_ops subtle ev s"
  obtain acc' where inv: "memory.rt_inv subtle (\<lambda>q p. True) UNIV acc' ?t" using memory.rt_inv_exec [OF Cons.prems(2) rx_ok_any] by blast
  have m: "tf_metadata ?t = tf_metadata s" using rt_fixed_exec [of memory_ops subtle ev s] by (simp add: rt_fixed_def)
  have "ms_within (fm_size (tf_metadata s)) ?t"
    using Cons.prems(1) ms_within_public [OF Cons.prems(1)] ms_within_accept [OF Cons.prems(1)] ms_within_chain [OF Cons.prems]
    by (cases ev) (auto simp: rt_exec_def rt_attachChannel_def rt_onMessage_def)
  then show ?case using Cons.IH [OF _ inv] m by simp
qed simp

text \<open>(C35) Whatever a hostile sender puts on the channels and in its control messages, a receiver with a memory sink never counts more bytes
  or chunks than the offer declared, never holds a larger buffer than the declared size, and counts each chunk once.\<close>

theorem ft_receive_bounded:
  fixes evs :: "memory_sink rt_event list"
  shows "let s = rt_run memory_ops subtle evs (rt_new tid peer meta cs n checksum) in
    tf_transferredBytes s \<le> fm_size meta \<and> tf_transferredChunks s \<le> n \<and> distinct (rt_received s) \<and>
    (case rt_sink s of Some k \<Rightarrow> (case ms_buffer k of Some b \<Rightarrow> length b \<le> fm_size meta | None \<Rightarrow> True) | None \<Rightarrow> True)"
proof -
  define s where "s = rt_run memory_ops subtle evs (rt_new tid peer meta cs n checksum)"
  let ?s0 = "rt_new tid peer meta cs n checksum :: memory_sink receive_transfer"
  have inv0: "memory.rt_inv subtle (\<lambda>q p. True) UNIV (\<lambda>q. []) ?s0" by (rule memory.rt_inv_new)
  have fx0: "tf_metadata ?s0 = meta" using rt_run_fixed(1) [of ?s0 memory_ops subtle "[]"] by simp
  have "rt_sink ?s0 = None"
    by (simp add: rt_new_def tf_new_def tf_transitionTo_def transfer.defs Let_def terminal_simps tf_emit_def)
  then have "ms_within (fm_size meta) s"
    using ms_within_run [OF _ inv0, of evs] fx0 by (simp add: s_def ms_within_def)
  moreover obtain acc where "memory.rt_inv subtle (\<lambda>q p. True) UNIV acc s"
    using memory.rt_inv_run [OF inv0, of evs] rx_ok_any unfolding s_def by blast
  then have f: "rt_files (\<lambda>q p. True) UNIV acc s" by (simp add: memory.rt_inv_def)
  note fx = rt_run_fixed [OF s_def]
  have "card (set (rt_received s)) \<le> card {..<n}" using f fx(3) by (intro card_mono) (auto simp: rt_files_def)
  moreover have "tf_transferredBytes s \<le> fm_size meta"
    using f fx disjoint_chunks_sum [of "rt_received s" "\<lambda>q. length (acc q)" cs "fm_size meta"] by (simp add: rt_files_def)
  ultimately show ?thesis
    using f unfolding s_def [symmetric] Let_def by (auto simp: rt_files_def distinct_card ms_within_def split: option.splits)
qed

section \<open>Pausing and cancelling at the end\<close>

text \<open>A completion that is over is never started again, so a state that is not completed by then never will be.\<close>

definition rt_stuck :: "'k receive_transfer \<Rightarrow> bool" where
  "rt_stuck s \<longleftrightarrow> rt_phase s = CpOver \<and> tf_state s \<noteq> Completed"

lemma rt_stuck_update [simp]:
  "rt_stuck (tf_emit x s) = rt_stuck s" "rt_stuck (s\<lparr>rt_opening := b\<rparr>) = rt_stuck s" "rt_stuck (s\<lparr>rt_digest := c\<rparr>) = rt_stuck s"
  "rt_stuck (s\<lparr>rt_chain := d\<rparr>) = rt_stuck s" "rt_stuck (s\<lparr>rt_sink := e\<rparr>) = rt_stuck s" "rt_stuck (s\<lparr>rt_inbox := f\<rparr>) = rt_stuck s"
  "rt_stuck (s\<lparr>rt_channels := g\<rparr>) = rt_stuck s" "rt_stuck (s\<lparr>tf_linkUp := h\<rparr>) = rt_stuck s" "rt_stuck (s\<lparr>rt_senderDone := i\<rparr>) = rt_stuck s"
  "rt_stuck (s\<lparr>rt_expectedDigest := j\<rparr>) = rt_stuck s" "rt_stuck (s\<lparr>rt_received := m\<rparr>) = rt_stuck s"
  "rt_stuck (s\<lparr>tf_transferredBytes := q\<rparr>) = rt_stuck s" "rt_stuck (s\<lparr>tf_transferredChunks := q\<rparr>) = rt_stuck s"
  by (simp_all add: rt_stuck_def tf_emit_def)

lemma rt_stuck_core: "rt_core s' = rt_core s \<Longrightarrow> tf_state s' \<noteq> Completed \<or> tf_state s' = tf_state s \<Longrightarrow> rt_stuck s \<Longrightarrow> rt_stuck s'"
  using rt_coreD(13) [of s' s] by (auto simp: rt_stuck_def)

lemma rt_stuck_transition [intro!]: "rt_stuck s \<Longrightarrow> n \<noteq> Completed \<Longrightarrow> rt_stuck (snd (rt_transitionTo ops n s))"
  by (rule rt_stuck_core [rotated 2]) (auto simp: rt_transitionTo_state ft_move_def)

lemma rt_stuck_helpers [intro!]:
  "rt_stuck s \<Longrightarrow> rt_stuck (rt_fail ops e b s)" "rt_stuck s \<Longrightarrow> rt_stuck (rt_abortSink ops s)"
  using rt_coreD(13) [OF rt_fail_fields(1), of ops e b s] rt_coreD(13) [OF rt_abortSink_fields(1), of ops s]
  by (auto simp: rt_stuck_def)

lemma rt_stuck_try [simp]: "rt_stuck s \<Longrightarrow> rt_stuck (rt_tryComplete s)"
  by (simp add: rt_tryComplete_def rt_stuck_def)

lemma rt_stuck_ops [intro!]:
  assumes "rt_stuck s"
  shows "rt_stuck (rt_accept ops k s)" "rt_stuck (rt_opened ops s)" "rt_stuck (rt_markCancelled ops r s)" "rt_stuck (rt_callWrite ops q bs rest s)"
    "rt_stuck (rt_writeFailed ops e s)" "rt_stuck (rt_frame ops q bs s)"
proof -
  show "rt_stuck (rt_accept ops k s)" using assms by (auto simp: rt_accept_def Let_def split: sum.splits)
  show "rt_stuck (rt_opened ops s)" using assms by (auto simp: rt_opened_def Let_def dest!: tf_sendControl_Some split: option.splits sum.splits)
  show "rt_stuck (rt_markCancelled ops r s)" using assms by (auto simp: rt_markCancelled_def Let_def split: option.splits)
  show "rt_stuck (rt_callWrite ops q bs rest s)" using assms by (auto simp: rt_callWrite_def split: option.splits sum.splits)
  show "rt_stuck (rt_writeFailed ops e s)" using assms by (auto simp: rt_writeFailed_def)
  show "rt_stuck (rt_frame ops q bs s)"
    using assms by (auto simp: rt_frame_def rt_badFrame_def rt_enqueueChunk_def tf_emitProgress_def Let_def split: option.splits)
qed

lemma rt_stuck_public:
  assumes "rt_stuck s"
  shows "rt_stuck (snd (rt_reject ops r s))" "rt_stuck (rt_handleControl ops m s)" "rt_stuck (snd (rt_pause ops s))"
    "rt_stuck (snd (rt_resume ops s))" "rt_stuck (snd (rt_cancel ops r s))" "rt_stuck (snd (rt_requestResume s))"
  using assms
  by (auto simp: rt_reject_def rt_handleControl_def rt_pause_def rt_resume_def rt_cancel_def rt_requestResume_def Let_def
      dest!: tf_sendControl_Some split: option.splits control_message.splits)

lemma rt_stuck_exec: "rt_stuck s \<Longrightarrow> rt_stuck (rt_exec ops subtle ev s)"
proof -
  assume s: "rt_stuck s"
  have "rt_stuck (rt_decode ops j s)" for j using s by (auto simp: rt_decode_def Let_def split: sum.splits)
  moreover have "rt_stuck (rt_chainStep ops subtle s)"
    using s by (auto simp: rt_chainStep_def split: list.splits write_job.splits option.splits sum.splits)
  moreover have "rt_completeStep ops subtle s = s" using s by (simp add: rt_completeStep_def rt_stuck_def)
  ultimately show ?thesis
    using s rt_stuck_public [OF s] by (cases ev) (auto simp: rt_exec_def rt_attachChannel_def rt_onMessage_def)
qed

lemma rt_stuck_run: "rt_stuck s \<Longrightarrow> rt_stuck (rt_run ops subtle evs s)"
  by (induction evs arbitrary: s) (auto intro: rt_stuck_exec)

text \<open>A receiver whose sink has been closed while it was paused, and which has not been resumed since.\<close>

definition rt_closing :: "sink_result \<Rightarrow> 'k receive_transfer \<Rightarrow> bool" where
  "rt_closing r s \<longleftrightarrow> rt_phase s = CpClose (Inr r) \<and> rt_opening s = None \<and> (tf_state s = Paused \<or> tf_state s = Failed \<or> tf_state s = TCancelled)"

lemma rt_closing_update [simp]:
  "rt_closing r (tf_emit x s) = rt_closing r s" "rt_closing r (s\<lparr>rt_digest := c\<rparr>) = rt_closing r s"
  "rt_closing r (s\<lparr>rt_chain := d\<rparr>) = rt_closing r s" "rt_closing r (s\<lparr>rt_sink := e\<rparr>) = rt_closing r s" "rt_closing r (s\<lparr>rt_inbox := f\<rparr>) = rt_closing r s"
  "rt_closing r (s\<lparr>rt_channels := g\<rparr>) = rt_closing r s" "rt_closing r (s\<lparr>tf_linkUp := h\<rparr>) = rt_closing r s" "rt_closing r (s\<lparr>rt_senderDone := i\<rparr>) = rt_closing r s"
  "rt_closing r (s\<lparr>rt_expectedDigest := j\<rparr>) = rt_closing r s" "rt_closing r (s\<lparr>rt_received := m\<rparr>) = rt_closing r s"
  "rt_closing r (s\<lparr>tf_transferredBytes := q\<rparr>) = rt_closing r s" "rt_closing r (s\<lparr>tf_transferredChunks := q\<rparr>) = rt_closing r s"
  by (simp_all add: rt_closing_def tf_emit_def)

lemma rt_closing_helpers [intro!]:
  assumes "rt_closing r s"
  shows "rt_closing r (rt_fail ops e b s)" "rt_closing r (rt_abortSink ops s)" "n = Failed \<or> n = TCancelled \<Longrightarrow> rt_closing r (snd (rt_transitionTo ops n s))"
    "rt_closing r (rt_tryComplete s)"
  using assms rt_coreD(13) [OF rt_fail_fields(1), of ops e b s] rt_coreD(13) [OF rt_abortSink_fields(1), of ops s]
    rt_coreD(13) [OF rt_transitionTo_fields(1), of ops n s]
  by (auto simp: rt_closing_def rt_transitionTo_state ft_move_def rt_tryComplete_def terminal_simps)

lemma rt_closing_ops [intro!]:
  assumes "rt_closing r s"
  shows "rt_closing r (rt_accept ops k s)" "rt_closing r (rt_opened ops s)" "rt_closing r (rt_markCancelled ops c s)" "rt_closing r (rt_callWrite ops q bs rest s)"
    "rt_closing r (rt_writeFailed ops e s)" "rt_closing r (rt_frame ops q bs s)"
proof -
  show "rt_closing r (rt_accept ops k s)" using assms by (auto simp: rt_accept_def) (auto simp: rt_closing_def)
  show "rt_closing r (rt_opened ops s)" using assms by (simp add: rt_opened_def rt_closing_def)
  show "rt_closing r (rt_markCancelled ops c s)" using assms by (auto simp: rt_markCancelled_def Let_def split: option.splits)
  show "rt_closing r (rt_callWrite ops q bs rest s)" using assms by (auto simp: rt_callWrite_def split: option.splits sum.splits)
  show "rt_closing r (rt_writeFailed ops e s)" using assms by (auto simp: rt_writeFailed_def)
  show "rt_closing r (rt_frame ops q bs s)"
    using assms by (auto simp: rt_frame_def rt_badFrame_def rt_enqueueChunk_def tf_emitProgress_def Let_def split: option.splits)
qed

lemma rt_closing_public:
  assumes "rt_closing r s"
  shows "rt_closing r (snd (rt_reject ops c s))" "rt_closing r (rt_handleControl ops m s)" "rt_closing r (snd (rt_pause ops s))"
    "rt_closing r (snd (rt_cancel ops c s))" "rt_closing r (snd (rt_requestResume s))"
proof -
  show "rt_closing r (snd (rt_reject ops c s))" "rt_closing r (snd (rt_pause ops s))"
    using assms by (auto simp: rt_reject_def rt_pause_def rt_closing_def)
  show "rt_closing r (rt_handleControl ops m s)" "rt_closing r (snd (rt_cancel ops c s))" "rt_closing r (snd (rt_requestResume s))"
    using assms by (auto simp: rt_handleControl_def rt_cancel_def rt_requestResume_def dest!: tf_sendControl_Some split: option.splits control_message.splits)
qed

lemma rt_closing_exec:
  assumes s: "rt_closing r s" and ev: "ev \<noteq> RxResume" "ev \<noteq> RxComplete"
  shows "rt_closing r (rt_exec ops subtle ev s)"
proof -
  have "rt_closing r (rt_decode ops j s)" for j using s by (auto simp: rt_decode_def Let_def split: sum.splits)
  moreover have "rt_closing r (rt_chainStep ops subtle s)"
    using s by (auto simp: rt_chainStep_def split: list.splits write_job.splits option.splits sum.splits)
  ultimately show ?thesis
    using s ev rt_closing_public [OF s] by (cases ev) (auto simp: rt_exec_def rt_attachChannel_def rt_onMessage_def)
qed

lemma rt_closing_run:
  "rt_closing r s \<Longrightarrow> \<forall>ev \<in> set mid. ev \<noteq> RxResume \<and> ev \<noteq> RxComplete \<Longrightarrow> rt_closing r (rt_run ops subtle mid s)"
  by (induction mid arbitrary: s) (auto intro: rt_closing_exec)

lemma rt_closing_finish:
  assumes "rt_closing r s"
  shows "rt_result (rt_exec ops subtle RxComplete s) = Some r" "rt_stuck (rt_exec ops subtle RxComplete s)"
    "tf_linkUp s \<Longrightarrow> tf_log (rt_exec ops subtle RxComplete s) = tf_log s @ [Control (Complete (tf_id s))]"
proof -
  have x: "rt_exec ops subtle RxComplete s = rt_finish ops r s" using assms by (simp add: rt_exec_def rt_completeStep_def rt_closing_def)
  have "\<not> ft_edge (tf_state s) Completed" "tf_state s \<noteq> Completed" using assms by (auto simp: rt_closing_def ft_edge_def TERMINAL_def)
  then have "rt_transitionTo ops Completed (tf_emit c (s\<lparr>rt_result := a, rt_sinkFinalized := b, rt_phase := p\<rparr>)) =
      (False, tf_emit c (s\<lparr>rt_result := a, rt_sinkFinalized := b, rt_phase := p\<rparr>))" for a b c p
    by (auto simp: rt_transitionTo_def tf_transitionTo_def ft_edge_def tf_isTerminal_def tf_emit_def)
  then show "rt_result (rt_exec ops subtle RxComplete s) = Some r" "rt_stuck (rt_exec ops subtle RxComplete s)"
    "tf_linkUp s \<Longrightarrow> tf_log (rt_exec ops subtle RxComplete s) = tf_log s @ [Control (Complete (tf_id s))]"
    using \<open>tf_state s \<noteq> Completed\<close> by (simp_all add: x rt_finish_def Let_def tf_sendControl_def rt_stuck_def) (simp_all add: tf_emit_def)
qed

text \<open>Everything is received, written and, where a checksum is required, verified: the next step closes the sink.\<close>

definition rt_verified :: "'k receive_transfer \<Rightarrow> bool" where
  "rt_verified s \<longleftrightarrow> (case rt_phase s of
     CpChain \<Rightarrow> rt_chain s = [] \<and> rt_digest s = None | CpDigest local \<Rightarrow> rt_expectedDigest s = Some local | _ \<Rightarrow> False)"

lemma rt_verified_step: "rt_verified s \<Longrightarrow> \<not> tf_isTerminal s \<Longrightarrow> rt_completeStep ops subtle s = rt_close ops s"
  by (auto simp: rt_verified_def rt_completeStep_def split: completion.splits)

text \<open>(C36) A receiver that is paused when the verified file is handed to the sink's close, and is not resumed before that close returns, stores the
  result and tells the sender that it is complete, but both guarded transitions are refused from paused: whatever happens afterwards, resuming
  included, the transfer never becomes completed. This holds of every sink, every state of the receiver and everything else that happens in between.\<close>

theorem ft_paused_never_completes:
  assumes paused: "tf_state s = Paused" "rt_opening s = None"
    and verified: "rt_verified s" "rt_sink s = Some k" "sk_close ops k = Inr (r, k')"
    and closing: "\<forall>ev \<in> set mid. ev \<noteq> RxResume \<and> ev \<noteq> RxComplete"
  shows "let t = rt_run ops subtle (RxComplete # mid) s; u = rt_exec ops subtle RxComplete t in
    rt_result u = Some r \<and> (tf_linkUp t \<longrightarrow> tf_log u = tf_log t @ [Control (Complete (tf_id t))]) \<and>
    (\<forall>evs. tf_state (rt_run ops subtle evs u) \<noteq> Completed)"
proof -
  have "snd (rt_transitionTo ops Completing s) = s"
    using paused(1) by (intro rt_transitionTo_stay) (simp add: ft_edge_def)
  then have "rt_closing r (rt_exec ops subtle RxComplete s)"
    using paused verified rt_verified_step [OF verified(1), of ops subtle]
    by (simp add: rt_exec_def rt_close_def rt_closing_def terminal_simps)
  then have "rt_closing r (rt_run ops subtle (RxComplete # mid) s)" using rt_closing_run [OF _ closing] by simp
  note F = rt_closing_finish [OF this, of ops subtle]
  have "tf_state (rt_run ops subtle evs (rt_exec ops subtle RxComplete (rt_run ops subtle (RxComplete # mid) s))) \<noteq> Completed" for evs
    using rt_stuck_run [OF F(2), of ops subtle evs] unfolding rt_stuck_def by blast
  then show ?thesis unfolding Let_def using F(1,3) by blast
qed

text \<open>The example transfer, paused before its last chunk is decoded.\<close>

definition ex_paused :: "memory_sink receive_transfer" where
  "ex_paused = rt_run memory_ops (Some ex_sha)
     [RxAccept ms_new, RxOpened, RxMessage (Binary (encodeFrame 0 [7, 9])), RxPause, RxDecode 0,
      RxControl (Sent ''t'' (Some (ft_digest ex_sha 2 [7, 9]))), RxWrite, RxWrite, RxWrite, RxComplete] (rt_new ''t'' ''p'' ex_meta 2 1 True)"

lemma ex_paused_state:
  "tf_state ex_paused = Paused" "rt_opening ex_paused = None" "rt_verified ex_paused"
  "map_option (map_option (take 2) \<circ> ms_buffer) (rt_sink ex_paused) = Some (Some [7, 9])"
  "map_option ms_close (rt_sink ex_paused) = Some \<lparr>sr_bytes = Some [7, 9], sr_path = None\<rparr>"
  by code_simp+

theorem ft_paused_never_completes_witness:
  "let t = rt_run memory_ops (Some ex_sha) [RxComplete, RxAttach 3] ex_paused; u = rt_exec memory_ops (Some ex_sha) RxComplete t in
   rt_result u = Some \<lparr>sr_bytes = Some [7, 9], sr_path = None\<rparr> \<and> (\<forall>evs. tf_state (rt_run memory_ops (Some ex_sha) evs u) \<noteq> Completed)"
proof -
  obtain k where k: "rt_sink ex_paused = Some k" "ms_close k = \<lparr>sr_bytes = Some [7, 9], sr_path = None\<rparr>" using ex_paused_state(5) by auto
  have "sk_close memory_ops k = Inr (\<lparr>sr_bytes = Some [7, 9], sr_path = None\<rparr>, k)" using k(2) by (simp add: memory_ops_def)
  from ft_paused_never_completes [OF ex_paused_state(1-3) k(1) this, of "[RxAttach 3]" "Some ex_sha"] show ?thesis
    unfolding Let_def by simp
qed

section \<open>Cancelling\<close>







end
