(* ===== verification/FtSystem.thy ===== *)
theory FtSystem
  imports FtSendInv FtIntegrity
begin

text \<open>
  Sender and receiver together. Between them is a network that may lose, repeat, delay and reorder whatever was handed to it: any frame the sender
  ever sent and any control message in the log of a peer can be delivered to the other at any time, any number of times.
\<close>

inductive ft_reach ::
  "(utf16 \<Rightarrow> string) \<Rightarrow> (nat \<Rightarrow> nat \<Rightarrow> bytes) \<Rightarrow> hasher \<Rightarrow> 'k sink_ops \<Rightarrow> send_transfer \<Rightarrow> 'k receive_transfer \<Rightarrow>
   send_transfer \<Rightarrow> 'k receive_transfer \<Rightarrow> bool"
  for enc src subtle ops s0 r0 where
  ft_init: "ft_reach enc src subtle ops s0 r0 s0 r0"
| ft_tx: "ft_reach enc src subtle ops s0 r0 s r \<Longrightarrow> tx_ok ev \<Longrightarrow> (\<And>m. ev = TxControl m \<Longrightarrow> Control m \<in> set (tf_log r)) \<Longrightarrow>
    ft_reach enc src subtle ops s0 r0 (st_exec enc src subtle ev s) r"
| ft_rx: "ft_reach enc src subtle ops s0 r0 s r \<Longrightarrow>
    (\<And>d. ev = RxMessage d \<Longrightarrow> \<exists>f \<in> set (st_wire s). d = Binary (sf_frame f)) \<Longrightarrow>
    (\<And>m. ev = RxControl m \<Longrightarrow> Control m \<in> set (tf_log s)) \<Longrightarrow>
    ft_reach enc src subtle ops s0 r0 s (rt_exec ops subtle ev r)"

section \<open>Only honest chunks arrive\<close>

definition honest :: "nat \<Rightarrow> bytes \<Rightarrow> nat \<Rightarrow> bytes \<Rightarrow> bool" where
  "honest cs content seq p \<longleftrightarrow> p = ft_chunk cs content seq"

text \<open>The digests the sender can announce.\<close>

definition announced :: "hasher \<Rightarrow> nat \<Rightarrow> bytes \<Rightarrow> string set" where
  "announced subtle cs content = {ft_digest sha cs content |sha. subtle = Some sha}"

lemma wire_honest:
  assumes "st_inv subtle content s" "tf_totalChunks s \<le> 2 ^ 32" "f \<in> set (st_wire s)"
  shows "msg_ok (honest (tf_chunkSize s) content) (Binary (sf_frame f))"
proof -
  have f: "sf_seq f < tf_totalChunks s" "sf_frame f = encodeFrame (sf_seq f) (ft_chunk (tf_chunkSize s) content (sf_seq f))"
    using assms(1,3) by (auto simp: st_inv_def st_wire_ok_def)
  then have "sf_seq f mod 2 ^ 32 = sf_seq f" using assms(2) by (intro mod_less) linarith
  then show ?thesis using f(2) by (simp add: msg_ok_def decode_encode honest_def)
qed

lemma sent_announced:
  assumes "st_inv subtle content s" "Control (Sent i d) \<in> set (tf_log s)"
  shows "set_option d \<subseteq> announced subtle (tf_chunkSize s) content"
  using assms by (fastforce simp: st_inv_def st_sent_ok_def announced_def split: if_splits)

text \<open>Both invariants at once; \<open>st_fixed\<close> links the two chunk sizes.\<close>

lemma ft_reach_inv:
  assumes "ft_reach enc src subtle ops (st_new p net) (rt_new tid peer meta (sp_chunkSize p) n cks) s r"
    and src: "file_source src content" and snk: "storage_sink ops ready img" and sha: "hash_32 subtle"
    and p: "0 < sp_chunkSize p" "sp_channels p \<noteq> []" "fm_size (sp_metadata p) = length content"
    and big: "ft_chunks (length content) (sp_chunkSize p) \<le> 2 ^ 32"
  shows "st_inv subtle content s \<and> tf_chunkSize s = sp_chunkSize p \<and>
    (\<exists>acc. storage_sink.rt_inv ops ready img subtle (honest (sp_chunkSize p) content) (announced subtle (sp_chunkSize p) content) acc r) \<and>
    rt_fixed r = (meta, sp_chunkSize p, n, cks)"
  using assms(1)
proof (induction rule: ft_reach.induct)
  case ft_init
  have "st_inv subtle content (st_new p net)" by (rule st_inv_new [OF p])
  moreover have "tf_chunkSize (st_new p net) = sp_chunkSize p" by (simp add: st_new_def tf_new_def transfer.defs)
  ultimately show ?case using storage_sink.rt_inv_new [OF snk] rt_fixed_new by blast
next
  case (ft_tx s r ev)
  then have inv: "st_inv subtle content s" "tf_chunkSize s = sp_chunkSize p" by simp_all
  have i': "st_inv subtle content (st_exec enc src subtle ev s)" by (rule file_source.st_inv_exec [OF src inv(1) sha ft_tx.hyps(2)])
  then show ?case using ft_tx.IH st_fixedD(2) [OF st_fixed_exec [OF ft_tx.hyps(2)]] by simp
next
  case (ft_rx s r ev)
  then obtain acc where inv: "st_inv subtle content s" "tf_chunkSize s = sp_chunkSize p"
    and rinv: "storage_sink.rt_inv ops ready img subtle (honest (sp_chunkSize p) content) (announced subtle (sp_chunkSize p) content) acc r"
    by blast
  have n: "tf_totalChunks s \<le> 2 ^ 32" using inv big by (simp add: st_inv_def st_file_ok_def)
  have "rx_ok (honest (sp_chunkSize p) content) (announced subtle (sp_chunkSize p) content) ev"
  proof (cases ev)
    case (RxMessage d)
    then show ?thesis using ft_rx.hyps(2) wire_honest [OF inv(1) n] inv(2) by auto
  next
    case (RxControl m)
    then show ?thesis using ft_rx.hyps(3) sent_announced [OF inv(1)] inv(2) by (cases m) auto
  qed simp_all
  then show ?case using storage_sink.rt_inv_exec [OF snk rinv] ft_rx.IH by simp
qed

section \<open>What a report of completion means\<close>

definition opens :: "'k receive_transfer \<Rightarrow> bool" where
  "opens r \<longleftrightarrow> (\<forall>e. rt_opening r \<noteq> Some (Inl e))"

text \<open>Steps of the receiver that neither set the result nor report completion.\<close>

definition keeps :: "'k receive_transfer \<Rightarrow> 'k receive_transfer \<Rightarrow> bool" where
  "keeps r r' \<longleftrightarrow>
     rt_result r' = rt_result r \<and> {i. Control (Complete i) \<in> set (tf_log r')} = {i. Control (Complete i) \<in> set (tf_log r)} \<and>
     (tf_state r \<in> {Failed, TCancelled} \<longrightarrow> tf_state r' = tf_state r) \<and> (opens r \<longrightarrow> opens r')"

lemma keeps_refl [simp, intro]: "keeps r r"
  by (simp add: keeps_def)

lemma keeps_trans [trans]: "keeps r t \<Longrightarrow> keeps t u \<Longrightarrow> keeps r u"
  by (auto simp: keeps_def)

lemma keeps_fields [simp, intro]:
  "keeps r (r\<lparr>rt_sink := a\<rparr>)" "(\<And>e. b \<noteq> Some (Inl e)) \<Longrightarrow> keeps r (r\<lparr>rt_opening := b\<rparr>)" "keeps r (r\<lparr>rt_digest := c\<rparr>)" "keeps r (r\<lparr>rt_chain := d\<rparr>)"
  "keeps r (r\<lparr>rt_phase := e\<rparr>)" "keeps r (r\<lparr>rt_inbox := f\<rparr>)" "keeps r (r\<lparr>rt_channels := g\<rparr>)" "keeps r (r\<lparr>tf_linkUp := h\<rparr>)"
  "keeps r (r\<lparr>rt_senderDone := i, rt_expectedDigest := j\<rparr>)" "keeps r (r\<lparr>rt_sinkFinalized := k, rt_sink := a\<rparr>)"
  "(\<And>e. b \<noteq> Some (Inl e)) \<Longrightarrow> keeps r (r\<lparr>rt_sink := a, rt_opening := b\<rparr>)" "keeps r (r\<lparr>rt_sink := a, rt_digest := c\<rparr>)" "keeps r (r\<lparr>rt_sink := a, rt_chain := d\<rparr>)"
  "keeps r (r\<lparr>rt_digest := c, rt_chain := d\<rparr>)" "keeps r (r\<lparr>rt_sink := a, rt_phase := e\<rparr>)"
  "keeps r (r\<lparr>rt_received := m, tf_transferredChunks := n, tf_transferredBytes := n'\<rparr>)"
  by (simp_all add: keeps_def opens_def)

lemma keeps_emit: "(\<And>i. x \<noteq> Control (Complete i)) \<Longrightarrow> keeps r (tf_emit x r)"
  by (auto simp: keeps_def tf_emit_def opens_def)

lemma keeps_send: "tf_sendControl m r = Some r' \<Longrightarrow> (\<And>i. m \<noteq> Complete i) \<Longrightarrow> keeps r (r' :: 'k receive_transfer)"
  by (auto dest!: tf_sendControl_Some intro: keeps_emit)

lemma keeps_abortSink [intro]: "keeps r (rt_abortSink ops r)"
  by (auto simp: rt_abortSink_def split: option.split)

lemma keeps_onTerminal [intro]: "keeps r (rt_onTerminal ops r)"
proof -
  define r1 where "r1 = (if tf_state r \<noteq> Completed then rt_abortSink ops r else r)"
  have "keeps r r1" by (auto simp: r1_def)
  also have "keeps r1 (r1\<lparr>tf_log := tf_log r1 @ map CloseChannel (rt_channels r1), rt_channels := []\<rparr>)" by (auto simp: keeps_def opens_def)
  finally show ?thesis by (simp add: rt_onTerminal_def r1_def Let_def)
qed

lemma keeps_transitionTo [intro]: "keeps r (snd (rt_transitionTo ops n r))"
proof (cases "ft_edge (tf_state r) n")
  case True
  define r1 where "r1 = tf_emit (StateChanged n (tf_state r)) (r\<lparr>tf_state := n\<rparr>)"
  have q: "keeps r r1" using True by (auto simp: r1_def keeps_def opens_def tf_emit_def ft_edge_def TERMINAL_def)
  have "snd (rt_transitionTo ops n r) = (if n \<in> set TERMINAL then rt_onTerminal ops r1 else r1)"
    using True by (simp add: rt_transitionTo_def tf_transitionTo_def Let_def r1_def ft_edge_def tf_isTerminal_def) blast
  then show ?thesis using q keeps_trans [OF q keeps_onTerminal] by simp
qed (simp add: rt_transitionTo_stay)

lemma keeps_fail [intro]: "keeps r (rt_fail ops e b r)"
proof -
  define r1 where "r1 = snd (rt_transitionTo ops Failed r)"
  have "keeps r r1" unfolding r1_def by blast
  also have "keeps r1 (if b then rt_notifyRemoteFailure e r1 else r1)"
    by (auto simp: rt_notifyRemoteFailure_def split: option.split intro: keeps_send)
  also have "keeps \<dots> (tf_emit (ErrorEv e) \<dots>)" by (rule keeps_emit) simp
  finally show ?thesis by (simp add: rt_fail_def tf_fail_def r1_def rt_transitionTo_def Let_def split: if_splits)
qed

lemma keeps_markCancelled [intro]: "keeps r (rt_markCancelled ops c r)"
proof -
  have q: "keeps r (snd (rt_transitionTo ops TCancelled r))" by blast
  then show ?thesis by (auto simp: rt_markCancelled_def Let_def split: option.split intro: keeps_trans [OF q keeps_emit])
qed

lemma keeps_tryComplete [intro]: "keeps r (rt_tryComplete r)"
  by (simp add: rt_tryComplete_def)

lemma keeps_frame [intro]: "keeps r (rt_frame ops q bs r)"
proof -
  define r1 where "r1 = r\<lparr>rt_received := js_add q (rt_received r), tf_transferredChunks := tf_transferredChunks r + 1,
    tf_transferredBytes := tf_transferredBytes r + length bs\<rparr>"
  have "keeps r r1" unfolding r1_def by simp
  also have "keeps r1 (tf_emitProgress r1)" unfolding tf_emitProgress_def by (rule keeps_emit) simp
  also have "keeps \<dots> (rt_enqueueChunk q bs \<dots>)" by (simp add: rt_enqueueChunk_def split: option.split)
  also have "keeps \<dots> (rt_tryComplete \<dots>)" by blast
  finally show ?thesis unfolding rt_frame_def rt_badFrame_def Let_def r1_def by (simp, blast)
qed

lemma keeps_decode [intro]: "keeps r (rt_decode ops j r)"
proof -
  define r0 where "r0 = r\<lparr>rt_inbox := take j (rt_inbox r) @ drop (Suc j) (rt_inbox r)\<rparr>"
  have q: "keeps r r0" unfolding r0_def by simp
  show ?thesis unfolding rt_decode_def Let_def r0_def [symmetric]
    by (auto split: sum.split intro: keeps_trans [OF q keeps_fail] keeps_trans [OF q keeps_frame])
qed

lemma keeps_chainStep [intro]: "keeps r (rt_chainStep ops subtle r)"
proof -
  have w: "keeps r (rt_writeFailed ops e (r\<lparr>rt_chain := c\<rparr>))" for e c
    unfolding rt_writeFailed_def by (rule keeps_trans [OF keeps_fields(4) keeps_trans [OF keeps_fail keeps_abortSink]])
  have "keeps r (rt_callWrite ops q bs c r)" for q bs c
    by (auto simp: rt_callWrite_def split: option.split sum.split)
  then show ?thesis using w by (simp add: rt_chainStep_def split: list.split write_job.split option.split sum.split)
qed

lemma keeps_close [intro]: "keeps r (rt_close ops r)"
proof -
  have q: "keeps r (snd (rt_transitionTo ops Completing r))" by blast
  show ?thesis unfolding rt_close_def Let_def
    by (auto split: option.split sum.split intro: q keeps_trans [OF q keeps_fields(5)] keeps_trans [OF q keeps_fields(15)])
qed

lemma keeps_mismatch [intro]: "keeps r (rt_mismatch ops msg r)"
proof -
  define r0 where "r0 = r\<lparr>rt_phase := CpOver\<rparr>"
  have q: "keeps r r0" by (simp add: r0_def)
  have "keeps r0 (rt_fail ops e False (rt_abortSink ops r1))" if "tf_sendControl (ChecksumMismatchMsg (tf_id r0)) r0 = Some r1" for e r1
    by (rule keeps_trans [OF keeps_send [OF that] keeps_trans [OF keeps_abortSink keeps_fail]]) simp
  then show ?thesis using q unfolding rt_mismatch_def Let_def r0_def [symmetric] by (auto split: option.split intro: keeps_trans [OF q])
qed

lemma keeps_completeStep:
  assumes "\<And>x. rt_phase r \<noteq> CpClose (Inr x)"
  shows "keeps r (rt_completeStep ops subtle r)"
  using assms keeps_trans [OF keeps_fields(5) keeps_fail, of r] unfolding rt_completeStep_def
  by (simp split: completion.split option.split sum.split) blast

lemma keeps_accept:
  assumes "\<And>m k e. sk_open ops m k \<noteq> Inl e"
  shows "keeps r (rt_accept ops k r)"
proof -
  define r1 where "r1 = r\<lparr>rt_sink := Some k, rt_digest := (if rt_checksum r then Some [] else None)\<rparr>"
  define r2 where "r2 = snd (rt_transitionTo ops Accepted r1)"
  have "keeps r r1" unfolding r1_def by simp
  also have "keeps r1 r2" unfolding r2_def by blast
  finally have q: "keeps r r2" .
  show ?thesis unfolding rt_accept_def Let_def r1_def [symmetric] r2_def [symmetric]
    using assms by (auto split: sum.split intro: keeps_trans [OF q])
qed

lemma keeps_opened [intro]: "keeps r (rt_opened ops r)"
proof -
  define r0 where "r0 = r\<lparr>rt_opening := None\<rparr>"
  define r1 where "r1 = snd (rt_transitionTo ops Active r0)"
  have q0: "keeps r r0" unfolding r0_def by simp
  also have "keeps r0 r1" unfolding r1_def by blast
  finally have q1: "keeps r r1" .
  have "keeps r r2" if "tf_sendControl (Accept i h) r1 = Some r2" for r2 i h
    by (rule keeps_trans [OF q1 keeps_send [OF that]]) simp
  then show ?thesis unfolding rt_opened_def Let_def r0_def [symmetric] r1_def [symmetric]
    by (auto split: option.split sum.split intro: keeps_trans [OF q0 keeps_fail] keeps_trans [OF q1 keeps_fail])
qed

lemma keeps_public [intro]:
  "keeps r (snd (rt_reject ops c r))" "keeps r (rt_attachChannel ch r)" "keeps r (rt_handleControl ops m r)" "keeps r (snd (rt_pause ops r))"
  "keeps r (snd (rt_resume ops r))" "keeps r (snd (rt_cancel ops c r))" "keeps r (snd (rt_requestResume r))" "keeps r (rt_onMessage d r)"
proof -
  have s: "keeps r r2" if "keeps r r1" "tf_sendControl m r1 = Some r2" "\<And>i. m \<noteq> Complete i" for m r1 r2
    by (rule keeps_trans [OF that(1) keeps_send [OF that(2)]]) (use that(3) in blast)
  show "keeps r (snd (rt_reject ops c r))"
    unfolding rt_reject_def by (auto split: option.split intro: keeps_trans [OF keeps_send keeps_transitionTo])
  show "keeps r (snd (rt_cancel ops c r))"
    unfolding rt_cancel_def by (auto split: option.split intro: keeps_trans [OF keeps_send keeps_markCancelled])
  show "keeps r (snd (rt_pause ops r))" "keeps r (snd (rt_resume ops r))" "keeps r (snd (rt_requestResume r))"
    unfolding rt_pause_def rt_resume_def rt_requestResume_def Let_def by (auto split: option.split intro: s)
  show "keeps r (rt_handleControl ops m r)"
    unfolding rt_handleControl_def by (auto split: control_message.split intro: keeps_trans [OF keeps_fields(9) keeps_tryComplete])
qed (simp_all add: rt_attachChannel_def rt_onMessage_def)

lemma keeps_exec:
  "(\<And>m k e. sk_open ops m k \<noteq> Inl e) \<Longrightarrow> (ev = RxComplete \<Longrightarrow> \<forall>x. rt_phase r \<noteq> CpClose (Inr x)) \<Longrightarrow> keeps r (rt_exec ops subtle ev r)"
  by (cases ev) (auto simp: rt_exec_def intro: keeps_completeStep keeps_accept)

definition reported :: "bytes \<Rightarrow> 'k receive_transfer \<Rightarrow> bool" where
  "reported content r \<longleftrightarrow>
     (\<forall>x. rt_result r = Some x \<longrightarrow> tf_state r \<in> {Failed, TCancelled} \<or> sr_bytes x = Some content) \<and>
     (\<forall>i. Control (Complete i) \<in> set (tf_log r) \<longrightarrow> rt_result r \<noteq> None)"

lemma reported_keeps: "reported content r \<Longrightarrow> keeps r r' \<Longrightarrow> reported content r'"
  by (auto simp: reported_def keeps_def)

lemma honest_delivered:
  assumes d: "memory.delivered subtle E acc x r" and files: "rt_files (honest (tf_chunkSize r) content) E acc r"
    and r: "0 < tf_chunkSize r" "fm_size (tf_metadata r) = length content" "tf_totalChunks r = ft_chunks (length content) (tf_chunkSize r)"
  shows "sr_bytes x = Some content"
proof (rule memory_delivered [OF d files])
  fix b
  assume b: "x = \<lparr>sr_bytes = Some b, sr_path = None\<rparr>" "length b = fm_size (tf_metadata r)"
    "\<And>seq j. seq < tf_totalChunks r \<Longrightarrow> j < length (acc seq) \<Longrightarrow> b ! (seq * tf_chunkSize r + j) = acc seq ! j"
    and ok: "\<And>seq. seq < tf_totalChunks r \<Longrightarrow> honest (tf_chunkSize r) content seq (acc seq) \<and> seq * tf_chunkSize r + length (acc seq) \<le> fm_size (tf_metadata r)"
  have "acc seq = ft_chunk (tf_chunkSize r) content seq" if "seq < tf_totalChunks r" for seq
    using ok [OF that] by (simp add: honest_def)
  then have "b = content" using b(2,3) r by (intro chunks_file [of "tf_chunkSize r"]) auto
  then show ?thesis using b(1) by simp
qed

lemma reported_finish:
  assumes inv: "memory.rt_inv subtle (honest (tf_chunkSize r) content) E acc r" and ph: "rt_phase r = CpClose (Inr x)" and op: "opens r"
    and r: "0 < tf_chunkSize r" "fm_size (tf_metadata r) = length content" "tf_totalChunks r = ft_chunks (length content) (tf_chunkSize r)"
  shows "reported content (rt_finish memory_ops x r)"
proof -
  have parts: "rt_files (honest (tf_chunkSize r) content) E acc r" "rt_jobs acc r" "rt_ended r" "memory.rt_store subtle E acc r"
    using inv by (simp_all add: memory.rt_inv_def)
  have x: "tf_state r \<in> {Failed, TCancelled} \<or> sr_bytes x = Some content"
  proof (cases "tf_isTerminal r")
    case True
    then show ?thesis using parts(3) ph by (auto simp: terminal_simps rt_ended_def)
  next
    case False
    then have "rt_sound r" using op parts(2) ph by (simp add: rt_sound_def opens_def rt_jobs_def job_lost_def)
    then show ?thesis using honest_delivered [OF memory.rt_storeD(4) [OF parts(4) _ ph] parts(1) r] by simp
  qed
  define r0 where "r0 = r\<lparr>rt_result := Some x, rt_sinkFinalized := True, rt_phase := CpOver\<rparr>"
  have r0: "rt_result r0 = Some x" "tf_state r0 = tf_state r" by (simp_all add: r0_def)
  define r1 where "r1 = tf_emit (Control (Complete (tf_id r0))) r0"
  have rep: "reported content r0" "reported content r1" using x r0 by (auto simp: reported_def r1_def tf_emit_def)
  define r2 where "r2 = snd (rt_transitionTo memory_ops Completed r1)"
  have k: "reported content r2" "reported content (tf_emit (CompleteEv i) r2)" for i
    unfolding r2_def by (auto intro: reported_keeps [OF rep(2)] keeps_trans [OF keeps_transitionTo keeps_emit])
  then show ?thesis using rep(1)
    by (simp add: rt_finish_def r0_def [symmetric] tf_sendControl_def r1_def [symmetric] split_def r2_def [symmetric] Let_def)
qed

lemma opens_finish: "opens r \<Longrightarrow> opens (rt_finish ops x r)"
  by (auto simp: rt_finish_def Let_def split_def opens_def dest!: tf_sendControl_Some split: option.split)

section \<open>What completes a sender\<close>

lemma st_release_state [simp]: "tf_state (st_release s) = tf_state s"
proof -
  have "tf_state (fold (\<lambda>(r, i) s. st_setPc r i (gate_open (st_pc s r i)) s) xs t) = tf_state t" for xs t
    by (induction xs arbitrary: t) (auto simp: st_setPc_def)
  then show ?thesis by (simp add: st_release_def)
qed

lemma st_closeChannel_state [simp]: "tf_state (fold st_closeChannel xs s) = tf_state s"
  by (induction xs arbitrary: s) (simp_all add: st_closeChannel_def)

lemma st_onTerminal_state [simp]: "tf_state (st_onTerminal s) = tf_state s"
  by (simp add: st_onTerminal_def st_clearOfferTimer_def Let_def)

lemma st_transitionTo_state [simp]: "tf_state (snd (st_transitionTo n s)) = fst (ft_move (tf_state s) n)"
  unfolding st_transitionTo_def by (rule tf_transitionTo_move) simp

lemma ft_move_Completed: "n \<noteq> Completed \<Longrightarrow> fst (ft_move st n) = Completed \<longleftrightarrow> st = Completed"
  by (auto simp: ft_move_def ft_edge_def TERMINAL_def)

lemma stays_fail [simp]: "(\<And>e s. tf_state (notify e s) = Completed \<longleftrightarrow> tf_state s = Completed) \<Longrightarrow>
  tf_state (tf_fail st_onTerminal notify e b s) = Completed \<longleftrightarrow> tf_state s = Completed"
  by (simp add: tf_fail_def Let_def st_transitionTo_def [symmetric] ft_move_Completed)

lemma stays_safeControl [simp]: "tf_state (st_safeControl m s) = Completed \<longleftrightarrow> tf_state s = Completed"
  by (auto simp: st_safeControl_def tf_sendControl_def)

lemma stays_helpers [simp]:
  "tf_state (st_fail e b s) = Completed \<longleftrightarrow> tf_state s = Completed" "tf_state (st_sendOffer enc s) = Completed \<longleftrightarrow> tf_state s = Completed"
  "tf_state (st_clearOfferTimer s) = tf_state s" "tf_state (st_armOfferTimeout w s) = tf_state s"
  "tf_state (st_markCancelled c s) = Completed \<longleftrightarrow> tf_state s = Completed"
  "tf_state (snd (st_applyPause s)) = Completed \<longleftrightarrow> tf_state s = Completed"
  "tf_state (snd (st_applyResume s)) = Completed \<longleftrightarrow> tf_state s = Completed"
  "tf_state (st_interrupt s) = Completed \<longleftrightarrow> tf_state s = Completed"
  by (simp_all add: st_fail_def st_notifyRemoteFailure_def st_sendOffer_def st_clearOfferTimer_def st_armOfferTimeout_def st_markCancelled_def
      st_applyPause_def st_applyResume_def st_interrupt_def Let_def split_def ft_move_Completed split: option.split)

lemma stays_begin [simp]: "tf_state (st_begin h s) = Completed \<longleftrightarrow> tf_state s = Completed"
proof -
  have "tf_state (st_run h g t) = Completed \<longleftrightarrow> tf_state t = Completed" for g t
    by (simp add: st_run_def Let_def split_def ft_move_Completed)
  then show ?thesis by (simp add: st_begin_def Let_def split_def ft_move_Completed)
qed

lemma stays_worker [simp]: "tf_state (st_workerStep src subtle r i fault s) = tf_state s"
proof -
  have f: "tf_state (st_workerFailed r i e s) = tf_state s" for e s by (simp add: st_workerFailed_def st_setRun_def Let_def)
  have l: "tf_state (st_loop r i q s) = tf_state s" "tf_state (st_continue r i q s) = tf_state s" for q s
    by (simp_all add: st_loop_def st_continue_def)
  have d: "tf_state (st_drain r i q bs s) = tf_state s" for q bs s by (simp add: st_drain_def Let_def split_def)
  have h: "tf_state (st_hashed subtle r i q bs s) = tf_state s" for q bs
    by (simp add: st_hashed_def Let_def f l d st_setRun_def split: option.split sum.split)
  have "tf_state (st_frameSent r i q bs s) = tf_state s" for q bs by (simp add: st_frameSent_def Let_def tf_emitProgress_def)
  then have "tf_state (st_send r i q bs fault s) = tf_state s" for q bs
    by (simp add: st_send_def Let_def f l split: option.split)
  then show ?thesis
    by (simp add: st_workerStep_def Let_def f l h st_gatePassed_def st_read_def d split: worker_pc.split promise.split option.split)
qed

lemma stays_runStep [simp]: "tf_state (st_runStep subtle r s) = Completed \<longleftrightarrow> tf_state s = Completed"
proof -
  have "tf_state (st_caught g e t) = Completed \<longleftrightarrow> tf_state t = Completed" for g e t by (simp add: st_caught_def Let_def)
  moreover have "tf_state (st_sent d t) = Completed \<longleftrightarrow> tf_state t = Completed" for d t by (simp add: st_sent_def Let_def ft_move_Completed)
  ultimately show ?thesis by (simp add: st_runStep_def Let_def st_setRun_def split: run_phase.split sum.split)
qed

lemma stays_exec:
  assumes "tf_state (st_exec enc src subtle ev s) = Completed" "\<And>i. ev \<noteq> TxControl (Complete i)"
  shows "tf_state s = Completed"
proof (cases ev)
  case (TxControl m)
  then show ?thesis using assms by (cases m) (simp_all add: st_exec_def st_handleControl_def Let_def)
qed (use assms in \<open>simp_all add: st_exec_def st_start_def st_reoffer_def st_pause_def st_resume_def st_cancel_def st_timeout_def
      st_channelEvent_def Let_def split_def ft_move_Completed split: option.splits if_splits\<close>)

section \<open>End to end\<close>

lemma finish_log:
  assumes "Control (Complete i) \<in> set (tf_log r)"
  shows "Control (Complete i) \<in> set (tf_log (rt_finish ops x r))"
proof -
  define r0 where "r0 = r\<lparr>rt_result := Some x, rt_sinkFinalized := True, rt_phase := CpOver\<rparr>"
  define r1 where "r1 = tf_emit (Control (Complete (tf_id r0))) r0"
  have l: "Control (Complete i) \<in> set (tf_log r0)" "Control (Complete i) \<in> set (tf_log r1)"
    using assms by (simp_all add: r0_def r1_def tf_emit_def)
  have "keeps r1 (snd (rt_transitionTo ops Completed r1))" by blast
  then have "Control (Complete i) \<in> set (tf_log (snd (rt_transitionTo ops Completed r1)))" using l(2) by (auto simp: keeps_def)
  then show ?thesis using l(1)
    by (simp add: rt_finish_def r0_def [symmetric] tf_sendControl_def r1_def [symmetric] split_def Let_def) (simp add: tf_emit_def)
qed

lemma ft_reach_reported:
  assumes reach: "ft_reach enc src subtle memory_ops (st_new p net) (rt_new tid peer meta (sp_chunkSize p) (ft_chunks (length content) (sp_chunkSize p)) cks) s r"
    and src: "file_source src content" and sha: "hash_32 subtle"
    and p: "0 < sp_chunkSize p" "sp_channels p \<noteq> []" "fm_size (sp_metadata p) = length content" "fm_size meta = length content"
    and big: "ft_chunks (length content) (sp_chunkSize p) \<le> 2 ^ 32"
  shows "opens r \<and> reported content r \<and> (tf_state s = Completed \<longrightarrow> (\<exists>i. Control (Complete i) \<in> set (tf_log r)))"
  using reach
proof (induction rule: ft_reach.induct)
  case ft_init
  show ?case
    by (simp add: opens_def reported_def rt_new_def tf_new_def tf_transitionTo_def transfer.defs Let_def terminal_simps tf_emit_def st_new_def)
next
  case (ft_tx s r ev)
  then show ?case using stays_exec [of enc src subtle ev s] by blast
next
  case (ft_rx s r ev)
  have inv: "(\<exists>acc. memory.rt_inv subtle (honest (sp_chunkSize p) content) (announced subtle (sp_chunkSize p) content) acc r)"
    "rt_fixed r = (meta, sp_chunkSize p, ft_chunks (length content) (sp_chunkSize p), cks)"
    using ft_reach_inv [OF ft_rx.hyps(1) src _ sha p(1-3) big] memory.storage_sink_axioms by blast+
  have op: "sk_open memory_ops m k \<noteq> Inl e" for m k e by (simp add: memory_ops_def)
  show ?case
  proof (cases "ev = RxComplete \<and> (\<exists>x. rt_phase r = CpClose (Inr x))")
    case False
    then have k: "keeps r (rt_exec memory_ops subtle ev r)" using op by (intro keeps_exec) auto
    then show ?thesis using ft_rx.IH reported_keeps [OF _ k] by (auto simp: keeps_def)
  next
    case True
    then obtain x where x: "ev = RxComplete" "rt_phase r = CpClose (Inr x)" by blast
    have e: "rt_exec memory_ops subtle ev r = rt_finish memory_ops x r" using x by (simp add: rt_exec_def rt_completeStep_def)
    obtain acc where i: "memory.rt_inv subtle (honest (tf_chunkSize r) content) (announced subtle (sp_chunkSize p) content) acc r"
      using inv by (auto simp: rt_fixed_def)
    have "reported content (rt_finish memory_ops x r)"
      using inv(2) x(2) ft_rx.IH p by (intro reported_finish [OF i]) (auto simp: rt_fixed_def)
    then show ?thesis using ft_rx.IH opens_finish finish_log unfolding e by blast
  qed
qed

text \<open>(C4) End to end: a \<^verbatim>\<open>SendTransfer\<close> reads a blob and a \<^verbatim>\<open>ReceiveTransfer\<close> writes to memory, over a network that loses, repeats and reorders
  frames and control messages at will, with workers, pauses, cancellations, channel failures, resumptions and link failures interleaved in every
  possible way. If the receiver ends completed, its result is the file, with or without a checksum. If the sender ends completed, the receiver
  holds the file or has ended failed or cancelled.\<close>

theorem ft_end_to_end:
  assumes reach: "ft_reach enc (bs_slice b) subtle memory_ops (st_new p net)
      (rt_new tid peer meta (sp_chunkSize p) (ft_chunks (bs_size b) (sp_chunkSize p)) cks) s r"
    and sha: "hash_32 subtle" and p: "0 < sp_chunkSize p" "sp_channels p \<noteq> []" "fm_size (sp_metadata p) = bs_size b" "fm_size meta = bs_size b"
    and big: "ft_chunks (bs_size b) (sp_chunkSize p) \<le> 2 ^ 32"
  shows "(tf_state r = Completed \<longrightarrow> map_option sr_bytes (rt_result r) = Some (Some (bs_blob b))) \<and>
    (tf_state s = Completed \<longrightarrow> tf_state r \<in> {Failed, TCancelled} \<or> map_option sr_bytes (rt_result r) = Some (Some (bs_blob b)))"
proof (intro conjI impI)
  note u = reach [unfolded bs_size_def] blob.file_source_axioms sha p(1,2) p(3,4) [unfolded bs_size_def] big [unfolded bs_size_def]
  have rep: "reported (bs_blob b) r" "tf_state s = Completed \<Longrightarrow> \<exists>i. Control (Complete i) \<in> set (tf_log r)"
    using ft_reach_reported [OF u] by blast+
  obtain acc where "memory.rt_inv subtle (honest (sp_chunkSize p) (bs_blob b)) (announced subtle (sp_chunkSize p) (bs_blob b)) acc r"
    using ft_reach_inv [OF u(1,2) memory.storage_sink_axioms u(3-6,8)] by blast
  then show "map_option sr_bytes (rt_result r) = Some (Some (bs_blob b))" if "tf_state r = Completed"
    using memory.rt_storeD(5) [where s = r] that rep(1) by (force simp: memory.rt_inv_def reported_def)
  show "tf_state r \<in> {Failed, TCancelled} \<or> map_option sr_bytes (rt_result r) = Some (Some (bs_blob b))" if "tf_state s = Completed"
    using rep that by (auto simp: reported_def)
qed

subsection \<open>A run of the system\<close>

datatype 'k sys_event = STx st_event | SRx "'k rt_event"

fun ft_allowed :: "'k sys_event \<Rightarrow> send_transfer \<Rightarrow> 'k receive_transfer \<Rightarrow> bool" where
  "ft_allowed (STx ev) s r \<longleftrightarrow> tx_ok ev \<and> (case ev of TxControl m \<Rightarrow> Control m \<in> set (tf_log r) | _ \<Rightarrow> True)"
| "ft_allowed (SRx ev) s r \<longleftrightarrow>
     (case ev of RxMessage d \<Rightarrow> d \<in> set (map (\<lambda>f. Binary (sf_frame f)) (st_wire s)) | RxControl m \<Rightarrow> Control m \<in> set (tf_log s) | _ \<Rightarrow> True)"

fun ft_sys ::
  "(utf16 \<Rightarrow> string) \<Rightarrow> (nat \<Rightarrow> nat \<Rightarrow> bytes) \<Rightarrow> hasher \<Rightarrow> 'k sink_ops \<Rightarrow> 'k sys_event list \<Rightarrow>
   send_transfer \<Rightarrow> 'k receive_transfer \<Rightarrow> (send_transfer \<times> 'k receive_transfer) option" where
  "ft_sys enc src subtle ops [] s r = Some (s, r)"
| "ft_sys enc src subtle ops (ev # evs) s r =
     (if \<not> ft_allowed ev s r then None
      else (case ev of
              STx e \<Rightarrow> ft_sys enc src subtle ops evs (st_exec enc src subtle e s) r
            | SRx e \<Rightarrow> ft_sys enc src subtle ops evs s (rt_exec ops subtle e r)))"

lemma ft_sys_reach:
  "ft_sys enc src subtle ops evs s r = Some (s', r') \<Longrightarrow> ft_reach enc src subtle ops s0 r0 s r \<Longrightarrow> ft_reach enc src subtle ops s0 r0 s' r'"
proof (induction evs arbitrary: s r)
  case (Cons ev evs)
  show ?case
  proof (cases ev)
    case (STx e)
    have "ft_reach enc src subtle ops s0 r0 (st_exec enc src subtle e s) r"
      using Cons.prems STx by (intro ft_tx [OF Cons.prems(2)]) (auto split: if_splits)
    then show ?thesis using Cons.IH Cons.prems(1) STx by (simp split: if_splits)
  next
    case (SRx e)
    have "ft_reach enc src subtle ops s0 r0 s (rt_exec ops subtle e r)"
      using Cons.prems SRx by (intro ft_rx [OF Cons.prems(2)]) (auto split: if_splits)
    then show ?thesis using Cons.IH Cons.prems(1) SRx by (simp split: if_splits)
  qed
qed simp

definition ex_channels :: "nat \<Rightarrow> rtc_channel" where
  "ex_channels c = \<lparr>ch_label = dataChannelLabel ''t'' c, ch_ready = ChConnecting, ch_buffered = 0, ch_lowThreshold = 0\<rparr>"

definition ex_params :: send_params where
  "ex_params = \<lparr>sp_id = ''t'', sp_peerId = ''q'', sp_metadata = \<lparr>fm_name = u16 ''f'', fm_mimeType = ''text/plain'', fm_size = 5\<rparr>, sp_channels = [0, 1],
     sp_chunkSize = 2, sp_highWaterMark = 4, sp_lowWaterMark = 1, sp_checksum = True, sp_offerTimeoutMs = 5, sp_resumable = True\<rparr>"

definition ex_blob :: blob_source where
  "ex_blob = bs_new [1, 2, 3, 4, 5] ''text/plain'' None (Some (u16 ''f''))"

definition ex_enc :: "utf16 \<Rightarrow> string" where
  "ex_enc u = map (\<lambda>w. char_of (unat w)) u"

text \<open>Two channels: the second one drops in the middle of the transfer, which resumes on channels 2 and 3; frames arrive out of order and twice.\<close>

definition ex_system :: "memory_sink sys_event list" where
  "ex_system =
     (let w = (\<lambda>r i. STx (TxWorker r i None)) in
      [STx TxStart, SRx (RxAccept ms_new), SRx RxOpened, STx (TxControl (Accept ''t'' (Some []))), STx (TxChannel 0 ChOpens), STx (TxChannel 1 ChOpens)] @
      replicate 5 (w 0 0) @ replicate 4 (w 0 1) @ [STx (TxChannel 1 ChCloses), w 0 1, STx (TxRun 0)] @
      [SRx (RxMessage (Binary (encodeFrame 0 [1, 2]))), SRx (RxDecode 0)] @
      [STx (TxReoffer [2, 3]), SRx RxRequestResume, STx (TxControl (ResumeRequest ''t'' [0])), STx (TxChannel 2 ChOpens), STx (TxChannel 3 ChOpens)] @
      replicate 10 (w 1 0) @ replicate 5 (w 1 1) @ [STx (TxRun 1), STx (TxRun 1)] @
      [SRx (RxControl (Sent ''t'' (Some (ft_digest ex_sha 2 [1, 2, 3, 4, 5])))), SRx (RxMessage (Binary (encodeFrame 2 [5]))),
       SRx (RxMessage (Binary (encodeFrame 2 [5]))), SRx (RxMessage (Binary (encodeFrame 1 [3, 4]))), SRx (RxDecode 2), SRx (RxDecode 0), SRx (RxDecode 0)] @
      replicate 9 (SRx RxWrite) @ replicate 3 (SRx RxComplete) @ [STx (TxControl (Complete ''t''))])"

definition ex_finished :: "(send_transfer \<times> memory_sink receive_transfer) option" where
  "ex_finished = ft_sys ex_enc (bs_slice ex_blob) (Some ex_sha) memory_ops ex_system (st_new ex_params ex_channels)
     (rt_new ''t'' ''p'' (sp_metadata ex_params) 2 3 True)"

lemma ex_finished_both: "map_option (\<lambda>(s, r). (tf_state s, tf_state r)) ex_finished = Some (Completed, Completed)"
  by code_simp

theorem ft_end_to_end_witness:
  "\<exists>s r. ft_reach ex_enc (bs_slice ex_blob) (Some ex_sha) memory_ops (st_new ex_params ex_channels)
      (rt_new ''t'' ''p'' (sp_metadata ex_params) (sp_chunkSize ex_params) (ft_chunks (bs_size ex_blob) (sp_chunkSize ex_params)) True) s r \<and>
    tf_state s = Completed \<and> tf_state r = Completed \<and> map_option sr_bytes (rt_result r) = Some (Some [1, 2, 3, 4, 5])"
proof -
  obtain s r where e: "ex_finished = Some (s, r)" "tf_state s = Completed" "tf_state r = Completed" using ex_finished_both by auto
  have n: "sp_chunkSize ex_params = 2" "ft_chunks (bs_size ex_blob) 2 = 3" "bs_blob ex_blob = [1, 2, 3, 4, 5]"
    "fm_size (sp_metadata ex_params) = bs_size ex_blob" "sp_channels ex_params \<noteq> []" by code_simp+
  have r: "ft_reach ex_enc (bs_slice ex_blob) (Some ex_sha) memory_ops (st_new ex_params ex_channels)
      (rt_new ''t'' ''p'' (sp_metadata ex_params) (sp_chunkSize ex_params) (ft_chunks (bs_size ex_blob) (sp_chunkSize ex_params)) True) s r"
    using e(1) unfolding ex_finished_def n(1,2) by (rule ft_sys_reach) (rule ft_init)
  have "hash_32 (Some ex_sha)" by (simp add: hash_32_def ex_sha_length)
  from ft_end_to_end [OF r this] show ?thesis using r e n by auto
qed

end
