(* ===== verification/FtSender.thy ===== *)
theory FtSender
  imports FtSystem
begin

text \<open>
  Properties of the sender alone: what it has put on the wire when it announces that everything is sent, its progress counters, and the states from which it
  never completes.
\<close>

section \<open>What is on the wire\<close>

lemma chunk_lengths: "sum_list (map (\<lambda>q. length (ft_chunk cs content q)) [0..<k]) = min (k * cs) (length content)"
proof (induction k)
  case (Suc k)
  then show ?case by (auto simp: ft_chunk_length min_def)
qed simp

lemma ft_chunks_enough: "0 < cs \<Longrightarrow> n \<le> ft_chunks n cs * cs"
proof (rule ccontr)
  assume cs: "0 < cs" and "\<not> n \<le> ft_chunks n cs * cs"
  then show False using ft_chunks_cover [of cs "ft_chunks n cs * cs" n] by simp
qed

lemma counters_bounded:
  assumes "st_inv subtle content s"
  shows "tf_transferredChunks s \<le> tf_totalChunks s" "tf_transferredBytes s \<le> fm_size (tf_metadata s)"
proof -
  let ?n = "tf_totalChunks s" and ?len = "\<lambda>q. length (ft_chunk (tf_chunkSize s) content q)"
  have c: "distinct (st_sentSeqs s)" "set (st_sentSeqs s) \<subseteq> {..<?n}" "tf_transferredChunks s = length (st_sentSeqs s)"
    "tf_transferredBytes s = sum_list (map ?len (st_sentSeqs s))"
    using assms by (auto simp: st_inv_def st_counters_ok_def st_wire_ok_def)
  have f: "fm_size (tf_metadata s) = length content" "0 < tf_chunkSize s" "?n = ft_chunks (length content) (tf_chunkSize s)"
    using assms by (simp_all add: st_inv_def st_file_ok_def)
  show "tf_transferredChunks s \<le> ?n" using card_mono [OF _ c(2)] c(1,3) by (simp add: distinct_card)
  have "tf_transferredBytes s = sum ?len (set (st_sentSeqs s))" using c(1,4) by (simp add: sum_list_distinct_conv_sum_set)
  also have "\<dots> \<le> sum ?len {..<?n}" using c(2) by (intro sum_mono2) auto
  also have "\<dots> = sum_list (map ?len [0..<?n])" by (simp add: sum_list_distinct_conv_sum_set atLeast0LessThan)
  also have "\<dots> \<le> length content" unfolding chunk_lengths by simp
  finally show "tf_transferredBytes s \<le> fm_size (tf_metadata s)" by (simp add: f)
qed

lemma complete_run_exact:
  assumes "run_ok subtle C n cks stale run sent" "run_complete n run sent"
  shows "sort sent = filter (\<lambda>q. q \<notin> set (rn_have run)) [0..<n]"
proof (rule sorted_distinct_set_unique)
  show "set (sort sent) = set (filter (\<lambda>q. q \<notin> set (rn_have run)) [0..<n])"
    using assms by (auto simp: run_ok_def run_complete_def handled_def)
qed (use assms in \<open>auto simp: run_ok_def sorted_wrt_filter\<close>)

text \<open>(C5) A sender over a blob, under any sequence of events. Every frame it sends is the frame of a chunk of the file, no run of the workers sends a chunk twice,
  and the progress never exceeds the number of chunks or the size of the file. When it has announced that all is sent, some run has sent exactly
  the chunks that the receiver did not report to have, and the digest it announced is that of the file.\<close>

theorem ft_send_exact:
  fixes evs p b subtle enc net
  defines "s \<equiv> st_runAll enc (bs_slice b) subtle evs (st_new p net)" and "n \<equiv> ft_chunks (bs_size b) (sp_chunkSize p)"
  assumes "hash_32 subtle" "0 < sp_chunkSize p" "sp_channels p \<noteq> []" "fm_size (sp_metadata p) = bs_size b" "\<And>ev. ev \<in> set evs \<Longrightarrow> tx_ok ev"
  shows "(\<forall>f \<in> set (st_wire s). sf_seq f < n \<and> sf_frame f = encodeFrame (sf_seq f) (ft_chunk (sp_chunkSize p) (bs_blob b) (sf_seq f))) \<and>
    (\<forall>run \<in> set (st_runs s). distinct (sent_by (rn_gen run) (st_wire s))) \<and>
    tf_transferredChunks s \<le> n \<and> tf_transferredBytes s \<le> bs_size b \<and>
    (\<forall>i d. Control (Sent i d) \<in> set (tf_log s) \<longrightarrow>
       (\<exists>run \<in> set (st_runs s). sort (sent_by (rn_gen run) (st_wire s)) = filter (\<lambda>q. q \<notin> set (rn_have run)) [0..<n]) \<and>
       (if sp_checksum p then \<exists>sha. subtle = Some sha \<and> d = Some (ft_digest sha (sp_chunkSize p) (bs_blob b)) else d = None))"
proof -
  have inv: "st_inv subtle (bs_blob b) s"
    unfolding s_def using assms by (intro blob.st_inv_runAll st_inv_new) (simp_all add: bs_size_def)
  have "st_fixed s = st_fixed (st_new p net)"
  proof -
    have "st_fixed (st_runAll enc (bs_slice b) subtle es t) = st_fixed t" if "\<And>ev. ev \<in> set es \<Longrightarrow> tx_ok ev" for es t
      using that by (induction es arbitrary: t) (simp_all add: st_runAll_def)
    then show ?thesis unfolding s_def using assms(7) by blast
  qed
  then have fx: "tf_chunkSize s = sp_chunkSize p" "tf_totalChunks s = n" "st_checksum s = sp_checksum p" "fm_size (tf_metadata s) = bs_size b"
    using assms(6) by (simp_all add: st_fixed_def st_new_def tf_new_def transfer.defs n_def)
  have ok: "run_ok subtle (ft_chunk (sp_chunkSize p) (bs_blob b)) n (sp_checksum p) (run_stale s run) run (sent_by (rn_gen run) (st_wire s))"
    if "run \<in> set (st_runs s)" for run using inv that by (simp add: st_inv_def st_runs_ok_def fx)
  have "\<exists>run \<in> set (st_runs s). sort (sent_by (rn_gen run) (st_wire s)) = filter (\<lambda>q. q \<notin> set (rn_have run)) [0..<n]"
    if "Control (Sent i d) \<in> set (tf_log s)" for i d
    using inv that complete_run_exact [OF ok] unfolding st_inv_def st_sent_ok_def fx by meson
  moreover have "\<forall>run \<in> set (st_runs s). distinct (sent_by (rn_gen run) (st_wire s))" using ok unfolding run_ok_def by blast
  ultimately show ?thesis
    using inv counters_bounded [OF inv] unfolding st_inv_def st_wire_ok_def st_sent_ok_def fx by blast
qed

definition ex_sender :: "st_event list" where
  "ex_sender = [TxStart, TxControl (Accept ''t'' (Some [1])), TxChannel 0 ChOpens, TxChannel 1 ChOpens] @
     replicate 9 (TxWorker 0 0 None) @ [TxChannel 0 (ChDrains 6), TxWorker 0 0 None] @ replicate 5 (TxWorker 0 1 None) @ [TxRun 0, TxRun 0]"

theorem ft_send_exact_witness:
  "let s = st_runAll ex_enc (bs_slice ex_blob) (Some ex_sha) ex_sender (st_new ex_params ex_channels) in
   Control (Sent ''t'' (Some (ft_digest ex_sha 2 [1, 2, 3, 4, 5]))) \<in> set (tf_log s) \<and> map sf_seq (st_wire s) = [0, 2] \<and>
   (\<exists>run \<in> set (st_runs s). sort (sent_by (rn_gen run) (st_wire s)) = filter (\<lambda>q. q \<notin> set (rn_have run)) [0..<3]) \<and>
   tf_transferredBytes s \<le> 5"
proof -
  have e: "Control (Sent ''t'' (Some (ft_digest ex_sha 2 [1, 2, 3, 4, 5]))) \<in>
      set (tf_log (st_runAll ex_enc (bs_slice ex_blob) (Some ex_sha) ex_sender (st_new ex_params ex_channels)))"
    "map sf_seq (st_wire (st_runAll ex_enc (bs_slice ex_blob) (Some ex_sha) ex_sender (st_new ex_params ex_channels))) = [0, 2]"
    by code_simp+
  have n: "sp_chunkSize ex_params = 2" "ft_chunks (bs_size ex_blob) 2 = 3" "bs_size ex_blob = 5" "fm_size (sp_metadata ex_params) = bs_size ex_blob"
    "sp_channels ex_params \<noteq> []" by code_simp+
  have h: "hash_32 (Some ex_sha)" by (simp add: hash_32_def ex_sha_length)
  have t: "tx_ok ev" if "ev \<in> set ex_sender" for ev using that by (auto simp: ex_sender_def)
  from ft_send_exact [of "Some ex_sha" ex_params ex_blob ex_sender ex_enc ex_channels] show ?thesis
    using h n t e unfolding Let_def by auto
qed

section \<open>States from which a sender never completes\<close>

definition st_stuck :: "send_transfer \<Rightarrow> bool" where
  "st_stuck s \<longleftrightarrow> tf_state s \<in> {Active, Paused, Failed, TCancelled} \<and> \<not> st_interrupted s \<and> (\<forall>run \<in> set (st_runs s). rn_phase run = RnOver)"

lemma stuck_quiet:
  assumes "st_stuck s" "quiet s s'" "tf_state s' \<in> {Active, Paused, Failed, TCancelled}" "\<not> st_interrupted s'"
  shows "st_stuck s'"
proof -
  have "rn_phase run = RnOver" if r: "run \<in> set (st_runs s')" for run
  proof -
    obtain x where "x \<in> set (st_runs s)" "run_norm run = run_norm x" using quiet_runs [OF assms(2) r] .
    then show ?thesis using assms(1) by (metis run_norm_fields(3) st_stuck_def)
  qed
  then show ?thesis using assms(3,4) by (simp add: st_stuck_def)
qed

definition calm :: "send_transfer \<Rightarrow> send_transfer \<Rightarrow> bool" where
  "calm s s' \<longleftrightarrow> quiet s s' \<and> (st_interrupted s' \<longrightarrow> st_interrupted s) \<and>
     (tf_state s' = tf_state s \<or> tf_state s' \<in> {Failed, TCancelled} \<or> tf_state s \<in> {Active, Paused} \<and> tf_state s' \<in> {Active, Paused})"

lemma stuck_calm:
  assumes s: "st_stuck s" and c: "calm s s'"
  shows "st_stuck s'"
proof (rule stuck_quiet [OF s])
  have "tf_state s \<in> {Active, Paused, Failed, TCancelled}" using s by (simp add: st_stuck_def)
  then show "tf_state s' \<in> {Active, Paused, Failed, TCancelled}" using c unfolding calm_def by (elim conjE disjE) auto
  show "\<not> st_interrupted s'" using s c by (simp add: calm_def st_stuck_def)
qed (use c in \<open>simp add: calm_def\<close>)

lemma interrupted_fields [simp]:
  "st_interrupted (tf_emit x s) = st_interrupted s" "st_interrupted (st_setPc r i pc s) = st_interrupted s"
  "st_interrupted (st_clearOfferTimer s) = st_interrupted s"
  by (simp_all add: tf_emit_def st_setPc_def st_clearOfferTimer_def)

lemma interrupted_release [simp]: "st_interrupted (st_release s) = st_interrupted s"
proof -
  have "st_interrupted (fold (\<lambda>(r, i) s. st_setPc r i (gate_open (st_pc s r i)) s) xs t) = st_interrupted t" for xs t
    by (induction xs arbitrary: t) (simp_all add: split_def)
  then show ?thesis by (simp add: st_release_def)
qed

lemma interrupted_close [simp]: "st_interrupted (fold st_closeChannel xs s) = st_interrupted s"
  by (induction xs arbitrary: s) (simp_all add: st_closeChannel_def)

lemma interrupted_transition [simp]: "st_interrupted (snd (st_transitionTo n s)) = st_interrupted s"
  by (simp add: st_transitionTo_def tf_transitionTo_def st_onTerminal_def Let_def)

lemma fail_state: "(\<And>e s. tf_isTerminal s \<Longrightarrow> tf_state (notify e s) = tf_state s) \<Longrightarrow>
  tf_state (tf_fail st_onTerminal notify e b s) = (if tf_isTerminal s then tf_state s else Failed)"
  by (simp add: tf_fail_def Let_def st_transitionTo_def [symmetric] ft_move_def ft_edge_def terminal_simps)

lemma fail_interrupted: "(\<And>e s. st_interrupted (notify e s) = st_interrupted s) \<Longrightarrow>
  st_interrupted (tf_fail st_onTerminal notify e b s) = st_interrupted s"
  by (simp add: tf_fail_def Let_def st_transitionTo_def [symmetric])

lemma safeControl_state: "tf_state (st_safeControl m s) = tf_state s \<or> tf_state (st_safeControl m s) = Failed"
  by (auto simp: st_safeControl_def tf_sendControl_def fail_state)

lemma safeControl_interrupted [simp]: "st_interrupted (st_safeControl m s) = st_interrupted s"
  by (auto simp: st_safeControl_def tf_sendControl_def fail_interrupted)

lemma safeControl_terminal: "tf_isTerminal s \<Longrightarrow> tf_state (st_safeControl m s) = tf_state s"
  by (auto simp: st_safeControl_def tf_sendControl_def fail_state)

lemma calm_safeControl: "(\<And>i d. m \<noteq> Sent i d) \<Longrightarrow> calm s (st_safeControl m s)"
  using safeControl_state [of m s] by (auto simp: calm_def intro: quiet_safeControl)

lemma calm_fail: "calm s (st_fail e b s)"
proof -
  have "tf_state (st_fail e b s) = (if tf_isTerminal s then tf_state s else Failed)" "st_interrupted (st_fail e b s) = st_interrupted s"
    unfolding st_fail_def by (auto simp: fail_state fail_interrupted st_notifyRemoteFailure_def safeControl_terminal)
  then show ?thesis by (auto simp: calm_def)
qed

lemma calm_trans: "calm s t \<Longrightarrow> calm t u \<Longrightarrow> calm s u"
  unfolding calm_def by (auto intro: quiet_trans)

text \<open>Every event leaves a stuck sender stuck.\<close>

lemma stuck_worker:
  assumes s: "st_stuck s"
  shows "st_stuck (st_workerStep src subtle r i fault s)"
proof (cases "r < length (st_runs s)")
  case True
  have over: "rn_phase (st_runs t ! r) = RnOver" if "st_stuck t" "r < length (st_runs t)" for t
    using that by (simp add: st_stuck_def)
  have pc: "st_stuck (st_setPc r j pc t)" if "st_stuck t" "r < length (st_runs t)" for t j pc
    using that over [OF that] by (auto simp: st_stuck_def st_setPc_def dest!: set_update_subset_insert [THEN subsetD])
  have f: "st_stuck (st_workerFailed r i e t)" if "st_stuck t" "r < length (st_runs t)" for t e
    using pc [OF that] over [OF that] that(2) by (simp add: st_workerFailed_def Let_def setPc_runs)
  have l: "st_stuck (st_loop r i q t)" if "st_stuck t" "r < length (st_runs t)" for t q
    using pc [OF that] by (auto simp: st_loop_def) (simp_all add: st_stuck_def)
  have c: "st_stuck (st_continue r i q t)" if "st_stuck t" "r < length (st_runs t)" for t q
    using l [OF that] by (simp add: st_continue_def)
  have d: "st_stuck (st_drain r i q bs t)" if "st_stuck t" "r < length (st_runs t)" for t q bs
    using that by (auto simp: st_drain_def Let_def split_def intro!: pc) (simp add: st_stuck_def)
  have h: "st_stuck (st_hashed subtle r i q bs s)" for q bs
  proof -
    have "st_stuck (st_setRun r ((st_runs s ! r)\<lparr>rn_digest := x\<rparr>) s)" for x
      using s over [OF s True] by (auto simp: st_stuck_def st_setRun_def dest!: set_update_subset_insert [THEN subsetD])
    then show ?thesis using s True f [OF s True] by (auto simp: st_hashed_def Let_def st_setRun_def split: option.split sum.split intro!: c d)
  qed
  have "st_stuck (st_frameSent r i q bs s)" for q bs
    using s by (simp add: st_stuck_def st_frameSent_def tf_emitProgress_def tf_emit_def Let_def)
  then have n: "st_stuck (st_send r i q bs fault s)" for q bs
    using pc [OF s True] f [OF s True] True by (auto simp: st_send_def Let_def frameSent_fields split: option.split intro!: c)
  show ?thesis
    using s True pc [OF s True] f [OF s True] l [OF s True] c [OF s True] d [OF s True] h n
    by (simp add: st_workerStep_def Let_def st_gatePassed_def st_read_def split: worker_pc.split promise.split option.split)
qed (use s in \<open>simp add: st_workerStep_def\<close>)

lemma stuck_run: "st_stuck s \<Longrightarrow> st_runStep subtle r s = s"
  by (simp add: st_runStep_def st_stuck_def)

lemma calm_pauses:
  "calm s (snd (st_applyPause s))" "calm s (snd (st_applyResume s))" "calm s (st_clearOfferTimer s)" "calm s (st_markCancelled c s)"
proof -
  have m: "fst (ft_move Active Paused) = Paused" "fst (ft_move Paused Active) = Active" by (simp_all add: ft_move_def ft_edge_def TERMINAL_def)
  have p: "st_interrupted (snd (st_applyPause s)) = st_interrupted s" "st_interrupted (snd (st_applyResume s)) = st_interrupted s"
    by (simp_all add: st_applyPause_def st_applyResume_def split_def Let_def)
  show "calm s (snd (st_applyPause s))" unfolding calm_def p
    using quiet_applyPause by (auto simp: st_applyPause_def m)
  show "calm s (snd (st_applyResume s))" unfolding calm_def p
    using quiet_applyResume by (auto simp: st_applyResume_def split_def Let_def m)
  show "calm s (st_clearOfferTimer s)" by (simp add: calm_def)
  have "tf_state (st_markCancelled c s) = (if tf_isTerminal s then tf_state s else TCancelled)" "st_interrupted (st_markCancelled c s) = st_interrupted s"
    by (auto simp: st_markCancelled_def Let_def ft_move_def ft_edge_def terminal_simps split: option.split)
  then show "calm s (st_markCancelled c s)" unfolding calm_def using quiet_markCancelled by auto
qed

lemma stuck_control:
  assumes s: "st_stuck s"
  shows "st_stuck (st_handleControl m s)"
proof -
  define s0 where "s0 = st_clearOfferTimer s"
  have s0: "st_stuck s0" unfolding s0_def by (rule stuck_calm [OF s calm_pauses(3)])
  have b: "st_begin h s0 = s0" for h
    using s0 by (auto simp: st_begin_def st_clearOfferTimer_def st_stuck_def s0_def Let_def)
  have c: "snd (st_transitionTo Completed s0) = s0" "\<not> fst (st_transitionTo Completed s0)"
    using s0 by (auto simp: st_stuck_def st_transitionTo_def tf_transitionTo_def terminal_simps)
  show ?thesis unfolding st_handleControl_def Let_def s0_def [symmetric]
    by (cases m) (simp_all add: b c split_def s0 stuck_calm [OF s0 calm_fail] stuck_calm [OF s0 calm_pauses(1)] stuck_calm [OF s0 calm_pauses(2)]
        stuck_calm [OF s0 calm_pauses(4)])
qed

lemma stuck_channel: "st_stuck s \<Longrightarrow> st_stuck (st_channelEvent c ev s)"
  by (auto simp: st_stuck_def st_channelEvent_def Let_def)

lemma stuck_public:
  assumes s: "st_stuck s"
  shows "st_stuck (st_start enc s)" "st_stuck (st_reoffer enc chs s)" "st_stuck (st_pause s)" "st_stuck (st_resume s)" "st_stuck (st_cancel c s)"
    "st_stuck (st_timeout s)"
proof -
  have "st_transitionTo Offered s = (False, s)"
    using s by (auto simp: st_stuck_def st_transitionTo_def tf_transitionTo_def terminal_simps)
  then show "st_stuck (st_start enc s)" using s by (simp add: st_start_def)
  show "st_stuck (st_reoffer enc chs s)" using s by (simp add: st_reoffer_def st_stuck_def)
  show "st_stuck (st_pause s)" "st_stuck (st_resume s)"
    using stuck_calm [OF stuck_calm [OF s calm_pauses(1)] calm_safeControl] stuck_calm [OF stuck_calm [OF s calm_pauses(2)] calm_safeControl]
      stuck_calm [OF s calm_pauses(1)] stuck_calm [OF s calm_pauses(2)]
    by (simp_all add: st_pause_def st_resume_def split_def Let_def)
  show "st_stuck (st_cancel c s)"
    using stuck_calm [OF stuck_calm [OF s calm_safeControl] calm_pauses(4)] s by (simp add: st_cancel_def)
  have "st_stuck (s\<lparr>st_offerTimer := None\<rparr>)" using s by (simp add: st_stuck_def)
  then show "st_stuck (st_timeout s)"
    using s stuck_calm [OF _ calm_fail] by (simp add: st_timeout_def Let_def split: option.split)
qed

lemma stuck_exec: "st_stuck s \<Longrightarrow> st_stuck (st_exec enc src subtle ev s)"
  by (cases ev) (auto simp: st_exec_def stuck_public stuck_control stuck_worker stuck_run stuck_channel, simp add: st_stuck_def)

lemma stuck_forever: "st_stuck s \<Longrightarrow> tf_state (st_runAll enc src subtle evs s) \<noteq> Completed"
proof -
  have "st_stuck s \<Longrightarrow> st_stuck (st_runAll enc src subtle evs s)"
    by (induction evs arbitrary: s) (simp_all add: st_runAll_def stuck_exec)
  then show "st_stuck s \<Longrightarrow> ?thesis" unfolding st_stuck_def by auto
qed

text \<open>A run that ends while the sender is paused: what it leaves behind is stuck.\<close>

lemma stuck_safeControl:
  assumes s: "st_stuck s"
  shows "st_stuck (st_safeControl m s)"
proof (cases "tf_linkUp s")
  case True
  then have "st_safeControl m s = tf_emit (Control m) s" by (simp add: st_safeControl_def tf_sendControl_def)
  then show ?thesis using s by (simp add: st_stuck_def tf_emit_def)
next
  case False
  have eq: "st_safeControl m s = tf_fail st_onTerminal (\<lambda>_ s. s) (toTransferError (tf_id s) (link_error s) ChannelClosed) False s"
    using False by (simp add: st_safeControl_def tf_sendControl_def)
  have "calm s (st_safeControl m s)" unfolding eq calm_def using quiet_fail_with [of "\<lambda>_ s. s"]
    by (auto simp: fail_state fail_interrupted)
  then show ?thesis by (rule stuck_calm [OF s])
qed

lemma paused_moves:
  assumes "tf_state s = Paused"
  shows "st_transitionTo Completing s = (False, s)" "st_interrupt s = s"
  using assms by (simp_all add: st_transitionTo_def tf_transitionTo_def terminal_simps st_interrupt_def)

lemma stuck_ended:
  assumes s: "st_stuck t" "tf_state t = Paused"
  shows "st_stuck (st_sent d t)" "tf_linkUp t \<Longrightarrow> tf_log (st_sent d t) = tf_log t @ [Control (Sent (tf_id t) d)]"
    "st_stuck (st_caught g e t)"
    "st_resumable t \<Longrightarrow> fe_code (toTransferError (tf_id t) e SourceReadFailed) = ChannelClosed \<Longrightarrow> st_caught g e t = t"
  using stuck_safeControl [OF s(1)] stuck_calm [OF s(1) calm_fail] s paused_moves [OF s(2)]
  by (auto simp: st_sent_def st_caught_def Let_def st_safeControl_def tf_sendControl_def tf_emit_def terminal_simps)

text \<open>(C38) A run of the workers that comes to its end while the sender is paused (and not interrupted) loses the transfer: whatever happens
  afterwards, resuming and re-offering included, it never becomes completed. When the run ends by announcing that everything is sent, the announcement goes out, but the
  transition to completing is refused, and with it the receiver's later report of completion. When it ends because a channel was closed, a resumable sender
  swallows the error: no event, still paused, not interrupted, so that nothing can start a new run.\<close>

theorem ft_pause_loses_transfer:
  assumes paused: "tf_state s = Paused" "\<not> st_interrupted s"
    and run: "r < length (st_runs s)" "rn_phase (st_runs s ! r) \<noteq> RnOver" "\<And>q. q < length (st_runs s) \<Longrightarrow> q \<noteq> r \<Longrightarrow> rn_phase (st_runs s ! q) = RnOver"
    and ends: "u = st_exec enc src subtle (TxRun r) s" "rn_phase (st_runs u ! r) = RnOver"
  shows "tf_state (st_runAll enc src subtle evs u) \<noteq> Completed \<and>
    (rn_phase (st_runs s ! r) = RnFinalize \<or> rn_phase (st_runs s ! r) = RnWorkers \<and> \<not> st_stale r s \<longrightarrow> tf_linkUp s \<longrightarrow>
       (\<exists>d. tf_log u = tf_log s @ [Control (Sent (tf_id s) d)])) \<and>
    (\<forall>e. rn_phase (st_runs s ! r) = RnRejected e \<longrightarrow> st_resumable s \<longrightarrow> fe_code (toTransferError (tf_id s) e SourceReadFailed) = ChannelClosed \<longrightarrow>
       tf_log u = tf_log s \<and> tf_state u = Paused \<and> \<not> st_interrupted u)"
proof -
  define t where "t = st_setRun r ((st_runs s ! r)\<lparr>rn_phase := RnOver\<rparr>) s"
  have tf: "tf_state t = Paused" "tf_log t = tf_log s" "tf_id t = tf_id s" "tf_linkUp t = tf_linkUp s" "st_resumable t = st_resumable s" "\<not> st_interrupted t"
    using paused by (simp_all add: t_def st_setRun_def)
  have "rn_phase run' = RnOver" if mem: "run' \<in> set (st_runs t)" for run'
  proof -
    obtain i where "i < length (st_runs s)" "run' = (st_runs s)[r := (st_runs s ! r)\<lparr>rn_phase := RnOver\<rparr>] ! i"
      using mem by (auto simp: t_def st_setRun_def in_set_conv_nth)
    then show ?thesis using run(3) [of i] by (cases "i = r") simp_all
  qed
  then have stuck: "st_stuck t" using tf(1,6) by (simp add: st_stuck_def)
  have u: "u = st_runStep subtle r s" using ends(1) by (simp add: st_exec_def)
  have step: "(rn_phase (st_runs s ! r) = RnWorkers \<and> st_stale r s \<and> u = t) \<or>
      ((rn_phase (st_runs s ! r) = RnFinalize \<or> rn_phase (st_runs s ! r) = RnWorkers \<and> \<not> st_stale r s) \<and> (\<exists>d. u = st_sent d t)) \<or>
      (\<exists>e. rn_phase (st_runs s ! r) = RnRejected e \<and> u = st_caught (rn_gen (st_runs s ! r)) e t)"
  proof -
    let ?run = "st_runs s ! r" and ?to = "\<lambda>ph. st_setRun r ((st_runs s ! r)\<lparr>rn_phase := ph\<rparr>) s"
    have to: "rn_phase (st_runs (?to ph) ! r) = ph" for ph using run(1) by (simp add: st_setRun_def)
    have other: "u \<noteq> s" "ph \<noteq> RnOver \<Longrightarrow> u \<noteq> ?to ph" for ph using run(2) ends(2) to [of ph] by auto
    show ?thesis
    proof (cases "rn_phase ?run")
      case RnWorkers
      then have "u = (if \<not> all_done ?run then s else if st_stale r s then t else if rn_digest ?run = None then st_sent None t else ?to RnFinalize)"
        using run(1) by (simp add: u st_runStep_def Let_def t_def)
      then show ?thesis using RnWorkers other by (auto split: if_splits)
    next
      case RnFinalize
      then have "u = (case dg_finalize subtle (the (rn_digest ?run)) of Inl e \<Rightarrow> ?to (RnRejected (TransferErr e)) | Inr hx \<Rightarrow> st_sent (Some hx) t)"
        using run(1) unfolding t_def by (simp add: u st_runStep_def Let_def)
      then show ?thesis using RnFinalize other by (auto split: sum.splits)
    next
      case (RnRejected e)
      then show ?thesis using run(1) by (simp add: u st_runStep_def Let_def t_def)
    qed (use run(2) in simp)
  qed
  then have "st_stuck u" using stuck stuck_ended(1,3) [OF stuck tf(1)] by auto
  then have never: "tf_state (st_runAll enc src subtle evs u) \<noteq> Completed" by (rule stuck_forever)
  have sent: "\<exists>d. tf_log u = tf_log s @ [Control (Sent (tf_id s) d)]"
    if "rn_phase (st_runs s ! r) = RnFinalize \<or> rn_phase (st_runs s ! r) = RnWorkers \<and> \<not> st_stale r s" (is ?ph) and up: "tf_linkUp s"
  proof -
    have ph: ?ph by fact
    then have "\<not> (rn_phase (st_runs s ! r) = RnWorkers \<and> st_stale r s)" "rn_phase (st_runs s ! r) \<noteq> RnRejected e" for e by auto
    then obtain d where d: "u = st_sent d t" using step by blast
    show ?thesis unfolding d using stuck_ended(2) [OF stuck tf(1), of d] up tf by (intro exI [of _ d]) simp
  qed
  have lost: "tf_log u = tf_log s \<and> tf_state u = Paused \<and> \<not> st_interrupted u"
    if e: "rn_phase (st_runs s ! r) = RnRejected e" "st_resumable s" "fe_code (toTransferError (tf_id s) e SourceReadFailed) = ChannelClosed" for e
  proof -
    have "u = st_caught (rn_gen (st_runs s ! r)) e t" using step e(1) by auto
    also have "\<dots> = t" using stuck_ended(4) [OF stuck tf(1)] e(2,3) tf by simp
    finally show ?thesis using tf by simp
  qed
  show ?thesis using never sent lost by blast
qed

text \<open>The example file, paused while the last chunk is hashed.\<close>

definition ex_late_pause :: send_transfer where
  "ex_late_pause = st_runAll ex_enc (bs_slice ex_blob) (Some ex_sha)
     ([TxStart, TxControl (Accept ''t'' None), TxChannel 0 ChOpens, TxChannel 1 ChOpens] @
      replicate 9 (TxWorker 0 0 None) @ [TxChannel 0 (ChDrains 6)] @ replicate 4 (TxWorker 0 1 None) @ [TxPause] @
      [TxWorker 0 0 None, TxWorker 0 1 None, TxRun 0]) (st_new ex_params ex_channels)"

lemma ex_late_pause_state:
  "tf_state ex_late_pause = Paused" "\<not> st_interrupted ex_late_pause" "length (st_runs ex_late_pause) = 1" "tf_linkUp ex_late_pause"
  "rn_phase (st_runs ex_late_pause ! 0) = RnFinalize" "map sf_seq (st_wire ex_late_pause) = [0, 2, 1]"
  "rn_phase (st_runs (st_exec ex_enc (bs_slice ex_blob) (Some ex_sha) (TxRun 0) ex_late_pause) ! 0) = RnOver"
  by code_simp+

theorem ft_pause_loses_transfer_witness:
  "let u = st_exec ex_enc (bs_slice ex_blob) (Some ex_sha) (TxRun 0) ex_late_pause in
   (\<exists>d. tf_log u = tf_log ex_late_pause @ [Control (Sent (tf_id ex_late_pause) d)]) \<and>
   tf_state (st_runAll ex_enc (bs_slice ex_blob) (Some ex_sha) [TxResume, TxControl (Complete ''t'')] u) \<noteq> Completed"
proof -
  note X = ex_late_pause_state
  have r: "0 < length (st_runs ex_late_pause)" "rn_phase (st_runs ex_late_pause ! 0) \<noteq> RnOver" using X(3,5) by simp_all
  from ft_pause_loses_transfer [OF X(1,2) r _ refl X(7), of "[TxResume, TxControl (Complete ''t'')]"] X(3-5)
  show ?thesis unfolding Let_def by simp
qed

end
