(* ===== verification/Spec2Isabelle.thy ===== *)
theory Spec2Isabelle
  imports EventEmitter MessageBus StateStore Lock Clock Reconciler RateLimiter Server Router CascadePlan Sfu CascadingInv CascadeTree FtSender
begin

text \<open>
  A model of RTCForge, a TypeScript toolkit for real-time communication, with the theorems that make it
  correct. The repository has five packages under \<^verbatim>\<open>src/packages\<close>: \<^verbatim>\<open>core\<close> (cluster primitives),
  \<^verbatim>\<open>signaling\<close> (the room server), \<^verbatim>\<open>sfu\<close> (placement of rooms on media nodes), \<^verbatim>\<open>sdk\<close> (the client, with file
  transfer) and \<^verbatim>\<open>media\<close> (calls and media workers).

  \<^bold>\<open>How the code is modelled.\<close> A class is a record, a method a function from the old state to the new one, a listener or callback an argument or an entry of a
  log, a map or set of JavaScript an association list or a list without repetitions in insertion order
  (\<open>Prelude\<close>). An \<^verbatim>\<open>async\<close> method is cut at its awaits: the state says what is awaited and one function per continuation
  runs from one await to the next, so all interleavings are sequences of steps. Objects that are shared (peers, SFU nodes, plan
  nodes) live in a heap. A throw is a value of a sum, an option or a flag. What lies outside the repository is a
  parameter: the \<^verbatim>\<open>ws\<close> sockets, JSON parsing with zod, SHA-256, the authentication and ICE hooks, the source of randomness, the network.

  \<^bold>\<open>core.\<close>
  \<^item> \<open>HashRing\<close> (\<^verbatim>\<open>HashRing.ts\<close>): weighted rendezvous hashing; a key moves only to an added node or off a removed one, and fail-over is the
    next node of \<^verbatim>\<open>getN\<close>. The score (a real-valued logarithm) is computed as in the code from a 32-bit hash.
  \<^item> \<open>EventEmitter\<close>, \<open>MessageBus\<close>, \<open>StateStore\<close>, \<open>Lock\<close>, \<open>Clock\<close>: snapshots of listeners, isolation of subscribers, expiry,
    mutual exclusion (a locale interpreted on the lock), termination of the manual clock when
    callbacks only schedule later tasks.
  \<^item> \<open>Membership\<close>, \<open>Gossip\<close>: merging of digests as a join of views, convergence in any order of delivery,
    refutation, listing; claims that no digest refutes.
  \<^item> \<open>Reconciler\<close> (\<^verbatim>\<open>MembershipReconciler.ts\<close>): the callbacks are a consistent log for all handlers that throw or re-enter;
    coupled with \<open>Gossip\<close> it tracks the nodes that are alive. A pass that re-enters for ever is \<open>None\<close> (\<open>partial_function\<close>); that it returns is proved.

  \<^bold>\<open>signaling.\<close>
  \<^item> \<open>RateLimiter\<close>: equal to the definition of a sliding window.
  \<^item> \<open>Peer\<close>, \<open>Room\<close>, \<open>Server\<close> (\<^verbatim>\<open>Peer.ts\<close>, \<^verbatim>\<open>Room.ts\<close>, \<^verbatim>\<open>SignalingServer.ts\<close>, \<^verbatim>\<open>RoomRegistry.ts\<close>, \<^verbatim>\<open>HeartbeatMonitor.ts\<close>,
    \<^verbatim>\<open>Authenticator.ts\<close>): truncation of close reasons, the invariant of a room and its life cycle (locale \<open>lifecycle\<close>), the
    caps and counters of the server over every interleaving, authenticity of what is sent, the heartbeat.
  \<^item> \<open>Router\<close> (\<^verbatim>\<open>RoomRouter.ts\<close>): nodes that saw the same snapshot agree on the owner of every room.

  \<^bold>\<open>sfu.\<close>
  \<^item> \<open>CascadePlan\<close>: \<^verbatim>\<open>planCascadeTree\<close> gives a tree within the fan-out and seats viewers within capacity.
  \<^item> \<open>Sfu\<close> (\<^verbatim>\<open>SfuNode.ts\<close>, \<^verbatim>\<open>SfuCluster.ts\<close>, \<^verbatim>\<open>PlacementStrategy.ts\<close>, \<^verbatim>\<open>NodeFailureTracker.ts\<close>): the contract of placement as the locale
    \<open>placement\<close>, interpreted on both strategies; hysteresis of health checks.
  \<^item> \<open>Cascading\<close> (\<^verbatim>\<open>CascadingRouter.ts\<close>): rooms, cascades and what nodes track.
  \<^item> \<open>CascadingInv\<close>: the router stays consistent with the cluster over every sequence of operations, for every strategy that answers one
    of its candidates (locale \<open>candidates\<close>, interpreted on both strategies).
  \<^item> \<open>CascadeTree\<close> (the class of \<^verbatim>\<open>CascadeTree.ts\<close>): trees rebuilt when nodes are lost; the link events always add up to the links of the plan. The
    locale \<open>cluster_listener\<close> lifts what listeners keep to all cluster operations.

  \<^bold>\<open>sdk.\<close>
  \<^item> \<open>FtWire\<close>: frames, checksums, control messages, labels and file names of the file transfer.
  \<^item> \<open>FtTransfer\<close>: the life cycle of a transfer, the contract of a sink as the locale \<open>storage_sink\<close>, interpreted on the memory and the file sink.
  \<^item> \<open>FtReceive\<close> (\<^verbatim>\<open>ReceiveTransfer.ts\<close>): the receiving side, its write chain and completion; \<open>FtReceiveInv\<close>: its invariant, for every sink;
    \<open>FtIntegrity\<close>: integrity of completed files, bounds, and what pausing and cancelling at the end of a transfer leave undone.
  \<^item> \<open>FtChunks\<close>: chunks and digests of a file and the contract of a source (locale \<open>file_source\<close>, interpreted on the blob and the
    node file source); \<open>FtSend\<close> (\<^verbatim>\<open>SendTransfer.ts\<close>, \<^verbatim>\<open>channel.ts\<close>): the sending side with its workers, pause gate, drains and timers;
    \<open>FtSendInv\<close>: its invariant; \<open>FtSystem\<close>: sender and receiver over an arbitrary network, the file arrives as it was offered;
    \<open>FtSender\<close>: what one run puts on the channels, and how a run that ends while paused loses the transfer.

  \<^bold>\<open>Numbers.\<close> Counters, sizes and millisecond clocks are \<open>nat\<close> or \<open>int\<close> where the code stays far below \<open>2 ^ 53\<close>; the
  incarnation of gossip keeps the rounding of doubles (\<open>js_incr\<close>), hashes and frame headers are 32-bit words, text
  that is cut is in 16-bit units. There is no fuel: every loop terminates by a measure, or its result is an option and returning is proved.

  \<^bold>\<open>Not modelled.\<close> The \<^verbatim>\<open>media\<close> package (wrappers of mediasoup and of the browser's peer connections, whose state is in those objects);
  UDP gossip transport (sockets and ciphers); the HTTP side of the server; platform file handles; log lines and metrics beyond
  their names; re-exports.
\<close>

end
